(* ===== verification/Prelude.thy ===== *)
theory Prelude
  imports Main "HOL-Library.Word" "HOL-Library.Monad_Syntax" "HOL-Library.Sublist"
begin

text \<open>
  What every component shares: bytes, the memory behind a C string as a list of bytes in which
  reading past the end has no result, the libc string functions the sources call, the collections
  of facts the proofs rest on, and the interfaces (a byte sink, a state machine) that several
  components provide.
\<close>

unbundle bit_operations_syntax

section \<open>Fact collections\<close>

named_theorems c_simps \<open>evaluation of the libc functions and of reads through a pointer\<close>
named_theorems inv_intros \<open>preservation of the invariants by the operations\<close>

section \<open>Bytes and C strings\<close>

type_synonym byte = "8 word"
type_synonym u16 = "16 word"
type_synonym u32 = "32 word"
type_synonym u64 = "64 word"

text \<open>The bytes of a C string literal, without its terminator.\<close>

definition bytes :: "string \<Rightarrow> byte list" where
  "bytes cs = map of_char cs"

lemma bytes_Nil [simp]: "bytes [] = []"
  by (simp add: bytes_def)

lemma bytes_Cons [simp]: "bytes (c # cs) = of_char c # bytes cs"
  by (simp add: bytes_def)

lemma bytes_append: "bytes (xs @ ys) = bytes xs @ bytes ys"
  by (simp add: bytes_def)

lemma length_bytes [simp]: "length (bytes cs) = length cs"
  by (simp add: bytes_def)

text \<open>The memory of a literal.\<close>

definition literal :: "string \<Rightarrow> byte list" where
  "literal s = bytes s @ [0]"

text \<open>
  A pointer into a buffer is the list of the bytes from the pointer to the end of the buffer.
  Reading through a pointer at the end of the buffer has no result: the model of an out-of-bounds
  read is \<open>None\<close>, and it propagates.
\<close>

fun deref :: "'a list \<Rightarrow> 'a option" where
  "deref [] = None"
| "deref (c # _) = Some c"

lemma deref_Some_iff [c_simps]: "deref s = Some c \<longleftrightarrow> (\<exists>s'. s = c # s')"
  by (cases s) auto

lemma deref_None_iff [c_simps]: "deref s = None \<longleftrightarrow> s = []"
  by (cases s) auto

text \<open>The text of a C string: the bytes before the terminator.\<close>

fun cstr :: "byte list \<Rightarrow> byte list option" where
  "cstr [] = None"
| "cstr (c # s) = (if c = 0 then Some [] else map_option (Cons c) (cstr s))"

definition nul_free :: "byte list \<Rightarrow> bool" where
  "nul_free s \<longleftrightarrow> 0 \<notin> set s"

lemma nul_free_simps [simp]:
  "nul_free []"
  "nul_free (c # s) \<longleftrightarrow> c \<noteq> 0 \<and> nul_free s"
  "nul_free (s @ t) \<longleftrightarrow> nul_free s \<and> nul_free t"
  by (auto simp: nul_free_def)

lemma cstr_terminated [c_simps]: "nul_free s \<Longrightarrow> cstr (s @ 0 # t) = Some s"
  by (induction s) auto

lemma cstr_Some_nul_free: "cstr m = Some s \<Longrightarrow> nul_free s"
  by (induction m arbitrary: s) (auto split: if_splits)

lemma cstr_split: "cstr m = Some s \<Longrightarrow> \<exists>t. m = s @ 0 # t"
  by (induction m arbitrary: s) (auto split: if_splits)

lemma cstr_defined: "(\<exists>s. cstr m = Some s) \<longleftrightarrow> 0 \<in> set m"
  by (induction m) auto

section \<open>Interface: a byte sink\<close>

text \<open>
  Several components append bytes to something that grows: the string buffer of the JSON emitters,
  the stream a response is written to. A sink has its contents, an invariant, and one operation
  that appends; appending fails (\<open>None\<close>) where the code would write outside its buffer. Under the
  contract below no sequence of appends fails as long as the contents have room, and the contents
  are the concatenation.
\<close>

fun put_all :: "('s \<Rightarrow> byte list \<Rightarrow> 's option) \<Rightarrow> 's \<Rightarrow> byte list list \<Rightarrow> 's option" where
  "put_all put s [] = Some s"
| "put_all put s (x # xs) = do { s' \<leftarrow> put s x; put_all put s' xs }"

locale bounded_sink =
  fixes put :: "'s \<Rightarrow> byte list \<Rightarrow> 's option"
    and contents :: "'s \<Rightarrow> byte list"
    and ok :: "'s \<Rightarrow> bool"
    and room :: "nat \<Rightarrow> bool"
  assumes room_mono: "room n \<Longrightarrow> m \<le> n \<Longrightarrow> room m"
    and put_room: "ok s \<Longrightarrow> room (length (contents s) + length bs) \<Longrightarrow>
      \<exists>s'. put s bs = Some s' \<and> ok s' \<and> contents s' = contents s @ bs"
begin

lemma put_all_room:
  "ok s \<Longrightarrow> room (length (contents s) + length (concat xs)) \<Longrightarrow>
    \<exists>s'. put_all put s xs = Some s' \<and> ok s' \<and> contents s' = contents s @ concat xs"
proof (induction xs arbitrary: s)
  case Nil
  then show ?case by simp
next
  case (Cons x xs)
  then have "room (length (contents s) + length x)" by (auto intro: room_mono)
  from put_room [OF Cons.prems(1) this] obtain s1
    where s1: "put s x = Some s1" "ok s1" "contents s1 = contents s @ x" by blast
  with Cons.prems(2) have "room (length (contents s1) + length (concat xs))" by (simp add: add.assoc)
  from Cons.IH [OF s1(2) this] s1 show ?case by auto
qed

end

text \<open>A sink that grows as far as it is asked to.\<close>

locale byte_sink =
  fixes put :: "'s \<Rightarrow> byte list \<Rightarrow> 's option"
    and contents :: "'s \<Rightarrow> byte list"
    and ok :: "'s \<Rightarrow> bool"
  assumes put_ok: "ok s \<Longrightarrow> \<exists>s'. put s bs = Some s' \<and> ok s' \<and> contents s' = contents s @ bs"

sublocale byte_sink < bounded_sink put contents ok "\<lambda>_. True"
  using put_ok by unfold_locales auto

context byte_sink begin

lemma put_all_ok:
  "ok s \<Longrightarrow> \<exists>s'. put_all put s xs = Some s' \<and> ok s' \<and> contents s' = contents s @ concat xs"
  by (rule put_all_room) simp_all

lemma put_contents: "ok s \<Longrightarrow> put s bs = Some s' \<Longrightarrow> ok s' \<and> contents s' = contents s @ bs"
  using put_ok [of s bs] by auto

end

section \<open>Interface: a state machine with an invariant\<close>

inductive reach :: "('s \<Rightarrow> bool) \<Rightarrow> ('s \<Rightarrow> 's \<Rightarrow> bool) \<Rightarrow> 's \<Rightarrow> bool"
  for init :: "'s \<Rightarrow> bool" and step :: "'s \<Rightarrow> 's \<Rightarrow> bool" where
  reach_init: "init s \<Longrightarrow> reach init step s"
| reach_step: "reach init step s \<Longrightarrow> step s t \<Longrightarrow> reach init step t"

locale invariant_machine =
  fixes init :: "'s \<Rightarrow> bool"
    and step :: "'s \<Rightarrow> 's \<Rightarrow> bool"
    and inv :: "'s \<Rightarrow> bool"
  assumes inv_init: "init s \<Longrightarrow> inv s"
    and inv_step: "inv s \<Longrightarrow> step s t \<Longrightarrow> inv t"
begin

lemma inv_reach: "reach init step s \<Longrightarrow> inv s"
  by (induction rule: reach.induct) (auto intro: inv_init inv_step)

lemma reach_no_bad: "(\<And>s. inv s \<Longrightarrow> \<not> bad s) \<Longrightarrow> reach init step s \<Longrightarrow> \<not> bad s"
  using inv_reach by blast

end

end
