(* ===== verification/Utf8.thy ===== *)
theory Utf8
  imports Prelude
begin

text \<open>
  The Unicode helpers of \<open>src/util/json.c\<close>: validation and decoding of one UTF-8 character,
  encoding of one code point, and UTF-16 surrogate pairs. A string is the list of bytes from the
  pointer to the end of its buffer, terminator included, so a read past the buffer is \<open>None\<close>.
\<close>

section \<open>The code\<close>

text \<open>Length (1 to 4) of the valid character at the pointer, 0 if it is invalid or clipped.\<close>

definition utf8_validate_cz :: "byte list \<Rightarrow> nat option" where
  "utf8_validate_cz s = do {
     c \<leftarrow> deref s;
     let s = tl s;
     if c \<le> 0x7F then Some 1
     else if c \<le> 0xC1 then Some 0
     else if c \<le> 0xDF then do {
       c1 \<leftarrow> deref s;
       if c1 AND 0xC0 \<noteq> 0x80 then Some 0 else Some 2 }
     else if c \<le> 0xEF then do {
       c1 \<leftarrow> deref s;
       if c = 0xE0 \<and> c1 < 0xA0 then Some 0
       else if c = 0xED \<and> c1 > 0x9F then Some 0
       else if c1 AND 0xC0 \<noteq> 0x80 then Some 0
       else do {
         c2 \<leftarrow> deref (tl s);
         if c2 AND 0xC0 \<noteq> 0x80 then Some 0 else Some 3 } }
     else if c \<le> 0xF4 then do {
       c1 \<leftarrow> deref s;
       if c = 0xF0 \<and> c1 < 0x90 then Some 0
       else if c = 0xF4 \<and> c1 > 0x8F then Some 0
       else if c1 AND 0xC0 \<noteq> 0x80 then Some 0
       else do {
         c2 \<leftarrow> deref (tl s);
         if c2 AND 0xC0 \<noteq> 0x80 then Some 0
         else do {
           c3 \<leftarrow> deref (tl (tl s));
           if c3 AND 0xC0 \<noteq> 0x80 then Some 0 else Some 4 } } }
     else Some 0 }"

text \<open>Decode the character at the pointer: its code point and its length.\<close>

definition utf8_read_char :: "byte list \<Rightarrow> (u32 \<times> nat) option" where
  "utf8_read_char s = do {
     c0 \<leftarrow> deref s;
     if c0 \<le> 0x7F then Some (ucast c0, 1)
     else if c0 \<le> 0xDF then do {
       c1 \<leftarrow> deref (tl s);
       Some (push_bit 6 (ucast c0 AND 0x1F) OR (ucast c1 AND 0x3F), 2) }
     else if c0 \<le> 0xEF then do {
       c1 \<leftarrow> deref (tl s);
       c2 \<leftarrow> deref (tl (tl s));
       Some (push_bit 12 (ucast c0 AND 0xF) OR push_bit 6 (ucast c1 AND 0x3F)
             OR (ucast c2 AND 0x3F), 3) }
     else do {
       c1 \<leftarrow> deref (tl s);
       c2 \<leftarrow> deref (tl (tl s));
       c3 \<leftarrow> deref (tl (tl (tl s)));
       Some (push_bit 18 (ucast c0 AND 0x7) OR push_bit 12 (ucast c1 AND 0x3F)
             OR push_bit 6 (ucast c2 AND 0x3F) OR (ucast c3 AND 0x3F), 4) } }"

text \<open>Encode a code point: the bytes written to the output.\<close>

definition utf8_write_char :: "u32 \<Rightarrow> byte list" where
  "utf8_write_char u =
    (if u \<le> 0x7F then [ucast u]
     else if u \<le> 0x7FF then
       [ucast (0xC0 OR drop_bit 6 u), ucast (0x80 OR (u AND 0x3F))]
     else if u \<le> 0xFFFF then
       [ucast (0xE0 OR drop_bit 12 u), ucast (0x80 OR (drop_bit 6 u AND 0x3F)),
        ucast (0x80 OR (u AND 0x3F))]
     else
       [ucast (0xF0 OR drop_bit 18 u), ucast (0x80 OR (drop_bit 12 u AND 0x3F)),
        ucast (0x80 OR (drop_bit 6 u AND 0x3F)), ucast (0x80 OR (u AND 0x3F))])"

text \<open>The whole string, up to its terminator.\<close>

function utf8_validate :: "byte list \<Rightarrow> bool option" where
  "utf8_validate s = do {
     c \<leftarrow> deref s;
     if c = 0 then Some True
     else do {
       len \<leftarrow> utf8_validate_cz s;
       if len = 0 then Some False else utf8_validate (drop len s) } }"
  by pat_completeness auto
termination
  by (relation "measure length") (auto simp: c_simps)

declare utf8_validate.simps [simp del]

definition from_surrogate_pair :: "u16 \<Rightarrow> u16 \<Rightarrow> u32 option" where
  "from_surrogate_pair uc lc =
    (if uc \<ge> 0xD800 \<and> uc \<le> 0xDBFF \<and> lc \<ge> 0xDC00 \<and> lc \<le> 0xDFFF
     then Some (0x10000 + (push_bit 10 (ucast uc AND 0x3FF) OR ucast (lc AND 0x3FF)))
     else None)"

definition to_surrogate_pair :: "u32 \<Rightarrow> u16 \<times> u16" where
  "to_surrogate_pair u =
    (let n = u - 0x10000 in
     (ucast (drop_bit 10 n AND 0x3FF OR 0xD800), ucast (n AND 0x3FF OR 0xDC00)))"

section \<open>Bit operations as arithmetic\<close>

lemma nat_or_add: "y < 2 ^ k \<Longrightarrow> x * 2 ^ k OR y = x * 2 ^ k + (y::nat)"
proof -
  assume "y < 2 ^ k"
  then have y: "take_bit k y = y" by (simp add: take_bit_nat_eq_self_iff)
  have "push_bit k x AND take_bit k y = 0"
    by (rule bit_eqI) (auto simp: bit_simps)
  then have "push_bit k x AND y = 0" using y by simp
  then show ?thesis by (simp add: disjunctive_add_eq_or push_bit_eq_mult)
qed

lemma nat_or_consts:
  "y < 64 \<Longrightarrow> 0x80 OR y = 0x80 + (y::nat)"
  "y < 32 \<Longrightarrow> 0xC0 OR y = 0xC0 + (y::nat)"
  "y < 16 \<Longrightarrow> 0xE0 OR y = 0xE0 + (y::nat)"
  "y < 8 \<Longrightarrow> 0xF0 OR y = 0xF0 + (y::nat)"
  using nat_or_add[of y 6 2] nat_or_add[of y 5 6] nat_or_add[of y 4 14] nat_or_add[of y 3 30] by simp_all

lemma nat_and_masks:
  "x AND 0x1F = x mod 32" "x AND 0x3F = x mod 64" "x AND 0xF = x mod 16" "x AND 0x7 = x mod 8" 
  "x AND 0x3FF = x mod 1024" "x AND 0xC0 = (x div 64) mod 4 * 64" for x :: nat
proof -
  have m: "(0x1F::nat) = mask 5" "(0x3F::nat) = mask 6" "(0xF::nat) = mask 4" "(0x7::nat) = mask 3" "(0x3FF::nat) = mask 10"
    by (simp_all add: mask_eq_exp_minus_1)
  show "x AND 0x1F = x mod 32" "x AND 0x3F = x mod 64" "x AND 0xF = x mod 16" "x AND 0x7 = x mod 8" 
  "x AND 0x3FF = x mod 1024"
    by (simp_all only: m flip: take_bit_eq_mask) (simp_all add: take_bit_eq_mod)
  have "(0xC0::nat) = push_bit 6 (mask 2)" by (simp add: mask_eq_exp_minus_1 push_bit_eq_mult)
  moreover have "x AND push_bit 6 (mask 2) = push_bit 6 (take_bit 2 (drop_bit 6 x))"
    by (rule bit_eqI) (auto simp: bit_simps)
  ultimately show "x AND 0xC0 = (x div 64) mod 4 * 64"
    by (simp add: take_bit_eq_mod drop_bit_eq_div push_bit_eq_mult)
qed

lemmas unat_bits = unsigned_or_eq unsigned_and_eq unsigned_ucast_eq unsigned_push_bit_eq unsigned_drop_bit_eq
  take_bit_eq_mod [where 'a=nat] push_bit_eq_mult [where 'a=nat] drop_bit_eq_div [where 'a=nat] nat_and_masks word_le_nat_alt word_less_nat_alt mod_mod_cancel

lemma mod_of_lt: "a < k * m \<Longrightarrow> 0 < m \<Longrightarrow>  a div m mod k = a div m" for a :: nat
  by (simp add: less_mult_imp_div_less)

section \<open>The encoding in arithmetic\<close>

text \<open>The bytes of the encoding of a code point, as numbers.\<close>

definition "utf8_nats n = (if n \<le> 0x7F then [n] else if n \<le> 0x7FF then [0xC0 + n div 64, 0x80 + n mod 64]
  else if n \<le> 0xFFFF then [0xE0 + n div 4096, 0x80 + n div 64 mod 64, 0x80 + n mod 64]
  else [0xF0 + n div 262144, 0x80 + n div 4096 mod 64, 0x80 + n div 64 mod 64, 0x80 + (n::nat) mod 64])"

lemma utf8_write_nat: assumes "u \<le> 0x10FFFF" shows "map unat (utf8_write_char u) = utf8_nats (unat u)"
proof -
  consider "unat u \<le> 0x7F" | "0x7F < unat u" "unat u \<le> 0x7FF" | "0x7FF < unat u" "unat u \<le> 0xFFFF" |  "0xFFFF < unat u" "unat u \<le> 0x10FFFF"
    using assms by (simp add: word_le_nat_alt) linarith
  then show ?thesis
  proof cases
    case 1 then show ?thesis by (simp add: utf8_write_char_def utf8_nats_def unat_bits)
  next
    case 2 then show ?thesis by (simp add: utf8_write_char_def utf8_nats_def unat_bits nat_or_consts)
  next
    case 3 then show ?thesis by (simp add: utf8_write_char_def utf8_nats_def unat_bits nat_or_consts)
  next
    case 4 then show ?thesis by (simp add: utf8_write_char_def utf8_nats_def unat_bits nat_or_consts)
  qed
qed

text \<open>The code points UTF-8 may encode: up to 10FFFF, surrogates excluded.\<close>

definition code_point :: "nat \<Rightarrow> bool" where
  "code_point n \<longleftrightarrow> n \<le> 0x10FFFF \<and> \<not> (0xD800 \<le> n \<and> n \<le> 0xDFFF)"

lemma map_unat_split:
  "map unat bs = [a] \<longleftrightarrow> (\<exists>x. bs = [x] \<and> unat x = a)"
  "map unat bs = [a, b] \<longleftrightarrow> (\<exists>x y. bs = [x, y] \<and> unat x = a \<and> unat y = b)"
  "map unat bs = [a, b, c] \<longleftrightarrow> (\<exists>x y z. bs = [x, y, z] \<and> unat x = a \<and> unat y = b \<and> unat z = c)"
  "map unat bs = [a, b, c, d] \<longleftrightarrow> (\<exists>x y z w. bs = [x, y, z, w] \<and> unat x = a \<and> unat y = b \<and> unat z = c \<and> unat w = d)"
  for bs :: "byte list"
  by (auto simp: map_eq_Cons_conv)

lemma byte_cont_iff: "b AND 0xC0 = (0x80::byte) \<longleftrightarrow> unat b div 64 = 2"
proof -
  have "unat b < 256" using unsigned_less [of b] by simp
  then show ?thesis by (simp add: word_unat_eq_iff unat_bits) 
qed
lemma unat_lead:
  "b = 0xE0 \<longleftrightarrow> unat b = 0xE0" "b = 0xED \<longleftrightarrow> unat b = 0xED"
  "b = 0xF0 \<longleftrightarrow> unat b = 0xF0" "b = 0xF4 \<longleftrightarrow> unat b = 0xF4" for b :: byte
  by (simp_all add: word_unat_eq_iff)

lemma byte_lt: "unat (b::byte) < 256" using unsigned_less [of b] by simp

lemma digits3:
  fixes n p q b c :: nat
  assumes "n = p * 64 + c" "p = q * 64 + b" "b < 64" "c < 64" "0x7FF < n" "n \<le> 0xFFFF"
    "\<not> (0xD800 \<le> n \<and> n \<le> 0xDFFF)"
  shows "n = q * 4096 + (b * 64 + c)" "q < 16" "q = 0 \<longrightarrow> 32 \<le> b" "q = 13 \<longrightarrow> b < 32"
  using assms by auto

lemma digits4:
  fixes n p q r b c d :: nat
  assumes "n = p * 64 + d" "p = q * 64 + c" "q = r * 64 + b" "b < 64" "c < 64" "d < 64"
    "0xFFFF < n" "n \<le> 0x10FFFF"
  shows "n = r * 262144 + (b * 4096 + (c * 64 + d))" "r < 5" "r = 0 \<longrightarrow> 16 \<le> b" "r = 4 \<longrightarrow> b < 16"
  using assms by auto

text \<open>The shape of an encoding, with the code point split into the six-bit six_bit_digits it carries.\<close>

lemma utf8_cases:
  assumes "code_point (unat u)"
  obtains (1) x where "utf8_write_char u = [x]" "unat x = unat u" "unat u \<le> 0x7F"
  | (2) x y a b where "utf8_write_char u = [x, y]" "unat x = 0xC0 + a" "unat y = 0x80 + b"
      "unat u = a * 64 + b" "2 \<le> a" "a < 32" "b < 64"
  | (3) x y z a b c where "utf8_write_char u = [x, y, z]" "unat x = 0xE0 + a" "unat y = 0x80 + b"
      "unat z = 0x80 + c" "unat u = a * 4096 + (b * 64 + c)" "a < 16" "b < 64" "c < 64"
      "a = 0 \<longrightarrow> 32 \<le> b" "a = 13 \<longrightarrow> b < 32"
  | (4) x y z w a b c d where "utf8_write_char u = [x, y, z, w]" "unat x = 0xF0 + a"
      "unat y = 0x80 + b" "unat z = 0x80 + c" "unat w = 0x80 + d"
      "unat u = a * 262144 + (b * 4096 + (c * 64 + d))" "a < 5" "b < 64" "c < 64" "d < 64"
      "a = 0 \<longrightarrow> 16 \<le> b" "a = 4 \<longrightarrow> b < 16"
proof -
  let ?n = "unat u" and ?p = "unat u div 64" and ?q = "unat u div 4096" and ?r = "unat u div 262144"
  have "u \<le> 0x10FFFF" using assms by (simp add: code_point_def word_le_nat_alt)
  note w = utf8_write_nat [OF this]
  have d: "?n = ?p * 64 + ?n mod 64" "?p = ?q * 64 + ?p mod 64" "?q = ?r * 64 + ?q mod 64"
    by (simp_all add: div_mult2_eq [of _ 64 64, simplified] div_mult2_eq [of _ 4096 64, simplified])
  have m: "?n mod 64 < 64" "?p mod 64 < 64" "?q mod 64 < 64" by simp_all
  consider "?n \<le> 0x7F" | "0x7F < ?n" "?n \<le> 0x7FF" | "0x7FF < ?n" "?n \<le> 0xFFFF" | "0xFFFF < ?n" "?n \<le> 0x10FFFF"
    using assms by (simp add: code_point_def) linarith
  then show thesis
  proof cases
    case c: 1
    with w show thesis by (auto simp: utf8_nats_def map_unat_split intro: 1)
  next
    case c: 2
    with w obtain x y where "utf8_write_char u = [x, y]" "unat x = 0xC0 + ?p" "unat y = 0x80 + ?n mod 64"
      by (auto simp: utf8_nats_def map_unat_split)
    then show thesis using c d m by - (rule 2 [of x y ?p "?n mod 64"], (assumption | linarith)+)
  next
    case c: 3
    with w obtain x y z where "utf8_write_char u = [x, y, z]" "unat x = 0xE0 + ?q"
      "unat y = 0x80 + ?p mod 64" "unat z = 0x80 + ?n mod 64"
      by (auto simp: utf8_nats_def map_unat_split)
    moreover have "\<not> (0xD800 \<le> ?n \<and> ?n \<le> 0xDFFF)" using assms by (simp add: code_point_def)
    ultimately show thesis using m digits3 [OF d(1,2) m(2,1) c] by - (rule 3; assumption)
  next
    case c: 4
    with w obtain x y z v where "utf8_write_char u = [x, y, z, v]" "unat x = 0xF0 + ?r"
      "unat y = 0x80 + ?q mod 64" "unat z = 0x80 + ?p mod 64" "unat v = 0x80 + ?n mod 64"
      by (auto simp: utf8_nats_def map_unat_split)
    then show thesis using m digits4 [OF d m(3,2,1) c] by - (rule 4; assumption)
  qed
qed

lemma six_bit_digits:
  "k < 64 \<Longrightarrow> (128 + k) div 64 = 2" "k < 64 \<Longrightarrow> (128 + k) mod 64 = k"
  "k < 32 \<Longrightarrow> (192 + k) mod 32 = k" "k < 16 \<Longrightarrow> (224 + k) mod 16 = k" "k < 8 \<Longrightarrow> (240 + k) mod 8 = k" for k :: nat
proof -
  have *: "(m * q + k) mod m = k" if "k < m" for m q :: nat
    using that by simp
  show "k < 64 \<Longrightarrow> (128 + k) div 64 = 2" by (simp add: div_nat_eqI)
  show "k < 64 \<Longrightarrow> (128 + k) mod 64 = k"  "k < 32 \<Longrightarrow> (192 + k) mod 32 = k" "k < 16 \<Longrightarrow> (224 + k) mod 16 = k" "k < 8 \<Longrightarrow> (240 + k) mod 8 = k"
    using * [of 64 2] * [of 32 6] * [of 16 14] * [of 8 30] by simp_all
qed

lemma utf8_validate_write: assumes "code_point (unat u)" 
  shows "utf8_validate_cz (utf8_write_char u @ r) = Some (length (utf8_write_char u))"
  using assms
proof (cases u rule: utf8_cases)
  case 1 then show ?thesis by (simp add: utf8_validate_cz_def word_le_nat_alt)
next
  case 2
  then show ?thesis by (simp add: utf8_validate_cz_def Let_def word_le_nat_alt byte_cont_iff six_bit_digits)
next
  case (3 x y z a b c) 
  then have "x = 0xE0 \<longleftrightarrow> a = 0" "x = 0xED \<longleftrightarrow> a = 13" by (simp_all add: unat_lead)
  with 3 show ?thesis
    by (simp add: utf8_validate_cz_def Let_def word_le_nat_alt word_less_nat_alt byte_cont_iff six_bit_digits) linarith
next
  case (4 x y z w a b c d) 
  then have "x = 0xF0 \<longleftrightarrow> a = 0" "x = 0xF4 \<longleftrightarrow> a = 4" by (simp_all add: unat_lead)
  with 4 show ?thesis
    by (simp add: utf8_validate_cz_def Let_def word_le_nat_alt word_less_nat_alt byte_cont_iff six_bit_digits) linarith
qed

section \<open>Decoding is the inverse of encoding\<close>

lemma unat_ucast_byte: "unat (ucast (c::byte) :: u32) = unat c"
  using byte_lt[of c] by (simp add: unsigned_ucast_eq take_bit_nat_eq_self_iff) 

lemma unat_dec: 
  "unat (ucast (c::byte) AND 0x1F :: u32) = unat c mod 32"
  "unat (ucast (c::byte) AND 0x3F :: u32) = unat c mod 64"
  "unat (ucast (c::byte) AND 0xF :: u32) = unat c mod 16"
  "unat (ucast (c::byte) AND 0x7 :: u32) = unat c mod 8"
  unfolding unsigned_and_eq unat_ucast_byte by (simp_all add: nat_and_masks)

lemma unat_push_or:
  assumes "unat y < 2 ^ k" "unat x * 2 ^ k + unat y < 2 ^ 32" 
  shows "unat (push_bit k x OR y) = unat x * 2 ^ k + unat (y::u32)"
proof -
  have "unat x * 2 ^ k < 2 ^ 32" using assms(2) by simp
  then have "unat (push_bit k x) = unat x * 2 ^ k"
    unfolding unsigned_push_bit_eq  by (simp add: push_bit_eq_mult take_bit_nat_eq_self_iff)
  then show ?thesis unfolding unsigned_or_eq using nat_or_add [OF assms(1)] by simp
qed

lemma unat_dec2: "unat (push_bit 6 (ucast (c0::byte) AND 0x1F) OR (ucast c1 AND 0x3F) :: u32) = unat c0 mod 32 * 64 + unat (c1::byte) mod 64"
proof -
  have "unat c0 mod 32 < 32" "unat c1 mod 64 < 64" by simp_all
  then show ?thesis by (subst unat_push_or) (simp_all only: unat_dec, simp_all)
qed
lemma unat_dec3: "unat (push_bit 12 (ucast (c0::byte) AND 0xF) OR push_bit 6 (ucast c1 AND 0x3F) OR (ucast c2 AND 0x3F) :: u32) = unat c0 mod 16 * 4096 + (unat (c1::byte) mod 64 * 64 + unat (c2::byte) mod 64)"
proof -
  have m: "unat c0 mod 16 < 16" "unat c1 mod 64 < 64" "unat c2 mod 64 < 64" by simp_all
  have "unat (push_bit 6 (ucast c1 AND 0x3F) OR (ucast c2 AND 0x3F) :: u32) = unat c1 mod 64 * 64 + unat c2 mod 64"
    using m by (subst unat_push_or) (simp_all only: unat_dec, simp_all)
  then show ?thesis using m by (subst unat_push_or) (simp_all only: unat_dec, simp_all)
qed
lemma unat_dec4: "unat (push_bit 18 (ucast (c0::byte) AND 0x7) OR push_bit 12 (ucast c1 AND 0x3F) OR push_bit 6 (ucast c2 AND 0x3F) OR (ucast c3 AND 0x3F) :: u32) =
   unat c0 mod 8 * 262144 + (unat (c1::byte) mod 64 * 4096 + (unat (c2::byte) mod 64 * 64 + unat (c3::byte) mod 64))"
proof -
  have m: "unat c0 mod 8 < 8" "unat c1 mod 64 < 64" "unat c2 mod 64 < 64" "unat c3 mod 64 < 64" by simp_all
  have 1: "unat (push_bit 6 (ucast c2 AND 0x3F) OR (ucast c3 AND 0x3F) :: u32) = unat c2 mod 64 * 64 + unat c3 mod 64"
    using m by (subst unat_push_or) (simp_all only: unat_dec, simp_all)
  then have "unat (push_bit 12 (ucast c1 AND 0x3F) OR (push_bit 6 (ucast c2 AND 0x3F) OR (ucast c3 AND 0x3F)) :: u32) = unat c1 mod 64 * 4096 + (unat c2 mod 64 * 64 + unat c3 mod 64)"
    using m by (subst unat_push_or) (simp_all only: unat_dec, simp_all)
  then show ?thesis using m by (subst unat_push_or) (simp_all only: unat_dec, simp_all)
qed
lemma utf8_read_write: assumes "code_point (unat u)" 
  shows "utf8_read_char (utf8_write_char u @ r) = Some (u, length (utf8_write_char u))"
  using assms
proof (cases u rule: utf8_cases)
  case 1 then show ?thesis by (simp add: utf8_read_char_def word_le_nat_alt word_unat_eq_iff unat_ucast_byte)
next
  case (2 x y a b) 
  from 2 have "(push_bit 6 (ucast x AND 0x1F) OR (ucast y AND 0x3F) :: u32) = u"
    by (intro word_unat_eq_iff [THEN iffD2]) (simp only: unat_dec2, simp add: six_bit_digits)
  with 2 show ?thesis by (simp only: utf8_read_char_def) (simp add: word_le_nat_alt)
next
  case (3 x y z a b c) 
  from 3 have "(push_bit 12 (ucast x AND 0xF) OR push_bit 6 (ucast y AND 0x3F) OR (ucast z AND 0x3F) :: u32) = u"
    by (intro word_unat_eq_iff [THEN iffD2]) (simp only: unat_dec3, simp add: six_bit_digits)
  with 3 show ?thesis by (simp only: utf8_read_char_def) (simp add: word_le_nat_alt)
next
  case (4 x y z w a b c d) 
  from 4 have "(push_bit 18 (ucast x AND 0x7) OR push_bit 12 (ucast y AND 0x3F) OR push_bit 6 (ucast z AND 0x3F) OR (ucast w AND 0x3F) :: u32) = u"
    by (intro word_unat_eq_iff [THEN iffD2]) (simp only: unat_dec4, simp add: six_bit_digits)
  with 4 show ?thesis by (simp only: utf8_read_char_def) (simp add: word_le_nat_alt)
qed

section \<open>Only encodings of code points are valid\<close>

lemma utf8_nats_inj: assumes "u \<le> 0x10FFFF" "utf8_nats (unat u) = map unat bs" shows "utf8_write_char u = bs"
proof -
  have "map unat (utf8_write_char u) = map unat bs" using utf8_write_nat assms by simp
  moreover have "inj (unat :: byte \<Rightarrow> nat)" by (rule injI) (simp add: word_unat_eq_iff)
  ultimately show ?thesis by simp
qed

lemma code_point_word: "code_point n \<Longrightarrow> \<exists>u :: u32. unat u = n"
  by (rule exI [of _ "word_of_nat n"]) (simp add: code_point_def unsigned_of_nat take_bit_nat_eq_self_iff)

lemma utf8_nats_sound:
  assumes "code_point n" "map unat bs = utf8_nats n"
  shows "\<exists>u. bs = utf8_write_char u \<and> code_point (unat u)"
proof -
  from code_point_word [OF assms(1)] obtain u :: u32 where u: "unat u = n" by blast
  with assms have "u \<le> 0x10FFFF" by (simp add: code_point_def word_le_nat_alt)
  with u assms show ?thesis using utf8_nats_inj [of u bs] by (intro exI [of _ u]) simp
qed

lemma cont_obtain: assumes "unat (c::byte) div 64 = 2" obtains k where "unat c = 128 + k" "k < 64"
proof
  show "unat c = 128 + unat c mod 64" using assms div_mult_mod_eq [of "unat c" 64] by simp
qed simp

lemma utf8_sound2: fixes x y :: byte
  assumes "0xC2 \<le> unat x" "unat x \<le> 0xDF" "unat y div 64 = 2"
  shows "\<exists>u. [x, y] = utf8_write_char u \<and> code_point (unat u)"
proof -
  from assms(3) obtain b where b: "unat y = 128 + b" "b < 64" by (rule cont_obtain)
  define a where "a = unat x - 0xC0"
  have a: "unat x = 0xC0 + a" "2 \<le> a" "a < 32" using assms(1,2) by (simp_all add: a_def)
  show ?thesis
    using a b by (intro utf8_nats_sound [of "a * 64 + b"]) (auto simp: code_point_def utf8_nats_def)
qed

lemma utf8_sound3: fixes x y z :: byte
  assumes "0xE0 \<le> unat x" "unat x \<le> 0xEF" "unat y div 64 = 2" "unat z div 64 = 2"
    "unat x = 0xE0 \<longrightarrow> \<not> unat y < 0xA0" "unat x = 0xED \<longrightarrow> \<not> unat y > 0x9F"
  shows "\<exists>u. [x, y, z] = utf8_write_char u \<and> code_point (unat u)"
proof -
  from assms(3) obtain b where b: "unat y = 128 + b" "b < 64" by (rule cont_obtain)
  from assms(4) obtain c where c: "unat z = 128 + c" "c < 64" by (rule cont_obtain)
  define a where "a = unat x - 0xE0"
  have a: "unat x = 0xE0 + a" "a < 16" "a = 0 \<longrightarrow> 32 \<le> b" "a = 13 \<longrightarrow> b < 32"
    using assms(1,2,5,6) b by (auto simp add: a_def)
  let ?n = "a * 4096 + (b * 64 + c)"
  have "?n = c + (a * 64 + b) * 64" by simp
  then have "?n mod 64 = c" using c by (simp only: mod_mult_self1) simp
  moreover have "?n div 64 = a * 64 + b" "?n div 4096 = a" using b c by simp_all
  ultimately have d: "?n div 64 = a * 64 + b" "?n mod 64 = c" "?n div 4096 = a" by simp_all
  have "?n \<le> 0xFFFF" using a(2) b(2) c(2) by linarith
  moreover have "0x7FF < ?n" using a(3) by (cases "a = 0") simp_all
  moreover have "\<not> (0xD800 \<le> ?n \<and> ?n \<le> 0xDFFF)"
  proof (cases "a = 13")
    case True
    then have "b < 32" using a(4) by simp
    with True c(2) show ?thesis by linarith
  next
    case False
    then consider "a \<le> 12" | "14 \<le> a" by linarith
    then show ?thesis using b(2) c(2) by cases linarith+
  qed
  ultimately have "code_point ?n" "0x7FF < ?n" "?n \<le> 0xFFFF" unfolding code_point_def by simp_all
  then show ?thesis
    using a b c d by (intro utf8_nats_sound [of ?n]) (simp_all only: utf8_nats_def, auto)
qed

lemma utf8_sound4: fixes x y z w :: byte
  assumes "0xF0 \<le> unat x" "unat x \<le> 0xF4" "unat y div 64 = 2" "unat z div 64 = 2" "unat w div 64 = 2"
    "unat x = 0xF0 \<longrightarrow> \<not> unat y < 0x90" "unat x = 0xF4 \<longrightarrow> \<not> unat y > 0x8F"
  shows "\<exists>u. [x, y, z, w] = utf8_write_char u \<and> code_point (unat u)"
proof -
  from assms(3) obtain b where b: "unat y = 128 + b" "b < 64" by (rule cont_obtain)
  from assms(4) obtain c where c: "unat z = 128 + c" "c < 64" by (rule cont_obtain)
  from assms(5) obtain d where d: "unat w = 128 + d" "d < 64" by (rule cont_obtain)
  define a where "a = unat x - 0xF0"
  have a: "unat x = 0xF0 + a" "a < 5" "a = 0 \<longrightarrow> 16 \<le> b" "a = 4 \<longrightarrow> b < 16"
    using assms(1,2,6,7) b by (auto simp add: a_def)
  let ?n = "a * 262144 + (b * 4096 + (c * 64 + d))"
  have "?n = d + (a * 4096 + b * 64 + c) * 64" by simp
  then have e0: "?n mod 64 = d" using d by (simp only: mod_mult_self1) simp
  have e: "?n div 64 = a * 4096 + (b * 64 + c)" "?n div 4096 = a * 64 + b" "?n div 262144 = a" using b c d by simp_all
  have "a * 4096 + (b * 64 + c) = c + (a * 64 + b) * 64" by simp
  then have f: "(a * 4096 + (b * 64 + c)) mod 64 = c" using c by (simp only: mod_mult_self1) simp
  have "code_point ?n" "0xFFFF < ?n" "?n \<le> 0x10FFFF" using a b c d unfolding code_point_def by linarith+
  then show ?thesis
    using a b c d e e0 f by (intro utf8_nats_sound [of ?n]) (simp_all only: utf8_nats_def, auto)
qed

lemma utf8_validate_sound:
  assumes "utf8_validate_cz s = Some n" "n \<noteq> 0"
  shows "\<exists>u r. s = utf8_write_char u @ r \<and> code_point (unat u) \<and> n = length (utf8_write_char u)"
proof -
  from assms obtain x s1 where s: "s = x # s1" by (cases s) (auto simp: utf8_validate_cz_def)
  have "\<exists>bs r u. s = bs @ r \<and> n = length bs \<and> bs = utf8_write_char u \<and> code_point (unat u)"
  proof -
    consider "unat x \<le> 0x7F" | "0xC2 \<le> unat x" "unat x \<le> 0xDF" | "0xE0 \<le> unat x" "unat x \<le> 0xEF"
      | "0xF0 \<le> unat x" "unat x \<le> 0xF4"
      using assms s by (auto simp: utf8_validate_cz_def word_le_nat_alt split: if_splits)
    then show ?thesis
    proof cases
      case 1
      have "\<exists>u. [x] = utf8_write_char u \<and> code_point (unat u)"
        using 1 by (intro utf8_nats_sound [of "unat x"]) (auto simp: code_point_def utf8_nats_def)
      with 1 assms s show ?thesis
        by (intro exI [of _ "[x]"] exI [of _ s1]) (auto simp: utf8_validate_cz_def word_le_nat_alt)
    next
      case 2
      with assms s obtain y s2 where y: "s1 = y # s2" "unat y div 64 = 2" "n = 2"
        by (auto simp: utf8_validate_cz_def word_le_nat_alt byte_cont_iff bind_eq_Some_conv c_simps split: if_splits)
      from utf8_sound2 [OF 2 y(2)] y s show ?thesis 
        by (intro exI [of _ "[x, y]"] exI [of _ s2]) auto
    next
      case 3
      with assms s obtain y z s2 where y: "s1 = y # z # s2" "unat y div 64 = 2" "unat z div 64 = 2" "n = 3"
        "unat x = 0xE0 \<longrightarrow> \<not> unat y < 0xA0" "unat x = 0xED \<longrightarrow> \<not> unat y > 0x9F"
        by (auto simp: utf8_validate_cz_def word_le_nat_alt word_less_nat_alt byte_cont_iff bind_eq_Some_conv c_simps unat_lead Let_def split: if_splits)
      from utf8_sound3 [OF 3 y(2,3,5,6)] y s show ?thesis 
        by (intro exI [of _ "[x, y, z]"] exI [of _ s2]) auto
    next
      case 4
      with assms s obtain y z w s2 where y: "s1 = y # z # w # s2" "unat y div 64 = 2" "unat z div 64 = 2" "unat w div 64 = 2" "n = 4"
        "unat x = 0xF0 \<longrightarrow> \<not> unat y < 0x90" "unat x = 0xF4 \<longrightarrow> \<not> unat y > 0x8F"
        by (auto simp: utf8_validate_cz_def word_le_nat_alt word_less_nat_alt byte_cont_iff bind_eq_Some_conv c_simps unat_lead Let_def split: if_splits)
      from utf8_sound4 [OF 4 y(2,3,4,6,7)] y s show ?thesis 
        by (intro exI [of _ "[x, y, z, w]"] exI [of _ s2]) auto
    qed
  qed
  then show ?thesis by blast
qed

section \<open>Surrogate pairs\<close>

lemma nat_or_surrogate:
  "y < 1024 \<Longrightarrow> y OR 0xD800 = 0xD800 + (y::nat)" "y < 1024 \<Longrightarrow> y OR 0xDC00 = 0xDC00 + (y::nat)"
  using nat_or_add [of y 10 54] nat_or_add [of y 10 55] by (simp_all add: or.commute)

lemma surrogate_nat:
  assumes "unat (n::u32) < 2 ^ 20"
  shows "unat (ucast (drop_bit 10 n AND 0x3FF OR 0xD800) :: u16) = 0xD800 + unat n div 1024"
    and "unat (ucast (n AND 0x3FF OR 0xDC00) :: u16) = 0xDC00 + unat n mod 1024"
proof -
  have "unat n div 1024 < 1024" using assms by (simp add: less_mult_imp_div_less)
  then show "unat (ucast (drop_bit 10 n AND 0x3FF OR 0xD800) :: u16) = 0xD800 + unat n div 1024"
    by (simp add: unat_bits nat_or_surrogate)
  have "unat n mod 1024 < 1024" by simp
  then show "unat (ucast (n AND 0x3FF OR 0xDC00) :: u16) = 0xDC00 + unat n mod 1024"
    by (simp add: unat_bits nat_or_surrogate)
qed

lemma surrogate_decode:
  assumes "unat (uc::u16) = 0xD800 + a" "a < 1024" "unat (lc::u16) = 0xDC00 + b" "b < 1024"
  shows "unat (push_bit 10 (ucast uc AND 0x3FF) OR ucast (lc AND 0x3FF) :: u32) = a * 1024 + b"
proof -
  have m: "(0xD800 + a) mod 1024 = a" "(0xDC00 + b) mod 1024 = b"
    using mod_mult_self3 [of 54 1024 a] mod_mult_self3 [of 55 1024 b] assms(2,4) by simp_all
  have "unat (ucast uc :: u32) = unat uc"
  proof -
    have "unat uc < 65536" using unsigned_less [of uc] by simp
    then show ?thesis by (simp add: unsigned_ucast_eq take_bit_nat_eq_self_iff)
  qed
  then have a: "unat (ucast uc AND 0x3FF :: u32) = a"
    unfolding unsigned_and_eq using m assms by (simp add: nat_and_masks)
  have "unat (lc AND 0x3FF) = b"
    unfolding unsigned_and_eq using m assms by (simp add: nat_and_masks)
  then have "unat (ucast (lc AND 0x3FF) :: u32) = b"
    using assms by (simp add: unsigned_ucast_eq take_bit_nat_eq_self_iff)
  with a show ?thesis using assms by (subst unat_push_or) simp_all
qed

lemma from_to_surrogate: assumes "0x10000 \<le> unat u" "unat u \<le> 0x10FFFF"
  shows "case to_surrogate_pair u of (uc, lc) \<Rightarrow> from_surrogate_pair uc lc = Some u"
proof -
  define n where "n = u - 0x10000"
  have n: "unat n = unat u - 0x10000" using assms by (simp add: n_def unat_sub word_le_nat_alt)
  then have n20: "unat n < 2 ^ 20" using assms by simp
  note s = surrogate_nat [OF n20]
  define uc :: u16 where "uc = ucast (drop_bit 10 n AND 0x3FF OR 0xD800)"
  define lc :: u16 where "lc = ucast (n AND 0x3FF OR 0xDC00)"
  have q: "unat n div 1024 < 1024" "unat n mod 1024 < 1024"
    using n20 by (simp_all add: less_mult_imp_div_less)
  have p: "to_surrogate_pair u = (uc, lc)"
    by (simp only: to_surrogate_pair_def Let_def uc_def lc_def n_def)
  have v: "unat uc = 0xD800 + unat n div 1024" "unat lc = 0xDC00 + unat n mod 1024"
    using s by (simp_all only: uc_def lc_def)
  have "unat (push_bit 10 (ucast uc AND 0x3FF) OR ucast (lc AND 0x3FF) :: u32) = unat n"
    using surrogate_decode [OF v(1) q(1) v(2) q(2)] by (simp del: unsigned_numeral)
  then have "push_bit 10 (ucast uc AND 0x3FF) OR ucast (lc AND 0x3FF) = n"
    by (simp only: word_unat_eq_iff)
  moreover have "0x10000 + n = u" by (simp add: n_def)
  moreover have "uc \<ge> 0xD800" "uc \<le> 0xDBFF" "lc \<ge> 0xDC00" "lc \<le> 0xDFFF"
    using v q by (simp_all add: word_le_nat_alt)
  ultimately show ?thesis by (simp only: p from_surrogate_pair_def prod.case) simp
qed

lemma from_surrogate_range:
  assumes "from_surrogate_pair uc lc = Some u"
  shows "0x10000 \<le> unat u \<and> unat u \<le> 0x10FFFF"
proof -
  from assms have r: "uc \<ge> 0xD800" "uc \<le> 0xDBFF" "lc \<ge> 0xDC00" "lc \<le> 0xDFFF"
    and u: "u = 0x10000 + (push_bit 10 (ucast uc AND 0x3FF) OR ucast (lc AND 0x3FF))"
    by (auto simp: from_surrogate_pair_def split: if_splits)
  define a b where "a = unat uc - 0xD800" and "b = unat lc - 0xDC00"
  have d: "unat uc = 0xD800 + a" "a < 1024" "unat lc = 0xDC00 + b" "b < 1024"
    using r by (simp_all add: a_def b_def word_le_nat_alt)
  have "unat u = 0x10000 + (a * 1024 + b)"
    unfolding u unat_word_ariths surrogate_decode [OF d] using d by simp
  with d show ?thesis by simp
qed

section \<open>Whole strings\<close>

text \<open>The specification of a valid text: a concatenation of encodings of non-zero code points.\<close>

definition valid_utf8 :: "byte list \<Rightarrow> bool" where
  "valid_utf8 s \<longleftrightarrow> (\<exists>us. s = concat (map utf8_write_char us) \<and> (\<forall>u \<in> set us. code_point (unat u) \<and> u \<noteq> 0))"

lemma utf8_write_nul_free: assumes "code_point (unat u)" "u \<noteq> 0" shows "nul_free (utf8_write_char u)"
  using assms(1)
proof (cases u rule: utf8_cases)
  case 1 then show ?thesis using assms(2) by (auto simp: word_unat_eq_iff)
qed (auto simp: word_unat_eq_iff)

lemma utf8_write_nonempty: "utf8_write_char u \<noteq> []"
  by (simp add: utf8_write_char_def)

lemma utf8_validate_cz_terminated: "0 \<in> set s \<Longrightarrow> \<exists>n. utf8_validate_cz s = Some n"
proof (cases s)
  case (Cons c s1)
  assume z: "0 \<in> set s"
  show ?thesis
  proof (cases "c = 0")
    case False
    with z Cons obtain c1 s2 where s1: "s1 = c1 # s2" "c1 \<noteq> 0 \<longrightarrow> 0 \<in> set s2" by (cases s1) auto
    show ?thesis
    proof (cases "c1 AND 0xC0 = 0x80")
      case True
      then have "c1 \<noteq> 0" by auto
      with s1 obtain c2 s3 where s2': "s2 = c2 # s3" "0 \<in> set (c2 # s3)" by (cases s2) auto
      show ?thesis
      proof (cases "c2 AND 0xC0 = 0x80")
        case c2: True
        then have "c2 \<noteq> 0" by auto
        with s2' obtain c3 s4 where "s3 = c3 # s4" by (cases s3) auto
        then show ?thesis unfolding Cons s1 s2' by (simp add: utf8_validate_cz_def Let_def)
      next
        case c2: False
        then show ?thesis unfolding Cons s1 s2' by (simp add: utf8_validate_cz_def Let_def)
      qed
    next
      case c1: False
      then show ?thesis unfolding Cons s1 by (simp add: utf8_validate_cz_def Let_def)
    qed
  qed (simp add: Cons utf8_validate_cz_def)
qed simp

lemma utf8_write_zero: "utf8_write_char 0 = [0]"
  by (simp add: utf8_write_char_def)

lemma nul_free_prefix:
  assumes "nul_free w" "s @ 0 # t = w @ r" shows "\<exists>s'. s = w @ s' \<and> r = s' @ 0 # t"
  using assms by (auto simp: append_eq_append_conv2 Cons_eq_append_conv nul_free_def)

lemma utf8_validate_cz_text:
  assumes "nul_free s" "s \<noteq> []"
  shows "\<exists>n. utf8_validate_cz (s @ 0 # t) = Some n \<and>
    (n \<noteq> 0 \<longrightarrow> (\<exists>u s'. s = utf8_write_char u @ s' \<and> code_point (unat u) \<and> u \<noteq> 0 \<and> n = length (utf8_write_char u)))"
proof -
  obtain n where n: "utf8_validate_cz (s @ 0 # t) = Some n"
    using utf8_validate_cz_terminated [of "s @ 0 # t"] by auto
  moreover have "\<exists>u s'. s = utf8_write_char u @ s' \<and> code_point (unat u) \<and> u \<noteq> 0 \<and> n = length (utf8_write_char u)" if n0: "n \<noteq> 0"
  proof -
    from utf8_validate_sound [OF n n0] obtain u r where
      u: "s @ 0 # t = utf8_write_char u @ r" "code_point (unat u)" "n = length (utf8_write_char u)" by blast
    have "u \<noteq> 0" using u(1) assms by (cases s) (auto simp: utf8_write_zero)
    with nul_free_prefix [OF utf8_write_nul_free u(1)] u show ?thesis by blast
  qed
  ultimately show ?thesis by blast
qed

lemma valid_utf8_simps:
  "valid_utf8 []"
  "code_point (unat u) \<Longrightarrow> u \<noteq> 0 \<Longrightarrow> valid_utf8 (utf8_write_char u @ s) \<longleftrightarrow> valid_utf8 s"
proof -
  show "valid_utf8 []" by (auto simp: valid_utf8_def intro!: exI [of _ "[]"])
  assume u: "code_point (unat u)" "u \<noteq> 0"
  show "valid_utf8 (utf8_write_char u @ s) \<longleftrightarrow> valid_utf8 s"
  proof
    assume "valid_utf8 s"
    then obtain us where "s = concat (map utf8_write_char us)" "\<forall>u \<in> set us. code_point (unat u) \<and> u \<noteq> 0"
      by (auto simp: valid_utf8_def)
    with u show "valid_utf8 (utf8_write_char u @ s)"
      unfolding valid_utf8_def by (intro exI [of _ "u # us"]) auto
  next
    assume "valid_utf8 (utf8_write_char u @ s)"
    then obtain us where us: "utf8_write_char u @ s = concat (map utf8_write_char us)" "\<forall>u \<in> set us. code_point (unat u) \<and> u \<noteq> 0"
      by (auto simp: valid_utf8_def)
    then obtain v vs where v: "us = v # vs" using utf8_write_nonempty [of u] by (cases us) auto
    then have "utf8_write_char u @ s = utf8_write_char v @ concat (map utf8_write_char vs)" using us by simp
    moreover from this have "u = v"
      using utf8_read_write [OF u(1), of s] utf8_read_write [of v "concat (map utf8_write_char vs)"] us v by simp
    ultimately show "valid_utf8 s" using us v by (auto simp: valid_utf8_def)
  qed
qed

lemma utf8_validate_iff: "nul_free s \<Longrightarrow> utf8_validate (s @ 0 # t) = Some (valid_utf8 s)"
proof (induction s rule: length_induct)
  case (1 s)
  show ?case
  proof (cases "s = []")
    case True then show ?thesis by (subst utf8_validate.simps) (simp add: valid_utf8_simps)
  next
    case False
    then obtain c s1 where c: "s = c # s1" "c \<noteq> 0" using "1.prems" by (cases s) auto
    from utf8_validate_cz_text [OF "1.prems" False, of t] obtain n where
      n: "utf8_validate_cz (s @ 0 # t) = Some n" and
      p: "n \<noteq> 0 \<longrightarrow> (\<exists>u s'. s = utf8_write_char u @ s' \<and> code_point (unat u) \<and> u \<noteq> 0 \<and> n = length (utf8_write_char u))" by blast
    have step: "utf8_validate (s @ 0 # t) = (if n = 0 then Some False else utf8_validate (drop n (s @ 0 # t)))"
      using c n by (subst utf8_validate.simps) simp
    show ?thesis
    proof (cases "n = 0")
      case True
      have "\<not> valid_utf8 s"
      proof
        assume "valid_utf8 s"
        then obtain us where us: "s = concat (map utf8_write_char us)" "\<forall>u \<in> set us. code_point (unat u)" by (auto simp: valid_utf8_def)
        then obtain v vs where "us = v # vs" using False by (cases us) auto
        with us n True utf8_validate_write [of v "concat (map utf8_write_char vs) @ 0 # t"] utf8_write_nonempty [of v] show False by simp
      qed
      with True step show ?thesis by simp
    next
      case n0: False
      then obtain u s' where u: "s = utf8_write_char u @ s'" "code_point (unat u)" "u \<noteq> 0" "n = length (utf8_write_char u)" using p by blast
      have "length s' < length s" using u(1) utf8_write_nonempty [of u] by simp
      moreover have "nul_free s'" using u(1) "1.prems" by simp
      ultimately have "utf8_validate (s' @ 0 # t) = Some (valid_utf8 s')" using "1.IH" by blast
      with step n0 u show ?thesis by (simp add: valid_utf8_simps)
    qed
  qed
qed

section \<open>Properties\<close>

text \<open>Encoding a code point and then validating and decoding the bytes, whatever follows them,
  accepts them with their exact length and gives the code point back.\<close>

lemma utf8_char_roundtrip:
  assumes "code_point (unat u)"
  shows "utf8_validate_cz (utf8_write_char u @ r) = Some (length (utf8_write_char u)) \<and>
    utf8_read_char (utf8_write_char u @ r) = Some (u, length (utf8_write_char u))"
  using utf8_validate_write [OF assms] utf8_read_write [OF assms] by simp


text \<open>C24: the validator decides exactly the strings that are concatenations of encodings of
  code points, and stops at the terminator: it never reads past it.\<close>

theorem utf8_validate_decides:
  assumes "nul_free s"
  shows "utf8_validate (s @ 0 # t) = Some (valid_utf8 s)"
  using assms by (rule utf8_validate_iff)

theorem utf8_validate_decides_witness:
  "utf8_validate ([0xC3, 0xA9] @ 0 # [0xFF]) = Some (valid_utf8 [0xC3, 0xA9])"
  by (rule utf8_validate_decides) simp

text \<open>A code point outside the basic plane survives the passage through a UTF-16 surrogate
  pair.\<close>

lemma surrogate_roundtrip:
  assumes "0x10000 \<le> unat u" "unat u \<le> 0x10FFFF"
  shows "(case to_surrogate_pair u of (uc, lc) \<Rightarrow> from_surrogate_pair uc lc) = Some u"
  using from_to_surrogate [OF assms] by (simp split: prod.splits)

end
