(* ===== verification/Double.thy ===== *)
theory Double
  imports Complex_Main Prelude
begin

text \<open>
  The C type \<open>double\<close> of the platform: IEEE 754 binary64 with round-to-nearest-even. A finite
  number is a sign, a significand and a binary exponent; every operation computes the exact
  rational result and rounds it once. Only what the sources use is here: conversion from
  integers, multiplication, division and the conversion to \<open>int\<close>.
\<close>

section \<open>Representation\<close>

datatype double = Fin bool nat int | Inf bool | NaN

text \<open>Finite numbers are kept in canonical form: the significand has 53 bits unless the exponent
  is the least one.\<close>

fun dbl_ok :: "double \<Rightarrow> bool" where
  "dbl_ok (Fin s m e) \<longleftrightarrow>
     m < 2 ^ 53 \<and> - 1074 \<le> e \<and> e \<le> 971 \<and> (2 ^ 52 \<le> m \<or> e = - 1074)"
| "dbl_ok (Inf s) \<longleftrightarrow> True"
| "dbl_ok NaN \<longleftrightarrow> True"

fun dbl_val :: "double \<Rightarrow> real" where
  "dbl_val (Fin s m e) = (if s then -1 else 1) * (real m * 2 powi e)"
| "dbl_val (Inf s) = 0"
| "dbl_val NaN = 0"

section \<open>Rounding a ratio\<close>

fun ilog2 :: "nat \<Rightarrow> nat" where
  "ilog2 n = (if n < 2 then 0 else Suc (ilog2 (n div 2)))"

declare ilog2.simps [simp del]

text \<open>The exact ratio \<open>p / q\<close> scaled by \<open>2 ^ (- e)\<close>, as a ratio.\<close>

definition scale :: "nat \<Rightarrow> nat \<Rightarrow> int \<Rightarrow> nat \<times> nat" where
  "scale p q e = (if e \<ge> 0 then (p, q * 2 ^ nat e) else (p * 2 ^ nat (- e), q))"

text \<open>The binary exponent of \<open>p / q\<close>: the greatest \<open>l\<close> with \<open>2 ^ l \<le> p / q\<close>.\<close>

definition ratio_log2 :: "nat \<Rightarrow> nat \<Rightarrow> int" where
  "ratio_log2 p q =
    (let l = int (ilog2 p) - int (ilog2 q); (a, b) = scale p q l
     in if a < b then l - 1 else l)"

text \<open>Nearest integer to \<open>p / q\<close>, ties to even.\<close>

definition round_half_even :: "nat \<Rightarrow> nat \<Rightarrow> nat" where
  "round_half_even p q =
    (let m = p div q; r = p mod q
     in if 2 * r > q \<or> (2 * r = q \<and> odd m) then m + 1 else m)"

definition round_ratio :: "bool \<Rightarrow> nat \<Rightarrow> nat \<Rightarrow> double" where
  "round_ratio s p q =
    (if p = 0 then Fin s 0 (- 1074)
     else
       let e = max (ratio_log2 p q - 52) (- 1074);
           (a, b) = scale p q e;
           m = round_half_even a b;
           (m, e) = (if m = 2 ^ 53 then (2 ^ 52, e + 1) else (m, e))
       in if e > 971 then Inf s else Fin s m e)"

section \<open>Conversions and arithmetic\<close>

definition dbl_of_nat :: "nat \<Rightarrow> double" where
  "dbl_of_nat n = round_ratio False n 1"

definition dbl_of_int :: "int \<Rightarrow> double" where
  "dbl_of_int i = round_ratio (i < 0) (nat \<bar>i\<bar>) 1"

definition ratio_of :: "nat \<Rightarrow> int \<Rightarrow> nat \<times> nat" where
  "ratio_of m e = (if e \<ge> 0 then (m * 2 ^ nat e, 1) else (m, 2 ^ nat (- e)))"

fun dbl_mult :: "double \<Rightarrow> double \<Rightarrow> double" where
  "dbl_mult NaN _ = NaN"
| "dbl_mult _ NaN = NaN"
| "dbl_mult (Inf s) (Inf t) = Inf (s \<noteq> t)"
| "dbl_mult (Inf s) (Fin t m e) = (if m = 0 then NaN else Inf (s \<noteq> t))"
| "dbl_mult (Fin s m e) (Inf t) = (if m = 0 then NaN else Inf (s \<noteq> t))"
| "dbl_mult (Fin s m e) (Fin t n f) =
    (let (p, q) = ratio_of (m * n) (e + f) in round_ratio (s \<noteq> t) p q)"

fun dbl_div :: "double \<Rightarrow> double \<Rightarrow> double" where
  "dbl_div NaN _ = NaN"
| "dbl_div _ NaN = NaN"
| "dbl_div (Inf s) (Inf t) = NaN"
| "dbl_div (Inf s) (Fin t n f) = Inf (s \<noteq> t)"
| "dbl_div (Fin s m e) (Inf t) = Fin (s \<noteq> t) 0 (- 1074)"
| "dbl_div (Fin s m e) (Fin t n f) =
    (if n = 0 then (if m = 0 then NaN else Inf (s \<noteq> t))
     else let (p, q) = ratio_of m (e - f) in round_ratio (s \<noteq> t) p (q * n))"

text \<open>Conversion to a 32-bit \<open>int\<close> truncates towards zero; it is undefined when the truncated
  value is not representable, and on infinities and NaN.\<close>

fun dbl_to_int :: "double \<Rightarrow> int option" where
  "dbl_to_int (Fin s m e) =
    (let (p, q) = ratio_of m e; t = int (p div q); i = (if s then - t else t)
     in if - (2 ^ 31) \<le> i \<and> i < 2 ^ 31 then Some i else None)"
| "dbl_to_int (Inf s) = None"
| "dbl_to_int NaN = None"

text \<open>Evaluation on numerals.\<close>

lemmas dbl_eval = dbl_of_nat_def dbl_of_int_def round_ratio_def ratio_log2_def ilog2.simps scale_def
  round_half_even_def ratio_of_def

section \<open>Correct rounding\<close>

lemma ilog2_bounds: "n > 0 \<Longrightarrow> 2 ^ ilog2 n \<le> n \<and> n < 2 ^ Suc (ilog2 n)"
proof (induction n rule: ilog2.induct)
  case (1 n)
  show ?case
  proof (cases "n < 2")
    case True
    with 1 have "n = 1" by simp
    then show ?thesis by (simp add: ilog2.simps)
  next
    case False
    then have "2 ^ ilog2 (n div 2) \<le> n div 2 \<and> n div 2 < 2 ^ Suc (ilog2 (n div 2))"
      using 1 by simp
    with False show ?thesis by (subst (1 2) ilog2.simps) auto
  qed
qed

lemma scale_ratio:
  assumes "scale p q e = (a, b)" "q > 0"
  shows "b > 0" "real a / real b = real p / real q * 2 powi (- e)"
  using assms by (auto simp: scale_def power_int_def field_simps split: if_splits)

lemma pow2_real: assumes "n > 0" shows "2 ^ ilog2 n \<le> real n \<and> real n < 2 * 2 ^ ilog2 n"
proof -
  have "real (2 ^ ilog2 n) \<le> real n" "real n < real (2 ^ Suc (ilog2 n))"
    using ilog2_bounds [OF assms] by (simp_all only: of_nat_le_iff of_nat_less_iff)
  then show ?thesis by simp
qed

lemma shift_less: "x * 2 powi (- e) < 1 \<longleftrightarrow> x < (2::real) powi e"
  by (simp add: power_int_minus divide_simps)

lemma ratio_log2_bounds:
  assumes "p > 0" "q > 0"
  shows "2 powi (ratio_log2 p q) \<le> real p / real q" "real p / real q < 2 powi (ratio_log2 p q + 1)"
proof -
  let ?l = "int (ilog2 p) - int (ilog2 q)" and ?x = "real p / real q"
  obtain a b where ab: "scale p q ?l = (a, b)" by fastforce
  note s = scale_ratio [OF ab assms(2)]
  have lp: "2 ^ ilog2 p \<le> real p" "real p < 2 * 2 ^ ilog2 p"
    and lq: "2 ^ ilog2 q \<le> real q" "real q < 2 * 2 ^ ilog2 q"
    using pow2_real [OF assms(1)] pow2_real [OF assms(2)] by auto
  have pw: "(2::real) powi ?l = 2 ^ ilog2 p / 2 ^ ilog2 q"
    by (simp add: power_int_diff)
  have "?x < (2 * 2 ^ ilog2 p) / 2 ^ ilog2 q"
    using lp lq assms by (intro frac_less) auto
  then have hi: "?x < 2 * 2 powi ?l" by (simp add: pw)
  have "2 ^ ilog2 p / (2 * 2 ^ ilog2 q) < ?x"
    using lp lq assms by (intro frac_less2) auto
  then have lo: "2 powi ?l / 2 < ?x" by (simp add: pw)
  have c: "a < b \<longleftrightarrow> ?x < 2 powi ?l"
    using s(1) shift_less [of ?x ?l] unfolding s(2) [symmetric] by simp
  have p1: "(2::real) powi (?l + 1) = 2 * 2 powi ?l" "(2::real) powi (?l - 1) = 2 powi ?l / 2"
    by (simp_all add: power_int_add power_int_diff)
  show "2 powi (ratio_log2 p q) \<le> ?x" "?x < 2 powi (ratio_log2 p q + 1)"
  proof -
    have "ratio_log2 p q = (if a < b then ?l - 1 else ?l)" using ab by (simp add: ratio_log2_def Let_def)
    then consider "ratio_log2 p q = ?l - 1" "?x < 2 powi ?l" | "ratio_log2 p q = ?l" "\<not> ?x < 2 powi ?l"
      using c by (cases "a < b") simp_all
    then have "2 powi (ratio_log2 p q) \<le> ?x \<and> ?x < 2 powi (ratio_log2 p q + 1)"
    proof cases
      case k: 1
      have "2 powi (?l - 1) \<le> ?x" unfolding p1(2) using lo by linarith
      with k show ?thesis by simp
    next
      case k: 2
      have "?x < 2 powi (?l + 1)" unfolding p1(1) using hi by linarith
      with k show ?thesis by simp
    qed
    then show "2 powi (ratio_log2 p q) \<le> ?x" "?x < 2 powi (ratio_log2 p q + 1)" by simp_all
  qed
qed

lemma round_half_even_error:
  assumes "q > 0"
  shows "\<bar>real (round_half_even p q) - real p / real q\<bar> \<le> 1 / 2"
proof -
  let ?m = "p div q" and ?r = "p mod q"
  have "p = ?m * q + ?r" by simp
  then have "real p = real ?m * real q + real ?r" by (metis of_nat_add of_nat_mult)
  then have x: "real p / real q = real ?m + real ?r / real q" using assms by (simp add: field_simps)
  have r: "?r < q" using assms by simp
  show ?thesis
  proof (cases "2 * ?r > q \<or> (2 * ?r = q \<and> odd ?m)")
    case True
    then have "q \<le> 2 * ?r" by auto
    then have "1 / 2 \<le> real ?r / real q" using assms by (simp add: field_simps flip: of_nat_mult)
    moreover have "real ?r / real q \<le> 1" using r assms by simp
    ultimately show ?thesis using True x by (auto simp: round_half_even_def Let_def)
  next
    case False
    then have "2 * ?r \<le> q" by auto
    then have "real ?r / real q \<le> 1 / 2" using assms by (simp add: field_simps flip: of_nat_mult)
    moreover have "0 \<le> real ?r / real q" by simp
    ultimately show ?thesis using False x by (auto simp: round_half_even_def Let_def)
  qed
qed


lemma pow2_less: "(2::real) powi a < 2 powi b \<Longrightarrow> a < b"
  by (meson linorder_not_less one_le_numeral power_int_increasing)

lemma scale_shift:
  assumes "scale p q e = (a, b)" "q > 0"
  shows "real p / real q = real a / real b * 2 powi e"
  using scale_ratio [OF assms] by (simp add: power_int_minus)

definition ulp_exp :: "nat \<Rightarrow> nat \<Rightarrow> int" where
  "ulp_exp p q = max (ratio_log2 p q - 52) (- 1074)"

lemma round_ratio_core:
  assumes p: "p > 0" and q: "q > 0"
  shows "\<exists>m. m \<le> 2 ^ 53 \<and> (2 ^ 52 \<le> m \<or> ulp_exp p q = - 1074) \<and>
    round_ratio s p q = (if m = 2 ^ 53 then (if ulp_exp p q > 970 then Inf s else Fin s (2 ^ 52) (ulp_exp p q + 1))
       else if ulp_exp p q > 971 then Inf s else Fin s m (ulp_exp p q)) \<and>
    \<bar>real m * 2 powi ulp_exp p q - real p / real q\<bar> \<le> 2 powi ulp_exp p q / 2 \<and>
    m = (case scale p q (ulp_exp p q) of (a, b) \<Rightarrow> round_half_even a b)"
proof -
  let ?e = "ulp_exp p q" and ?x = "real p / real q" and ?l = "ratio_log2 p q"
  obtain a b where ab: "scale p q ?e = (a, b)" by fastforce
  define m where "m = round_half_even a b"
  let ?y = "real a / real b"
  note b = scale_ratio [OF ab q] and x = scale_shift [OF ab q]
  note l = ratio_log2_bounds [OF p q]
  have err: "\<bar>real m - ?y\<bar> \<le> 1 / 2" unfolding m_def using b(1) by (rule round_half_even_error)
  have e52: "?l + 1 \<le> ?e + 53" by (simp add: ulp_exp_def)
  have "?y * 2 powi ?e < 2 powi (?l + 1)" using l(2) x by simp
  also have "\<dots> \<le> 2 powi (?e + 53)" using e52 by (intro power_int_increasing) auto
  also have "\<dots> = 2 ^ 53 * 2 powi ?e" by (simp add: power_int_add)
  finally have y53: "?y < 2 ^ 53" by (rule mult_right_less_imp_less) simp
  then have "real m < 2 ^ 53 + 1" using err by linarith
  then have "real m < real (2 ^ 53 + 1)" by simp
  then have m53: "m \<le> 2 ^ 53" by (simp only: of_nat_less_iff)
  have m52: "2 ^ 52 \<le> m" if "?e \<noteq> - 1074"
  proof -
    have "?e + 52 = ?l" using that by (simp add: ulp_exp_def max_def split: if_splits)
    then have "2 powi (?e + 52) \<le> ?y * 2 powi ?e" using l(1) x by simp
    then have "2 ^ 52 * 2 powi ?e \<le> ?y * 2 powi ?e" by (simp add: power_int_add)
    then have "2 ^ 52 \<le> ?y" by (rule mult_right_le_imp_le) simp
    then have "2 ^ 52 < real m + 1" using err by linarith
    then have "real (2 ^ 52) < real (m + 1)" by simp
    then show ?thesis by (simp only: of_nat_less_iff)
  qed
  have "real m * 2 powi ?e - ?x = (real m - ?y) * 2 powi ?e" unfolding x by (simp add: algebra_simps)
  then have "\<bar>real m * 2 powi ?e - ?x\<bar> = \<bar>real m - ?y\<bar> * 2 powi ?e" by (simp add: abs_mult)
  also have "\<dots> \<le> 1 / 2 * 2 powi ?e" using err by (intro mult_right_mono) auto
  finally have er: "\<bar>real m * 2 powi ?e - ?x\<bar> \<le> 2 powi ?e / 2" by simp
  have r: "round_ratio s p q = (if m = 2 ^ 53 then (if ?e > 970 then Inf s else Fin s (2 ^ 52) (?e + 1))
       else if ?e > 971 then Inf s else Fin s m (?e))"
    using p ab unfolding round_ratio_def Let_def ulp_exp_def [symmetric] m_def by auto
  have "m = (case scale p q ?e of (a, b) \<Rightarrow> round_half_even a b)" using ab m_def by simp
  with m53 m52 r er show ?thesis by blast
qed

lemma dbl_val_carry: "dbl_val (Fin s (2 ^ 52) (e + 1)) = dbl_val (Fin s (2 ^ 53) e)"
  by (simp add: power_int_add)

lemma round_ratio_ok:
  assumes "q > 0" shows "dbl_ok (round_ratio s p q)"
proof (cases "p = 0")
  case True then show ?thesis by (simp add: round_ratio_def)
next
  case False
  then have p: "p > 0" by simp
  have e: "- 1074 \<le> ulp_exp p q" by (simp add: ulp_exp_def)
  obtain m where m: "m \<le> 2 ^ 53" "2 ^ 52 \<le> m \<or> ulp_exp p q = - 1074" and
    "round_ratio s p q = (if m = 2 ^ 53 then (if ulp_exp p q > 970 then Inf s else Fin s (2 ^ 52) (ulp_exp p q + 1))
       else if ulp_exp p q > 971 then Inf s else Fin s m (ulp_exp p q))"
    using round_ratio_core [OF p assms, of s] by blast
  with e show ?thesis by (cases "m = 2 ^ 53") simp_all
qed

lemma round_ratio_err:
  assumes "p > 0" "q > 0" "round_ratio s p q = Fin t m e"
  shows "t = s" "\<bar>real m * 2 powi e - real p / real q\<bar> \<le> 2 powi ulp_exp p q / 2"
proof -
  let ?e = "ulp_exp p q"
  from round_ratio_core [OF assms(1,2), of s] obtain k where k: 
    "round_ratio s p q = (if k = 2 ^ 53 then (if ?e > 970 then Inf s else Fin s (2 ^ 52) (?e + 1))
       else if ?e > 971 then Inf s else Fin s k (?e))"
    "\<bar>real k * 2 powi ?e - real p / real q\<bar> \<le> 2 powi ?e / 2" by blast
  show "t = s" using k(1) assms(3) by (auto split: if_splits)
  show "\<bar>real m * 2 powi e - real p / real q\<bar> \<le> 2 powi ?e / 2"
  proof (cases "k = 2 ^ 53")
    case True
    then have "m = 2 ^ 52" "e = ?e + 1" using k(1) assms(3) by (auto split: if_splits)
    then have "real m * 2 powi e = real k * 2 powi ?e" using True by (simp add: power_int_add)
    then show ?thesis using k(2) by simp
  next
    case False
    then have "m = k" "e = ?e" using k(1) assms(3) by (auto split: if_splits)
    then show ?thesis using k(2) by simp
  qed
qed

lemma round_ratio_rel_err:
  assumes "p > 0" "q > 0" "round_ratio s p q = Fin t m e" "2 powi (- 1022) \<le> real p / real q"
  shows "\<bar>real m * 2 powi e - real p / real q\<bar> \<le> real p / real q / 2 ^ 53"
proof -
  note l = ratio_log2_bounds [OF assms(1,2)]
  have "2 powi (- 1022) < (2::real) powi (ratio_log2 p q + 1)" using l(2) assms(4) by linarith
  then have "- 1022 \<le> ratio_log2 p q" using pow2_less by fastforce
  then have "ulp_exp p q = ratio_log2 p q - 52" by (simp add: ulp_exp_def)
  then have "2 powi ulp_exp p q / 2 = 2 powi ratio_log2 p q / (2::real) ^ 53"
    by (simp add: power_int_diff)
  also have "\<dots> \<le> real p / real q / 2 ^ 53" using l(1) by (intro divide_right_mono) auto
  finally show ?thesis using round_ratio_err [OF assms(1-3)] by linarith
qed

lemma round_ratio_finite:
  assumes "q > 0" "real p / real q < 2 powi 1023"
  shows "\<exists>m e. round_ratio s p q = Fin s m e"
proof (cases "p = 0")
  case True then show ?thesis by (simp add: round_ratio_def)
next
  case False
  then have p: "p > 0" by simp
  have "2 powi (ratio_log2 p q) < (2::real) powi 1023"
    using ratio_log2_bounds [OF p assms(1)] assms(2) by linarith
  then have "ratio_log2 p q < 1023" by (rule pow2_less)
  then have e: "ulp_exp p q \<le> 970" by (simp add: ulp_exp_def)
  obtain k where "round_ratio s p q = (if k = 2 ^ 53 then (if ulp_exp p q > 970 then Inf s else Fin s (2 ^ 52) (ulp_exp p q + 1))
       else if ulp_exp p q > 971 then Inf s else Fin s k (ulp_exp p q))"
    using round_ratio_core [OF p assms(1), of s] by blast
  with e show ?thesis by (auto split: if_splits)
qed


text \<open>Integers of at most 53 bits are represented exactly.\<close>

lemma round_half_even_exact: "q > 0 \<Longrightarrow> round_half_even (m * q) q = m"
  by (simp add: round_half_even_def)

lemma round_ratio_nat:
  assumes "0 < n" "n < 2 ^ 53"
  shows "round_ratio s n 1 = Fin s (n * 2 ^ (52 - ilog2 n)) (int (ilog2 n) - 52)"
proof -
  have b: "2 ^ ilog2 n \<le> n" "n < 2 ^ Suc (ilog2 n)" using ilog2_bounds [OF assms(1)] by simp_all
  have "(2::nat) ^ ilog2 n < 2 ^ 53" using b(1) assms(2) by linarith
  then have "ilog2 n < 53" by (rule power_less_imp_less_exp [rotated]) simp
  then have l: "ilog2 n \<le> 52" by simp
  have "ilog2 1 = 0" by (simp add: ilog2.simps)
  then have r: "ratio_log2 n 1 = int (ilog2 n)"
    using b(1) by (simp add: ratio_log2_def scale_def Let_def)
  define k where "k = 52 - ilog2 n"
  have e: "max (int (ilog2 n) - 52) (- 1074) = - int k" using l by (simp add: k_def)
  have sc: "scale n 1 (- int k) = (n * 2 ^ k, 1)" by (cases "k = 0") (simp_all add: scale_def)
  have "n * 2 ^ k < 2 ^ Suc (ilog2 n) * 2 ^ k" using b(2) by simp
  also have "\<dots> = 2 ^ 53" using l by (simp add: k_def flip: power_add power_Suc)
  finally have m: "n * 2 ^ k < 2 ^ 53" .
  have "round_ratio s n 1 = Fin s (n * 2 ^ k) (- int k)"
    using assms(1) m by (simp add: round_ratio_def r e sc round_half_even_def Let_def del: One_nat_def)
  moreover have "- int k = int (ilog2 n) - 52" using l by (simp add: k_def)
  ultimately show ?thesis by (simp add: k_def)
qed

lemma dbl_of_nat_val: "n < 2 ^ 53 \<Longrightarrow> dbl_val (dbl_of_nat n) = real n"
proof (cases "n = 0")
  case False
  assume n: "n < 2 ^ 53"
  have "(2::nat) ^ ilog2 n < 2 ^ 53" using ilog2_bounds [of n] False n by auto
  then have "ilog2 n < 53" by (rule power_less_imp_less_exp [rotated]) simp
  then have "ilog2 n \<le> 52" by simp
  then have "int (ilog2 n) - 52 = - int (52 - ilog2 n)" by simp
  then have "(2::real) powi (int (ilog2 n) - 52) = inverse (2 ^ (52 - ilog2 n))"
    by (simp only: power_int_minus power_int_of_nat)
  moreover have "dbl_of_nat n = Fin False (n * 2 ^ (52 - ilog2 n)) (int (ilog2 n) - 52)"
    unfolding dbl_of_nat_def using False n by (intro round_ratio_nat) simp_all
  ultimately show ?thesis by simp
qed (simp add: dbl_of_nat_def round_ratio_def)


section \<open>Products and quotients of finite numbers\<close>

lemma ratio_of_val:
  assumes "ratio_of m e = (p, q)"
  shows "q > 0" "real p / real q = real m * 2 powi e"
  using assms by (auto simp: ratio_of_def power_int_def field_simps split: if_splits)

lemma dbl_mult_fin:
  "\<exists>p q. q > 0 \<and> dbl_mult (Fin s m e) (Fin t n f) = round_ratio (s \<noteq> t) p q \<and>
     real p / real q = (real m * 2 powi e) * (real n * 2 powi f)"
proof -
  obtain p q where pq: "ratio_of (m * n) (e + f) = (p, q)" by fastforce
  then have "real p / real q = (real m * 2 powi e) * (real n * 2 powi f)"
    using ratio_of_val(2) [OF pq] by (simp add: power_int_add)
  then show ?thesis using pq ratio_of_val(1) [OF pq] by (intro exI [of _ p] exI [of _ q]) simp
qed

lemma dbl_div_fin:
  assumes "n \<noteq> 0"
  shows "\<exists>p q. q > 0 \<and> dbl_div (Fin s m e) (Fin t n f) = round_ratio (s \<noteq> t) p q \<and>
     real p / real q = (real m * 2 powi e) / (real n * 2 powi f)"
proof -
  obtain p q where pq: "ratio_of m (e - f) = (p, q)" by fastforce
  have "real p / real (q * n) = real p / real q / real n" by simp
  then have "real p / real (q * n) = (real m * 2 powi e) / (real n * 2 powi f)"
    using ratio_of_val(2) [OF pq] by (simp add: power_int_diff)
  then show ?thesis using pq ratio_of_val(1) [OF pq] assms
    by (intro exI [of _ p] exI [of _ "q * n"]) simp
qed

lemma dbl_to_int_nonneg:
  assumes "real m * 2 powi e < 2 ^ 31"
  shows "dbl_to_int (Fin False m e) = Some \<lfloor>real m * 2 powi e\<rfloor>"
proof -
  obtain p q where pq: "ratio_of m e = (p, q)" by fastforce
  note v = ratio_of_val [OF pq]
  have f: "int (p div q) = \<lfloor>real m * 2 powi e\<rfloor>"
    unfolding v(2) [symmetric] by (simp add: floor_divide_of_nat_eq)
  have "\<lfloor>real m * 2 powi e\<rfloor> < 2 ^ 31" using assms by (simp add: floor_less_iff)
  then have "int (p div q) < 2147483648" by (simp add: f)
  then have "p div q < 2147483648" by linarith
  then show ?thesis using pq f by (simp add: Let_def)
qed

end
