(* ===== verification/NumText.thy ===== *)
theory NumText
  imports Double
begin

text \<open>
  The conversions between numbers and text that the sources take from the C library:
  \<open>printf\<close> of an \<open>int\<close> with \<open>%i\<close> and \<open>%d\<close>, of a \<open>double\<close> with \<open>%.16g\<close>, and \<open>strtod\<close>, in the
  default locale and rounding mode (correctly rounded, as glibc does).
\<close>

section \<open>Decimal digits\<close>

definition is_digit :: "byte \<Rightarrow> bool" where
  "is_digit c \<longleftrightarrow> c \<ge> 0x30 \<and> c \<le> 0x39"

definition digit_byte :: "nat \<Rightarrow> byte" where
  "digit_byte d = 0x30 + word_of_nat d"

definition digit_val :: "byte \<Rightarrow> nat" where
  "digit_val c = unat c - 0x30"

fun dec :: "nat \<Rightarrow> byte list" where
  "dec n = (if n < 10 then [digit_byte n] else dec (n div 10) @ [digit_byte (n mod 10)])"

declare dec.simps [simp del]

definition undec :: "byte list \<Rightarrow> nat" where
  "undec ds = foldl (\<lambda>n c. n * 10 + digit_val c) 0 ds"

definition fmt_int :: "int \<Rightarrow> byte list" where
  "fmt_int i = (if i < 0 then [0x2D] else []) @ dec (nat \<bar>i\<bar>)"

section \<open>The \<open>%.16g\<close> conversion\<close>

text \<open>The decimal exponent of \<open>p / q\<close>: the greatest \<open>x\<close> with \<open>10 ^ x \<le> p / q\<close>.\<close>

function dec_up :: "nat \<Rightarrow> nat \<Rightarrow> int \<Rightarrow> int" where
  "dec_up p q x = (if 0 < q \<and> q * 10 \<le> p then dec_up p (q * 10) (x + 1) else x)"
  by pat_completeness auto
termination
  by (relation "measure (\<lambda>(p, q, x). p - q)") auto

function dec_down :: "nat \<Rightarrow> nat \<Rightarrow> int \<Rightarrow> int" where
  "dec_down p q x = (if 0 < p \<and> p < q then dec_down (p * 10) q (x - 1) else x)"
  by pat_completeness auto
termination
  by (relation "measure (\<lambda>(p, q, x). q - p)") auto

declare dec_up.simps [simp del] dec_down.simps [simp del]

definition dec_exp :: "nat \<Rightarrow> nat \<Rightarrow> int" where
  "dec_exp p q = (if p < q then dec_down p q 0 else dec_up p q 0)"

text \<open>The 16 significant digits of \<open>p / q\<close>, rounded, and the decimal exponent of the rounding.\<close>

definition sig16 :: "nat \<Rightarrow> nat \<Rightarrow> nat \<times> int" where
  "sig16 p q =
    (let x = dec_exp p q;
         d = (if x \<le> 15 then round_half_even (p * 10 ^ nat (15 - x)) q
              else round_half_even p (q * 10 ^ nat (x - 15)))
     in if d = 10 ^ 16 then (10 ^ 15, x + 1) else (d, x))"

definition strip_zeros :: "byte list \<Rightarrow> byte list" where
  "strip_zeros ds = rev (dropWhile (\<lambda>c. c = 0x30) (rev ds))"

definition fraction :: "byte list \<Rightarrow> byte list" where
  "fraction ds = (let f = strip_zeros ds in if f = [] then [] else 0x2E # f)"

definition fmt_exp :: "int \<Rightarrow> byte list" where
  "fmt_exp x =
    [0x65, if x < 0 then 0x2D else 0x2B] @
    (if \<bar>x\<bar> < 10 then [0x30] else []) @ dec (nat \<bar>x\<bar>)"

definition fmt_positive :: "nat \<Rightarrow> nat \<Rightarrow> byte list" where
  "fmt_positive p q =
    (let (d, x) = sig16 p q; ds = dec d
     in if x < -4 \<or> x \<ge> 16 then take 1 ds @ fraction (drop 1 ds) @ fmt_exp x
        else if x \<ge> 0 then take (nat (x + 1)) ds @ fraction (drop (nat (x + 1)) ds)
        else 0x30 # fraction (replicate (nat (- x - 1)) 0x30 @ ds))"

fun fmt_g16 :: "double \<Rightarrow> byte list" where
  "fmt_g16 NaN = bytes ''nan''"
| "fmt_g16 (Inf s) = (if s then bytes ''-inf'' else bytes ''inf'')"
| "fmt_g16 (Fin s m e) =
    (if s then [0x2D] else []) @
    (if m = 0 then [0x30] else let (p, q) = ratio_of m e in fmt_positive p q)"

section \<open>\<open>strtod\<close>\<close>

text \<open>
  The decimal forms: optional sign, digits, optional fraction, optional exponent. (The callers
  only pass text that starts with a JSON number. Where the library would read further than the
  JSON number, on a digit after a leading zero or on a hexadecimal prefix, the parsers reject
  the document afterwards, and the value is discarded.)
\<close>

definition strtod_exp :: "byte list \<Rightarrow> int" where
  "strtod_exp s =
    (case s of
       c # t \<Rightarrow>
         if c = 0x65 \<or> c = 0x45 then
           (case t of
              [] \<Rightarrow> 0
            | d # u \<Rightarrow>
                if d = 0x2D then - int (undec (takeWhile is_digit u))
                else if d = 0x2B then int (undec (takeWhile is_digit u))
                else int (undec (takeWhile is_digit t)))
         else 0
     | [] \<Rightarrow> 0)"

definition strtod :: "byte list \<Rightarrow> double" where
  "strtod s =
    (let neg = (case s of c # _ \<Rightarrow> c = 0x2D | [] \<Rightarrow> False);
         s = (if neg then tl s else s);
         ip = takeWhile is_digit s;
         s = dropWhile is_digit s;
         (fp, s) = (case s of
             c # t \<Rightarrow> if c = 0x2E then (takeWhile is_digit t, dropWhile is_digit t) else ([], s)
           | [] \<Rightarrow> ([], s));
         x = strtod_exp s - int (length fp);
         n = undec (ip @ fp)
     in if x \<ge> 0 then round_ratio neg (n * 10 ^ nat x) 1
        else round_ratio neg n (10 ^ nat (- x)))"

section \<open>Digits\<close>

lemma digit_unat: "d < 10 \<Longrightarrow> unat (digit_byte d) = 0x30 + d"
proof -
  assume "d < 10"
  then have "take_bit 8 d = d" by (simp add: take_bit_nat_eq_self_iff)
  with \<open>d < 10\<close> show ?thesis by (simp add: digit_byte_def unat_word_ariths unsigned_of_nat)
qed

lemma is_digit_byte: "d < 10 \<Longrightarrow> is_digit (digit_byte d)"
  by (simp add: is_digit_def word_le_nat_alt digit_unat)

lemma digit_val_byte: "d < 10 \<Longrightarrow> digit_val (digit_byte d) = d"
  by (simp add: digit_val_def digit_unat)

lemma digit_byte_eq_zero: "d < 10 \<Longrightarrow> digit_byte d = 0x30 \<longleftrightarrow> d = 0"
  by (simp add: word_unat_eq_iff digit_unat)

lemma dec_digits: "\<forall>c \<in> set (dec n). is_digit c"
proof (induction n rule: dec.induct)
  case (1 n)
  then show ?case by (subst dec.simps) (auto simp: is_digit_byte)
qed

lemma dec_nonempty: "dec n \<noteq> []"
  by (subst dec.simps) simp

lemma undec_append: "undec (xs @ ys) = undec xs * 10 ^ length ys + undec ys"
proof -
  have *: "foldl (\<lambda>n c. n * 10 + digit_val c) a ys = a * 10 ^ length ys + foldl (\<lambda>n c. n * 10 + digit_val c) 0 ys" for a
  proof (induction ys arbitrary: a)
    case (Cons c ys)
    show ?case using Cons [of "a * 10 + digit_val c"] Cons [of "digit_val c"] by (simp add: algebra_simps)
  qed simp
  show ?thesis using * [of "undec xs"] by (simp add: undec_def)
qed

lemma undec_single: "undec [c] = digit_val c"
  by (simp add: undec_def)

lemma undec_dec: "undec (dec n) = n"
proof (induction n rule: dec.induct)
  case (1 n)
  then show ?case by (subst dec.simps) (simp add: undec_append undec_single digit_val_byte)
qed

lemma dec_shift: "n > 0 \<Longrightarrow> dec (n * 10 ^ k) = dec n @ replicate k 0x30"
proof (induction k)
  case (Suc k)
  have "digit_byte 0 = 0x30" by (simp add: digit_byte_def)
  moreover have "\<not> n * 10 ^ Suc k < 10" "n * 10 ^ Suc k div 10 = n * 10 ^ k" "n * 10 ^ Suc k mod 10 = 0"
    using Suc.prems by (auto simp: less_Suc_eq)
  ultimately have "dec (n * 10 ^ Suc k) = dec (n * 10 ^ k) @ [0x30]"
    by (subst dec.simps) simp
  then show ?case using Suc by (simp add: replicate_append_same)
qed simp

lemma dec_hd: "n > 0 \<Longrightarrow> hd (dec n) \<noteq> 0x30"
proof (induction n rule: dec.induct)
  case (1 n)
  show ?case
  proof (cases "n < 10")
    case True then show ?thesis using "1.prems" by (subst dec.simps) (simp add: digit_byte_eq_zero)
  next
    case False
    then have "hd (dec (n div 10)) \<noteq> 0x30" using 1 by simp
    with False show ?thesis by (subst dec.simps) (simp add: dec_nonempty)
  qed
qed

lemma dec_length: "10 ^ k \<le> n \<Longrightarrow> n < 10 ^ Suc k \<Longrightarrow> length (dec n) = Suc k"
proof (induction k arbitrary: n)
  case 0 then show ?case by (subst dec.simps) simp
next
  case (Suc k)
  then have "10 ^ k \<le> n div 10" "n div 10 < 10 ^ Suc k" by (simp_all add: less_mult_imp_div_less div_le_mono [of "10 * 10 ^ k" n 10, simplified] mult.commute)
  moreover have "\<not> n < 10" 
  proof -
    have "1 \<le> (10::nat) ^ k" by simp
    then show ?thesis using Suc.prems(1) unfolding power_Suc by linarith
  qed
  ultimately show ?case using Suc.IH [of "n div 10"] by (subst dec.simps) simp
qed

lemma dec_inj: "dec m = dec n \<longleftrightarrow> m = n"
  by (metis undec_dec)

section \<open>The decimal exponent\<close>

lemma dec_up_bounds:
  assumes "0 < q" "q \<le> p"
  shows "10 powi (dec_up p q x - x) \<le> real p / real q \<and> real p / real q < 10 powi (dec_up p q x - x + 1)"
  using assms
proof (induction p q x rule: dec_up.induct)
  case (1 p q x)
  show ?case
  proof (cases "q * 10 \<le> p")
    case True
    let ?d = "dec_up p (q * 10) (x + 1)"
    have "10 powi (?d - (x + 1)) \<le> real p / real (q * 10) \<and> real p / real (q * 10) < 10 powi (?d - (x + 1) + 1)"
      using 1 True by simp
    moreover have "(10::real) powi (?d - x) = 10 * 10 powi (?d - (x + 1))" "(10::real) powi (?d - x + 1) = 10 * 10 powi (?d - (x + 1) + 1)"
      by (simp_all add: power_int_diff power_int_add)
    moreover have "dec_up p q x = ?d" using True 1 by (subst dec_up.simps) simp
    ultimately show ?thesis using 1 by (simp add: field_simps)
  next
    case False
    then have "dec_up p q x = x" by (subst dec_up.simps) simp
    moreover have "real p < real (q * 10)" using False by simp
    ultimately show ?thesis using 1 by (simp add: field_simps)
  qed
qed

lemma dec_down_bounds:
  assumes "0 < p" "p < q * 10"
  shows "10 powi (dec_down p q x - x) \<le> real p / real q \<and> real p / real q < 10 powi (dec_down p q x - x + 1)"
  using assms
proof (induction p q x rule: dec_down.induct)
  case (1 p q x)
  then have q: "0 < q" by auto
  show ?case
  proof (cases "p < q")
    case True
    let ?d = "dec_down (p * 10) q (x - 1)"
    have "10 powi (?d - (x - 1)) \<le> real (p * 10) / real q \<and> real (p * 10) / real q < 10 powi (?d - (x - 1) + 1)"
      using 1 True by simp
    moreover have "(10::real) powi (?d - (x - 1)) = 10 * 10 powi (?d - x)" "(10::real) powi (?d - (x - 1) + 1) = 10 * 10 powi (?d - x + 1)"
      by (simp_all add: power_int_diff power_int_add)
    moreover have "dec_down p q x = ?d" using True 1 by (subst dec_down.simps) simp
    ultimately show ?thesis using q by (simp add: field_simps)
  next
    case False
    then have "dec_down p q x = x" by (subst dec_down.simps) simp
    moreover have "real p < real (q * 10)" using 1 by simp
    ultimately show ?thesis using 1 False q by (simp add: field_simps)
  qed
qed

lemma dec_exp_bounds:
  assumes "0 < p" "0 < q"
  shows "10 powi dec_exp p q \<le> real p / real q" "real p / real q < 10 powi (dec_exp p q + 1)"
proof -
  have "p < q \<Longrightarrow> p < q * 10" by simp
  then show "10 powi dec_exp p q \<le> real p / real q" "real p / real q < 10 powi (dec_exp p q + 1)"
    using dec_up_bounds [of q p 0] dec_down_bounds [of p q 0] assms
    by (auto simp: dec_exp_def split: if_splits)
qed


lemma sig16_bounds:
  assumes "0 < p" "0 < q" "sig16 p q = (d, x)"
  shows "10 ^ 15 \<le> d" "d < 10 ^ 16"
proof -
  let ?x = "dec_exp p q"
  define a where "a = (if ?x \<le> 15 then p * 10 ^ nat (15 - ?x) else p)"
  define b where "b = (if ?x \<le> 15 then q else q * 10 ^ nat (?x - 15))"
  have b: "b > 0" using assms(2) by (simp add: b_def)
  have ab: "real a / real b = real p / real q * 10 powi (15 - ?x)"
    by (auto simp: a_def b_def power_int_def field_simps)
  have "(10::real) powi 15 = 10 powi ?x * 10 powi (15 - ?x)" "(10::real) powi 16 = 10 powi (?x + 1) * 10 powi (15 - ?x)"
    by (simp_all flip: power_int_add)
  moreover have "10 powi ?x * 10 powi (15 - ?x) \<le> real a / real b"
    unfolding ab by (intro mult_right_mono dec_exp_bounds assms) auto
  moreover have "real a / real b < 10 powi (?x + 1) * 10 powi (15 - ?x)"
    unfolding ab by (intro mult_strict_right_mono dec_exp_bounds assms) auto
  ultimately have y: "10 ^ 15 \<le> real a / real b" "real a / real b < 10 ^ 16" by simp_all
  define m where "m = round_half_even a b"
  have err: "\<bar>real m - real a / real b\<bar> \<le> 1 / 2" unfolding m_def using b by (rule round_half_even_error)
  have "10 ^ 15 < real m + 1" using y err by linarith
  then have "real (10 ^ 15) < real (m + 1)" by simp
  then have lo: "10 ^ 15 \<le> m" by (simp only: of_nat_less_iff)
  have "real m < 10 ^ 16 + 1" using y err by linarith
  then have "real m < real (10 ^ 16 + 1)" by simp
  then have hi: "m \<le> 10 ^ 16" by (simp only: of_nat_less_iff)
  have "sig16 p q = (if m = 10 ^ 16 then (10 ^ 15, ?x + 1) else (m, ?x))"
    unfolding sig16_def Let_def m_def a_def b_def by (simp split: if_splits)
  with lo hi assms(3) show "10 ^ 15 \<le> d" "d < 10 ^ 16" by (auto split: if_splits)
qed

section \<open>The grammar of JSON numbers\<close>

definition int_part :: "byte list \<Rightarrow> bool" where
  "int_part ip \<longleftrightarrow> ip = [0x30] \<or> ip \<noteq> [] \<and> list_all is_digit ip \<and> hd ip \<noteq> 0x30"

definition frac_part :: "byte list \<Rightarrow> bool" where
  "frac_part fr \<longleftrightarrow> fr = [] \<or> (\<exists>ds. fr = 0x2E # ds \<and> ds \<noteq> [] \<and> list_all is_digit ds)"

definition exp_part :: "byte list \<Rightarrow> bool" where
  "exp_part ex \<longleftrightarrow> ex = [] \<or> (\<exists>e sg ds. ex = e # sg @ ds \<and> e \<in> {0x65, 0x45} \<and>
     sg \<in> {[], [0x2B], [0x2D]} \<and> ds \<noteq> [] \<and> list_all is_digit ds)"

definition json_number :: "byte list \<Rightarrow> bool" where
  "json_number s \<longleftrightarrow> (\<exists>sg ip fr ex. s = sg @ ip @ fr @ ex \<and> sg \<in> {[], [0x2D]} \<and>
     int_part ip \<and> frac_part fr \<and> exp_part ex)"

lemma strip_zeros_subset: "set (strip_zeros ds) \<subseteq> set ds"
  unfolding strip_zeros_def by (metis set_dropWhileD set_rev subsetI)

lemma fraction_part: "list_all is_digit ds \<Longrightarrow> frac_part (fraction ds)"
  using strip_zeros_subset [of ds] by (auto simp: fraction_def frac_part_def Let_def list_all_iff)

lemma dec_list_all: "list_all is_digit (dec n)"
  using dec_digits [of n] by (simp add: list_all_iff)

lemma zero_digit: "is_digit 0x30"
  by (simp add: is_digit_def)

lemma fmt_exp_part: "exp_part (fmt_exp x)"
  unfolding exp_part_def fmt_exp_def
  by (intro disjI2 exI [of _ "0x65"] exI [of _ "[if x < 0 then 0x2D else 0x2B]"]
        exI [of _ "(if \<bar>x\<bar> < 10 then [0x30] else []) @ dec (nat \<bar>x\<bar>)"])
     (auto simp: dec_nonempty dec_list_all zero_digit)

lemma fmt_positive_number:
  assumes "0 < p" "0 < q"
  shows "\<exists>ip fr ex. fmt_positive p q = ip @ fr @ ex \<and> int_part ip \<and> frac_part fr \<and> exp_part ex"
proof -
  obtain d x where dx: "sig16 p q = (d, x)" by fastforce
  note b = sig16_bounds [OF assms dx]
  have d0: "hd (dec d) \<noteq> 0x30" using b by (intro dec_hd) simp
  let ?ds = "dec d"
  have dr: "list_all is_digit (drop n ?ds)" "list_all is_digit (take n ?ds)" for n
    using dec_digits [of d] by (auto simp: list_all_iff dest: in_set_dropD in_set_takeD)
  have ip: "int_part (take (Suc n) ?ds)" for n
    using dr(2) [of "Suc n"] d0 dec_nonempty [of d] by (auto simp: int_part_def)
  have ex0: "exp_part []" by (simp add: exp_part_def)
  consider "x < -4 \<or> x \<ge> 16" | "\<not> (x < -4 \<or> x \<ge> 16)" "x \<ge> 0" | "\<not> (x < -4 \<or> x \<ge> 16)" "\<not> x \<ge> 0" by blast
  then show ?thesis
  proof cases
    case 1
    then show ?thesis using dx ip [of 0] fraction_part [OF dr(1) [of 1]] fmt_exp_part [of x]
      by (auto simp: fmt_positive_def Let_def)
  next
    case 2
    then have "nat (x + 1) = Suc (nat x)" by simp
    with 2 show ?thesis using dx ip [of "nat x"] fraction_part [OF dr(1) [of "nat (x + 1)"]] ex0
      by (intro exI [of _ "take (nat (x + 1)) ?ds"] exI [of _ "fraction (drop (nat (x + 1)) ?ds)"] exI [of _ "[]"])
         (simp add: fmt_positive_def Let_def)
  next
    case 3
    have "list_all is_digit (replicate n 0x30 @ ?ds)" for n
      using dec_list_all [of d] by (auto simp: list_all_iff zero_digit)
    from fraction_part [OF this] 3 show ?thesis using dx ex0
      by (intro exI [of _ "[0x30]"] exI [of _ "fraction (replicate (nat (- x - 1)) 0x30 @ ?ds)"] exI [of _ "[]"])
         (simp add: fmt_positive_def Let_def int_part_def)
  qed
qed

lemma fmt_g16_number: "json_number (fmt_g16 (Fin s m e))"
proof (cases "m = 0")
  case True
  have "int_part [0x30]" "frac_part []" "exp_part []" by (simp_all add: int_part_def frac_part_def exp_part_def)
  with True show ?thesis unfolding json_number_def
    by (intro exI [of _ "if s then [0x2D] else []"] exI [of _ "[0x30]"] exI [of _ "[]"]) simp
next
  case False
  obtain p q where pq: "ratio_of m e = (p, q)" by fastforce
  have "0 < q" using ratio_of_val(1) [OF pq] .
  moreover have "0 < p" using pq False by (auto simp: ratio_of_def split: if_splits)
  ultimately obtain ip fr ex where "fmt_positive p q = ip @ fr @ ex" "int_part ip" "frac_part fr" "exp_part ex"
    using fmt_positive_number by blast
  with False pq show ?thesis unfolding json_number_def
    by (intro exI [of _ "if s then [0x2D] else []"] exI [of _ ip] exI [of _ fr] exI [of _ ex]) simp
qed


section \<open>Integers print as integers and read back exactly\<close>

lemma pow10_less: "(10::real) powi a < 10 powi b \<Longrightarrow> a < b"
  by (meson linorder_not_less one_le_numeral power_int_increasing)

lemma dec_exp_nat:
  assumes "0 < q" "10 ^ k \<le> n" "n < 10 ^ Suc k"
  shows "dec_exp (n * q) q = int k"
proof -
  have n: "0 < n" using assms(2) by (cases n) auto
  then have b: "10 powi dec_exp (n * q) q \<le> real n" "real n < 10 powi (dec_exp (n * q) q + 1)"
    using dec_exp_bounds [of "n * q" q] assms(1) by simp_all
  have "real (10 ^ k) \<le> real n" "real n < real (10 ^ Suc k)" using assms by (simp_all only: of_nat_le_iff of_nat_less_iff)
  then have "10 powi int k \<le> real n" "real n < 10 powi (int k + 1)"
    by (simp_all add: power_int_add)
  with b have "dec_exp (n * q) q < int k + 1" "int k < dec_exp (n * q) q + 1"
    by (intro pow10_less; linarith)+
  then show ?thesis by simp
qed

lemma pow10_interval: "0 < n \<Longrightarrow> \<exists>k. 10 ^ k \<le> n \<and> n < 10 ^ Suc (k::nat)" for n :: nat
proof (induction n rule: dec.induct)
  case (1 n)
  show ?case
  proof (cases "n < 10")
    case True then show ?thesis using 1 by (intro exI [of _ 0]) simp
  next
    case False
    then have "0 < n div 10" by simp
    with 1 False obtain k where "10 ^ k \<le> n div 10" "n div 10 < 10 ^ Suc k" by blast
    then have "10 ^ Suc k \<le> n \<and> n < 10 ^ Suc (Suc k)" by (simp add: le_div_geq) linarith
    then show ?thesis by blast
  qed
qed

lemma strip_zeros_zeros: "strip_zeros (replicate n 0x30) = []"
  by (simp add: strip_zeros_def)

lemma fmt_positive_nat:
  assumes "0 < q" "0 < n" "n < 10 ^ 15"
  shows "fmt_positive (n * q) q = dec n"
proof -
  from pow10_interval [OF assms(2)] obtain k where k: "10 ^ k \<le> n" "n < 10 ^ Suc k" by blast
  have x: "dec_exp (n * q) q = int k" using dec_exp_nat [OF assms(1) k] .
  have "(10::nat) ^ k < 10 ^ 15" using k(1) assms(3) by linarith
  then have k15: "k < 15" by (rule power_less_imp_less_exp [rotated]) simp
  have e: "nat (15 - int k) = 15 - k" by simp
  have "n * q * 10 ^ (15 - k) = (n * 10 ^ (15 - k)) * q" by simp
  then have r: "round_half_even (n * q * 10 ^ (15 - k)) q = n * 10 ^ (15 - k)"
    using round_half_even_exact [OF assms(1)] by metis
  have "n * 10 ^ (15 - k) < 10 ^ Suc k * 10 ^ (15 - k)" using k(2) by simp
  also have "\<dots> = 10 ^ (Suc k + (15 - k))" by (simp only: power_add)
  also have "Suc k + (15 - k) = 16" using k15 by simp
  finally have d: "n * 10 ^ (15 - k) \<noteq> 10 ^ 16" by simp
  have s: "sig16 (n * q) q = (n * 10 ^ (15 - k), int k)"
    unfolding sig16_def x Let_def using k15 d by (simp only: e r) simp
  have l: "length (dec n) = Suc k" by (rule dec_length [OF k])
  have "nat (int k + 1) = Suc k" by simp
  then show ?thesis using k15 assms(2) l
    by (simp add: fmt_positive_def s dec_shift fraction_def strip_zeros_zeros Let_def)
qed

lemma fmt_g16_nat: "n < 10 ^ 15 \<Longrightarrow> fmt_g16 (dbl_of_nat n) = dec n"
proof (cases "n = 0")
  case True
  then show ?thesis by (simp add: dbl_of_nat_def round_ratio_def) (simp add: dec.simps digit_byte_def)
next
  case False
  assume n: "n < 10 ^ 15"
  have "dbl_of_nat n = Fin False (n * 2 ^ (52 - ilog2 n)) (int (ilog2 n) - 52)"
    unfolding dbl_of_nat_def using False n by (intro round_ratio_nat) simp_all
  moreover have "ratio_of (n * 2 ^ (52 - ilog2 n)) (int (ilog2 n) - 52) = (n * 2 ^ (52 - ilog2 n), 2 ^ (52 - ilog2 n))"
  proof -
    have "(2::nat) ^ ilog2 n < 2 ^ 53" using ilog2_bounds [of n] False n by auto
    then have "ilog2 n < 53" by (rule power_less_imp_less_exp [rotated]) simp
    then show ?thesis by (cases "ilog2 n = 52") (auto simp: ratio_of_def nat_diff_distrib)
  qed
  ultimately show ?thesis using False n by (simp add: fmt_positive_nat)
qed

lemma takeWhile_digits:
  assumes "list_all is_digit ds" "case t of [] \<Rightarrow> True | c # _ \<Rightarrow> \<not> is_digit c"
  shows "takeWhile is_digit (ds @ t) = ds" "dropWhile is_digit (ds @ t) = t"
  using assms by (induction ds) (auto split: list.splits)

lemma not_digit: "\<not> is_digit 0x2D" "\<not> is_digit 0x2E" "\<not> is_digit 0x65" "\<not> is_digit 0x45" "\<not> is_digit 0x2B" "\<not> is_digit 0"
  by (simp_all add: is_digit_def)

lemma strtod_nat:
  assumes "case t of [] \<Rightarrow> True | c # _ \<Rightarrow> \<not> is_digit c \<and> c \<notin> {0x2E, 0x65, 0x45}"
  shows "strtod (dec n @ t) = dbl_of_nat n"
proof -
  have t: "case t of [] \<Rightarrow> True | c # _ \<Rightarrow> \<not> is_digit c" using assms by (simp split: list.splits)
  obtain c cs where c: "dec n = c # cs" using dec_nonempty [of n] by (cases "dec n") auto
  then have "is_digit c" using dec_list_all [of n] by simp
  then have "c \<noteq> 0x2D" using not_digit by auto
  note w = takeWhile_digits [OF dec_list_all t, of n]
  have x: "strtod_exp t = 0" using assms by (auto simp: strtod_exp_def split: list.splits)
  have f: "(case t of [] \<Rightarrow> ([], t) | c # u \<Rightarrow> if c = 0x2E then (takeWhile is_digit u, dropWhile is_digit u) else ([], t)) = ([], t)"
    using assms by (auto split: list.splits)
  have h: "(case dec n @ t of [] \<Rightarrow> False | c # _ \<Rightarrow> c = 0x2D) = False" using c \<open>c \<noteq> 0x2D\<close> by simp
  show ?thesis
    unfolding strtod_def Let_def h if_False w using f x assms
    by (auto simp: undec_dec dbl_of_nat_def split: list.splits)
qed

section \<open>The length of a printed number\<close>

lemma dec_short: "n < 10 ^ Suc k \<Longrightarrow> length (dec n) \<le> Suc k"
proof (induction k arbitrary: n)
  case 0
  then show ?case by (subst dec.simps) simp
next
  case (Suc k)
  then have "n div 10 < 10 ^ Suc k" by (simp add: less_mult_imp_div_less)
  from Suc.IH [OF this] show ?case by (subst dec.simps) simp
qed

lemma strip_zeros_length: "length (strip_zeros ds) \<le> length ds"
  unfolding strip_zeros_def by (metis length_dropWhile_le length_rev)

lemma fraction_length: "length (fraction ds) \<le> Suc (length ds)"
  using strip_zeros_length [of ds] by (simp add: fraction_def Let_def)

lemma powi_minus_mono: "0 \<le> n \<Longrightarrow> (10::real) powi - n \<le> 2 powi - n"
proof -
  assume "0 \<le> n"
  then have "(2::real) powi n \<le> 10 powi n" by (intro power_int_mono) auto
  then show ?thesis unfolding power_int_minus by (rule le_imp_inverse_le) simp
qed

lemma dec_exp_range:
  assumes "dbl_ok (Fin s m e)" "0 < m" "ratio_of m e = (p, q)"
  shows "-1075 \<le> dec_exp p q \<and> dec_exp p q \<le> 1024"
proof -
  have "m \<le> 2 ^ 53" using assms(1) by simp
  then have "real m \<le> real (2 ^ 53)" by (simp only: of_nat_le_iff)
  then have m: "1 \<le> real m" "real m \<le> 2 ^ 53" using assms(2) by simp_all
  have q: "0 < q" "real p / real q = real m * 2 powi e" using ratio_of_val [OF assms(3)] by auto
  have p: "0 < p" using assms(2,3) by (auto simp: ratio_of_def split: if_splits)
  note b = dec_exp_bounds [OF p q(1)]
  have "real m * 2 powi e \<le> 2 powi 53 * 2 powi 971"
    by (intro mult_mono power_int_increasing) (use m assms(1) in auto)
  also have "\<dots> = (2::real) powi 1024" by (simp flip: power_int_add)
  also have "\<dots> \<le> 10 powi 1024" by (rule power_int_mono) auto
  also have "\<dots> < 10 powi 1025" by (rule power_int_strict_increasing) auto
  finally have "10 powi dec_exp p q < (10::real) powi 1025"
    using b(1) q(2) by linarith
  then have u: "dec_exp p q < 1025" by (rule pow10_less)
  have "10 powi -1074 \<le> (2::real) powi -1074" by (rule powi_minus_mono) simp
  also have "\<dots> \<le> 1 * 2 powi e" unfolding mult_1 by (rule power_int_increasing) (use assms(1) in auto)
  also have "\<dots> \<le> real m * 2 powi e" by (intro mult_right_mono m) simp
  finally have "10 powi -1074 < (10::real) powi (dec_exp p q + 1)" using b(2) q(2) by linarith
  then have "-1074 < dec_exp p q + 1" by (rule pow10_less)
  with u show ?thesis by simp
qed

lemma fmt_exp_length: "\<bar>x\<bar> < 10 ^ 4 \<Longrightarrow> length (fmt_exp x) \<le> 7"
  using dec_short [of "nat \<bar>x\<bar>" 3] by (auto simp: fmt_exp_def nat_less_iff)

lemma fmt_positive_length:
  assumes "0 < p" "0 < q" "\<bar>dec_exp p q\<bar> < 9999"
  shows "length (fmt_positive p q) \<le> 24"
proof -
  obtain d x where dx: "sig16 p q = (d, x)" by fastforce
  have "d < 10 ^ 16" using sig16_bounds [OF assms(1,2) dx] by simp
  then have d: "length (dec d) \<le> 16" using dec_short [of d 15] by simp
  have x: "\<bar>x\<bar> < 10 ^ 4" using dx assms(3) by (auto simp: sig16_def Let_def split: if_splits)
  consider "x < -4 \<or> x \<ge> 16" | "\<not> (x < -4 \<or> x \<ge> 16)" "x \<ge> 0" | "\<not> (x < -4 \<or> x \<ge> 16)" "\<not> x \<ge> 0" by blast
  then show ?thesis
  proof cases
    case 1
    have "length (fmt_exp x) \<le> 7" using x by (rule fmt_exp_length)
    moreover have "length (take 1 (dec d)) + length (fraction (drop 1 (dec d))) \<le> 17"
      using d fraction_length [of "drop 1 (dec d)"] dec_nonempty [of d] by (cases "dec d") auto
    ultimately show ?thesis using 1 dx by (simp add: fmt_positive_def Let_def)
  next
    case 2
    then show ?thesis using d dx fraction_length [of "drop (nat (x + 1)) (dec d)"]
      by (simp add: fmt_positive_def Let_def)
  next
    case 3
    then show ?thesis using d dx fraction_length [of "replicate (nat (- x - 1)) 0x30 @ dec d"]
      by (simp add: fmt_positive_def Let_def)
  qed
qed

lemma fmt_g16_length: "dbl_ok d \<Longrightarrow> length (fmt_g16 d) \<le> 25"
proof (cases d)
  case (Fin s m e)
  assume d: "dbl_ok d"
  obtain p q where pq: "ratio_of m e = (p, q)" by fastforce
  show ?thesis
  proof (cases "m = 0")
    case False
    have "0 < q" using ratio_of_val [OF pq] by auto
    moreover have "0 < p" using False pq by (auto simp: ratio_of_def split: if_splits)
    moreover have "\<bar>dec_exp p q\<bar> < 9999" using dec_exp_range [of s m e p q] d Fin False pq by auto
    ultimately show ?thesis using fmt_positive_length [of p q] Fin False pq by simp
  qed (simp add: Fin)
qed auto

section \<open>\<open>strtod\<close> stops at the end of the number\<close>

lemma takeWhile_all_digits:
  "list_all is_digit ds \<Longrightarrow> takeWhile is_digit ds = ds \<and> dropWhile is_digit ds = []"
  using takeWhile_digits [of ds "[]"] by simp

lemma strtod_parts:
  assumes "sg \<in> {[], [0x2D]}" "int_part ip" "frac_part fr"
    and r: "case r of [] \<Rightarrow> True | c # _ \<Rightarrow> \<not> is_digit c \<and> c \<noteq> 0x2E"
  shows "strtod (sg @ ip @ fr @ r) =
    (let x = strtod_exp r - int (length (drop 1 fr)); n = undec (ip @ drop 1 fr)
     in if x \<ge> 0 then round_ratio (sg \<noteq> []) (n * 10 ^ nat x) 1
        else round_ratio (sg \<noteq> []) n (10 ^ nat (- x)))"
proof -
  obtain c ds where ip: "ip = c # ds" "list_all is_digit ip"
    using assms(2) by (cases ip) (auto simp: int_part_def is_digit_def)
  then have c: "c \<noteq> 0x2D" using not_digit by auto
  have frd: "case fr @ r of [] \<Rightarrow> True | c # _ \<Rightarrow> \<not> is_digit c"
    using assms(3,4) by (auto simp: frac_part_def not_digit split: list.splits)
  have neg: "(case sg @ ip @ fr @ r of c # _ \<Rightarrow> c = 0x2D | [] \<Rightarrow> False) = (sg \<noteq> [])"
    "(if sg \<noteq> [] then tl (sg @ ip @ fr @ r) else sg @ ip @ fr @ r) = ip @ fr @ r"
    using assms(1) ip(1) c by auto
  have fp: "(case fr @ r of c # t \<Rightarrow> if c = 0x2E then (takeWhile is_digit t, dropWhile is_digit t) else ([], fr @ r)
      | [] \<Rightarrow> ([], fr @ r)) = (drop 1 fr, r)"
  proof (cases "fr = []")
    case True
    with r show ?thesis by (auto split: list.splits)
  next
    case False
    with assms(3) obtain fs where fs: "fr = 0x2E # fs" "list_all is_digit fs" by (auto simp: frac_part_def)
    have "case r of [] \<Rightarrow> True | c # _ \<Rightarrow> \<not> is_digit c" using r by (simp split: list.splits)
    from takeWhile_digits [OF fs(2) this] fs show ?thesis by simp
  qed
  show ?thesis
    unfolding strtod_def Let_def neg takeWhile_digits [OF ip(2) frd] fp prod.case ..
qed

lemma strtod_exp_local:
  assumes "exp_part ex" "case t of [] \<Rightarrow> True | c # _ \<Rightarrow> \<not> is_digit c \<and> c \<notin> {0x2E, 0x65, 0x45}"
  shows "strtod_exp (ex @ t) = strtod_exp ex"
proof (cases "ex = []")
  case True
  with assms(2) show ?thesis by (auto simp: strtod_exp_def split: list.splits)
next
  case False
  with assms(1) obtain e sg xs where e: "ex = e # sg @ xs" "e \<in> {0x65, 0x45}" "sg \<in> {[], [0x2B], [0x2D]}"
    "xs \<noteq> []" "list_all is_digit xs" unfolding exp_part_def by blast
  then obtain d ds where d: "xs = d # ds" by (cases xs) auto
  with e(5) have "d \<noteq> 0x2B" "d \<noteq> 0x2D" using not_digit by auto
  moreover have "case t of [] \<Rightarrow> True | c # _ \<Rightarrow> \<not> is_digit c" using assms(2) by (simp split: list.splits)
  note w = takeWhile_digits(1) [OF e(5) this] conjunct1 [OF takeWhile_all_digits [OF e(5)]]
  ultimately show ?thesis using e(1-3) w d by (auto simp: strtod_exp_def)
qed

lemma strtod_local:
  assumes "json_number s" "case t of [] \<Rightarrow> True | c # _ \<Rightarrow> \<not> is_digit c \<and> c \<notin> {0x2E, 0x65, 0x45}"
  shows "strtod (s @ t) = strtod s"
proof -
  from assms(1) obtain sg ip fr ex where s: "s = sg @ ip @ fr @ ex" "sg \<in> {[], [0x2D]}"
    "int_part ip" "frac_part fr" "exp_part ex" by (auto simp: json_number_def)
  have "case ex @ t of [] \<Rightarrow> True | c # _ \<Rightarrow> \<not> is_digit c \<and> c \<noteq> 0x2E"
    "case ex of [] \<Rightarrow> True | c # _ \<Rightarrow> \<not> is_digit c \<and> c \<noteq> 0x2E"
    using assms(2) s(5) by (auto simp: exp_part_def not_digit split: list.splits)
  from this [THEN strtod_parts [OF s(2-4)]] strtod_exp_local [OF s(5) assms(2)]
  show ?thesis unfolding s(1) append_assoc by simp
qed

section \<open>Signed numbers\<close>

lemma fmt_int_chars: "list_all (\<lambda>c. is_digit c \<or> c = 0x2D) (fmt_int i)"
  using dec_digits by (auto simp: fmt_int_def list_all_iff)

lemma dec_no_minus: "dec n \<noteq> 0x2D # xs"
proof
  assume "dec n = 0x2D # xs"
  with dec_list_all [of n] have "is_digit 0x2D" by simp
  then show False by (simp add: is_digit_def)
qed

lemma fmt_int_cases:
  "i < 0 \<and> fmt_int i = 0x2D # dec (nat (- i)) \<or> \<not> i < 0 \<and> fmt_int i = dec (nat i)"
  by (simp add: fmt_int_def abs_if)

lemma fmt_int_inj:
  assumes "fmt_int i = fmt_int j"
  shows "i = j"
proof -
  consider "i < 0" "j < 0" "dec (nat (- i)) = dec (nat (- j))" | "\<not> i < 0" "\<not> j < 0" "dec (nat i) = dec (nat j)"
    using fmt_int_cases [of i] fmt_int_cases [of j] assms dec_no_minus by (metis list.inject)
  then show ?thesis by cases (auto simp: dec_inj)
qed

end
