(* ===== verification/StringBuffer.thy ===== *)
theory StringBuffer
  imports Prelude
begin

text \<open>
  The growing string buffer \<open>SB\<close> of \<open>src/util/json.c\<close>. The state is the text written so far
  (\<open>start\<close> to \<open>cur\<close>) and the size of the buffer (\<open>end - start\<close>; one more byte is allocated for
  the terminator). A write outside the allocation is \<open>None\<close>, and so is a growth loop that never
  ends. Allocation failure ends the process and is not modelled; sizes are unbounded numbers
  (buffers stay far below the ranges of \<open>int\<close> and \<open>size_t\<close>).
\<close>

section \<open>The code\<close>

record sb =
  sb_text :: "byte list"
  sb_alloc :: nat

definition sb_init :: sb where
  "sb_init = \<lparr>sb_text = [], sb_alloc = 16\<rparr>"

text \<open>The loop \<open>do alloc *= 2; while (alloc < length + need)\<close>.\<close>

partial_function (option) sb_grow_alloc :: "nat \<Rightarrow> nat \<Rightarrow> nat option" where
  "sb_grow_alloc alloc target =
    (let alloc = alloc * 2
     in if alloc < target then sb_grow_alloc alloc target else Some alloc)"

definition sb_grow :: "sb \<Rightarrow> nat \<Rightarrow> sb option" where
  "sb_grow b need = do {
     alloc \<leftarrow> sb_grow_alloc (sb_alloc b) (length (sb_text b) + need);
     Some (b\<lparr>sb_alloc := alloc\<rparr>) }"

definition sb_need :: "sb \<Rightarrow> nat \<Rightarrow> sb option" where
  "sb_need b need =
    (if int (sb_alloc b) - int (length (sb_text b)) < int need then sb_grow b need else Some b)"

text \<open>Raw stores \<open>*cur++ = c\<close>: the allocation has room for \<open>alloc + 1\<close> bytes.\<close>

definition sb_store :: "sb \<Rightarrow> byte list \<Rightarrow> sb option" where
  "sb_store b bs =
    (if length (sb_text b) + length bs \<le> sb_alloc b + 1
     then Some (b\<lparr>sb_text := sb_text b @ bs\<rparr>) else None)"

definition sb_put :: "sb \<Rightarrow> byte list \<Rightarrow> sb option" where
  "sb_put b bs = do { b \<leftarrow> sb_need b (length bs); sb_store b bs }"

definition sb_putc :: "sb \<Rightarrow> byte \<Rightarrow> sb option" where
  "sb_putc b c = do {
     b \<leftarrow> (if length (sb_text b) \<ge> sb_alloc b then sb_grow b 1 else Some b);
     sb_store b [c] }"

text \<open>\<open>sb_puts\<close> takes a C string; its argument here is the text of that string.\<close>

definition sb_puts :: "sb \<Rightarrow> byte list \<Rightarrow> sb option" where
  "sb_puts b str = sb_put b str"

text \<open>\<open>sb_finish\<close> terminates the text and returns the memory of the buffer from its start.\<close>

definition sb_finish :: "sb \<Rightarrow> byte list option" where
  "sb_finish b = do { b \<leftarrow> sb_store b [0]; Some (sb_text b) }"

section \<open>The growth loop ends with enough room\<close>

lemma sb_grow_alloc_enough:
  assumes "0 < alloc"
  shows "\<exists>a. sb_grow_alloc alloc target = Some a \<and> target \<le> a \<and> 2 * alloc \<le> a"
  using assms
proof (induction "target - alloc" arbitrary: alloc rule: less_induct)
  case less
  show ?case
  proof (cases "alloc * 2 < target")
    case True
    with less.prems have "target - alloc * 2 < target - alloc" by simp
    with less obtain a where "sb_grow_alloc (alloc * 2) target = Some a" "target \<le> a" "2 * (alloc * 2) \<le> a"
      by (metis mult_pos_pos zero_less_numeral)
    with True show ?thesis by (subst sb_grow_alloc.simps) (simp add: Let_def)
  next
    case False
    then show ?thesis by (subst sb_grow_alloc.simps) (simp add: Let_def)
  qed
qed

section \<open>The invariant, and the operations under it\<close>

definition sb_ok :: "sb \<Rightarrow> bool" where
  "sb_ok b \<longleftrightarrow> 0 < sb_alloc b \<and> length (sb_text b) \<le> sb_alloc b"

text \<open>Room for \<open>n\<close> more bytes and the terminator.\<close>

definition sb_room :: "sb \<Rightarrow> nat \<Rightarrow> bool" where
  "sb_room b n \<longleftrightarrow> 0 < sb_alloc b \<and> length (sb_text b) + n \<le> sb_alloc b"

lemma sb_init_ok: "sb_ok sb_init" "sb_text sb_init = []"
  by (simp_all add: sb_ok_def sb_init_def)

lemma sb_room_ok: "sb_room b n \<Longrightarrow> sb_ok b"
  by (simp add: sb_room_def sb_ok_def)

lemma sb_grow_room:
  assumes "sb_ok b"
  shows "\<exists>b'. sb_grow b n = Some b' \<and> sb_room b' n \<and> sb_text b' = sb_text b"
  using assms sb_grow_alloc_enough [of "sb_alloc b" "length (sb_text b) + n"]
  by (auto simp: sb_grow_def sb_ok_def sb_room_def)

lemma sb_need_room:
  assumes "sb_ok b"
  shows "\<exists>b'. sb_need b n = Some b' \<and> sb_room b' n \<and> sb_text b' = sb_text b"
proof (cases "int (sb_alloc b) - int (length (sb_text b)) < int n")
  case True
  with sb_grow_room [OF assms] show ?thesis by (simp add: sb_need_def)
next
  case False
  with assms show ?thesis by (auto simp: sb_need_def sb_ok_def sb_room_def)
qed

lemma sb_store_room:
  assumes "sb_room b n" "length bs \<le> n"
  shows "\<exists>b'. sb_store b bs = Some b' \<and> sb_room b' (n - length bs) \<and> sb_text b' = sb_text b @ bs"
  using assms by (auto simp: sb_store_def sb_room_def)

lemma sb_put_ok:
  assumes "sb_ok b"
  shows "\<exists>b'. sb_put b bs = Some b' \<and> sb_ok b' \<and> sb_text b' = sb_text b @ bs"
proof -
  from sb_need_room [OF assms] obtain b1
    where 1: "sb_need b (length bs) = Some b1" "sb_room b1 (length bs)" "sb_text b1 = sb_text b" by blast
  from sb_store_room [OF 1(2) order_refl] 1 sb_room_ok show ?thesis
    by (auto simp: sb_put_def)
qed

lemma sb_putc_ok:
  assumes "sb_ok b"
  shows "\<exists>b'. sb_putc b c = Some b' \<and> sb_ok b' \<and> sb_text b' = sb_text b @ [c]"
proof -
  have "\<exists>b1. (if length (sb_text b) \<ge> sb_alloc b then sb_grow b 1 else Some b) = Some b1 \<and>
      sb_room b1 1 \<and> sb_text b1 = sb_text b"
    using sb_grow_room [OF assms, of 1] assms by (auto simp: sb_ok_def sb_room_def)
  then obtain b1 where 1: "(if length (sb_text b) \<ge> sb_alloc b then sb_grow b 1 else Some b) = Some b1"
    "sb_room b1 1" "sb_text b1 = sb_text b" by blast
  from sb_store_room [OF 1(2), of "[c]"] 1 sb_room_ok show ?thesis
    by (auto simp: sb_putc_def)
qed

lemma sb_finish_ok: "sb_ok b \<Longrightarrow> sb_finish b = Some (sb_text b @ [0])"
  by (simp add: sb_finish_def sb_ok_def sb_store_def)

text \<open>The buffer provides the byte-sink interface.\<close>

interpretation sbuf: byte_sink sb_puts sb_text sb_ok
  by unfold_locales (simp add: sb_puts_def sb_put_ok)

end
