(* ===== verification/JsonTree.thy ===== *)
theory JsonTree
  imports Double Utf8
begin

text \<open>
  The values of \<open>src/util/json.h\<close>. A \<open>JsonNode\<close> and its descendants are a tree: the tag and the
  union are the constructors, the sibling chain is a list, and the key of an object member stands
  beside the member. Strings are the text of C strings. (The pointer structure of the nodes is
  modelled in \<open>JsonHeap\<close>, which relates it to these trees.)
\<close>

datatype json =
    JNull
  | JBool bool
  | JString "byte list"
  | JNumber double
  | JArray "json list"
  | JObject "(byte list \<times> json) list"

text \<open>Every string of a tree is the text of a C string.\<close>

fun json_strings :: "json \<Rightarrow> byte list list" where
  "json_strings (JString s) = [s]"
| "json_strings (JArray xs) = concat (map json_strings xs)"
| "json_strings (JObject ms) = concat (map (\<lambda>(k, v). k # json_strings v) ms)"
| "json_strings _ = []"

fun json_numbers :: "json \<Rightarrow> double list" where
  "json_numbers (JNumber d) = [d]"
| "json_numbers (JArray xs) = concat (map json_numbers xs)"
| "json_numbers (JObject ms) = concat (map (\<lambda>(k, v). json_numbers v) ms)"
| "json_numbers _ = []"

definition json_cstrings :: "json \<Rightarrow> bool" where
  "json_cstrings v \<longleftrightarrow> (\<forall>s \<in> set (json_strings v). nul_free s)"

lemma json_cstrings_simps [simp]:
  "json_cstrings JNull" "json_cstrings (JBool b)" "json_cstrings (JNumber d)"
  "json_cstrings (JString s) \<longleftrightarrow> nul_free s"
  "json_cstrings (JArray xs) \<longleftrightarrow> (\<forall>x \<in> set xs. json_cstrings x)"
  "json_cstrings (JObject ms) \<longleftrightarrow> (\<forall>(k, v) \<in> set ms. nul_free k \<and> json_cstrings v)"
  by (auto simp: json_cstrings_def)

text \<open>What the encoder may be given: C strings and IEEE doubles.\<close>

definition json_ok :: "json \<Rightarrow> bool" where
  "json_ok v \<longleftrightarrow> json_cstrings v \<and> (\<forall>d \<in> set (json_numbers v). dbl_ok d)"

lemma json_ok_simps [simp]:
  "json_ok JNull" "json_ok (JBool b)" "json_ok (JNumber d) \<longleftrightarrow> dbl_ok d"
  "json_ok (JString s) \<longleftrightarrow> nul_free s"
  "json_ok (JArray xs) \<longleftrightarrow> (\<forall>x \<in> set xs. json_ok x)"
  "json_ok (JObject ms) \<longleftrightarrow> (\<forall>(k, v) \<in> set ms. nul_free k \<and> json_ok v)"
  by (auto simp: json_ok_def)

end
