(* ===== verification/JsonScan.thy ===== *)
theory JsonScan
  imports JsonTree NumText StringBuffer
begin

text \<open>
  The lexical level of the decoder of \<open>src/util/json.c\<close>: white space, literals, hexadecimal
  digits, numbers and strings. A scanner takes the memory from the pointer on. It has no result
  (\<open>None\<close>) where the code would read or write outside a buffer; otherwise it rejects the text or
  returns a value and the advanced pointer.
\<close>

datatype 'a presult = Rejected | Parsed 'a "byte list"

type_synonym 'a scanner = "byte list \<Rightarrow> 'a presult option"

section \<open>The code\<close>

definition is_space :: "byte \<Rightarrow> bool" where
  "is_space c \<longleftrightarrow> c = 0x09 \<or> c = 0x0A \<or> c = 0x0D \<or> c = 0x20"

fun skip_space :: "byte list \<Rightarrow> byte list option" where
  "skip_space [] = None"
| "skip_space (c # s) = (if is_space c then skip_space s else Some (c # s))"

fun expect_literal :: "byte list \<Rightarrow> unit scanner" where
  "expect_literal [] s = Some (Parsed () s)"
| "expect_literal (k # str) s = do {
     c \<leftarrow> deref s;
     if c \<noteq> k then Some Rejected else expect_literal str (tl s) }"

definition hex_digit :: "byte \<Rightarrow> u16 option" where
  "hex_digit c =
    (if c \<ge> 0x30 \<and> c \<le> 0x39 then Some (ucast (c - 0x30))
     else if c \<ge> 0x41 \<and> c \<le> 0x46 then Some (ucast (c - 0x41 + 10))
     else if c \<ge> 0x61 \<and> c \<le> 0x66 then Some (ucast (c - 0x61 + 10))
     else None)"

fun parse_hex_digits :: "nat \<Rightarrow> u16 \<Rightarrow> u16 scanner" where
  "parse_hex_digits 0 ret s = Some (Parsed ret s)"
| "parse_hex_digits (Suc n) ret s = do {
     c \<leftarrow> deref s;
     case hex_digit c of
       None \<Rightarrow> Some Rejected
     | Some tmp \<Rightarrow> parse_hex_digits n (push_bit 4 ret + tmp) (tl s) }"

definition parse_hex16 :: "u16 scanner" where
  "parse_hex16 = parse_hex_digits 4 0"

text \<open>The loop \<open>do s++; while (is_digit(*s))\<close>, entered on a digit.\<close>

fun skip_digits :: "byte list \<Rightarrow> byte list option" where
  "skip_digits [] = None"
| "skip_digits (c # s) = (if is_digit c then skip_digits s else Some (c # s))"

definition digits1 :: "unit scanner" where
  "digits1 s = do {
     c \<leftarrow> deref s;
     if \<not> is_digit c then Some Rejected
     else do { s \<leftarrow> skip_digits (tl s); Some (Parsed () s) } }"

definition number_int :: "unit scanner" where
  "number_int s = do {
     c \<leftarrow> deref s;
     let s = (if c = 0x2D then tl s else s);
     c \<leftarrow> deref s;
     if c = 0x30 then Some (Parsed () (tl s)) else digits1 s }"

definition number_frac :: "unit scanner" where
  "number_frac s = do {
     c \<leftarrow> deref s;
     if c = 0x2E then digits1 (tl s) else Some (Parsed () s) }"

definition number_exp :: "unit scanner" where
  "number_exp s = do {
     c \<leftarrow> deref s;
     if c = 0x45 \<or> c = 0x65 then do {
       c \<leftarrow> deref (tl s);
       if c = 0x2B \<or> c = 0x2D then digits1 (tl (tl s)) else digits1 (tl s) }
     else Some (Parsed () s) }"

definition and_then :: "'a presult option \<Rightarrow> ('a \<Rightarrow> 'b scanner) \<Rightarrow> 'b presult option" where
  "and_then r f = do {
     p \<leftarrow> r;
     case p of Rejected \<Rightarrow> Some Rejected | Parsed v s \<Rightarrow> f v s }"

definition parse_number :: "double scanner" where
  "parse_number s =
    and_then (number_int s) (\<lambda>_ s1.
    and_then (number_frac s1) (\<lambda>_ s2.
    and_then (number_exp s2) (\<lambda>_ s3. Some (Parsed (strtod s) s3))))"

definition number_is_valid :: "byte list \<Rightarrow> bool option" where
  "number_is_valid num = do {
     r \<leftarrow> parse_number num;
     case r of
       Rejected \<Rightarrow> Some False
     | Parsed _ s \<Rightarrow> do { c \<leftarrow> deref s; Some (c = 0) } }"

section \<open>Strings\<close>

text \<open>The escape \<open>\\u\<close>, behind the \<open>u\<close>: the bytes of the character.\<close>

definition parse_unicode :: "byte list scanner" where
  "parse_unicode s =
    and_then (parse_hex16 s) (\<lambda>uc s.
      if uc \<ge> 0xD800 \<and> uc \<le> 0xDFFF then do {
        c \<leftarrow> deref s;
        if c \<noteq> 0x5C then Some Rejected
        else do {
          c \<leftarrow> deref (tl s);
          if c \<noteq> 0x75 then Some Rejected
          else and_then (parse_hex16 (tl (tl s))) (\<lambda>lc s.
            case from_surrogate_pair uc lc of
              None \<Rightarrow> Some Rejected
            | Some u \<Rightarrow> Some (Parsed (utf8_write_char u) s)) } }
      else if uc = 0 then Some Rejected
      else Some (Parsed (utf8_write_char (ucast uc)) s))"

definition parse_escape :: "byte list scanner" where
  "parse_escape s = do {
     c \<leftarrow> deref s;
     let s = tl s;
     if c = 0x22 \<or> c = 0x5C \<or> c = 0x2F then Some (Parsed [c] s)
     else if c = 0x62 then Some (Parsed [0x08] s)
     else if c = 0x66 then Some (Parsed [0x0C] s)
     else if c = 0x6E then Some (Parsed [0x0A] s)
     else if c = 0x72 then Some (Parsed [0x0D] s)
     else if c = 0x74 then Some (Parsed [0x09] s)
     else if c = 0x75 then parse_unicode s
     else Some Rejected }"

text \<open>One pass of the loop of \<open>parse_string\<close>: the bytes written to the buffer.\<close>

definition parse_char :: "byte list scanner" where
  "parse_char s = do {
     c \<leftarrow> deref s;
     if c = 0x5C then parse_escape (tl s)
     else if c \<le> 0x1F then Some Rejected
     else do {
       len \<leftarrow> utf8_validate_cz s;
       if len = 0 then Some Rejected
       else if len \<le> length s then Some (Parsed (take len s) (drop len s))
       else None } }"

text \<open>Without \<open>out\<close>, every character is written to the same buffer of four bytes.\<close>

definition throwaway_buffer :: sb where
  "throwaway_buffer = \<lparr>sb_text = [], sb_alloc = 3\<rparr>"

partial_function (option) parse_string_loop :: "bool \<Rightarrow> sb \<Rightarrow> sb scanner" where
  "parse_string_loop out b s = do {
     c \<leftarrow> deref s;
     if c = 0x22 then Some (Parsed b (tl s))
     else do {
       r \<leftarrow> parse_char s;
       case r of
         Rejected \<Rightarrow> Some Rejected
       | Parsed w s' \<Rightarrow> do {
           b \<leftarrow> sb_store b w;
           b \<leftarrow> (if out then sb_need b 4 else Some throwaway_buffer);
           parse_string_loop out b s' } } }"

definition parse_string :: "bool \<Rightarrow> byte list scanner" where
  "parse_string out s = do {
     c \<leftarrow> deref s;
     if c \<noteq> 0x22 then Some Rejected
     else do {
       b \<leftarrow> (if out then sb_need sb_init 4 else Some throwaway_buffer);
       and_then (parse_string_loop out b (tl s)) (\<lambda>b s.
         if out then do {
           m \<leftarrow> sb_finish b;
           str \<leftarrow> cstr m;
           Some (Parsed str s) }
         else Some (Parsed [] s)) } }"

section \<open>What a scanner promises\<close>

text \<open>On memory that holds a terminator a scanner reads no further than the terminator, and what it
  consumes contains none.\<close>

definition scans :: "'a scanner \<Rightarrow> bool" where
  "scans p \<longleftrightarrow>
    (\<forall>m. 0 \<in> set m \<longrightarrow> (\<exists>r. p m = Some r)) \<and>
    (\<forall>m v m'. p m = Some (Parsed v m') \<longrightarrow> (\<exists>k. m = k @ m' \<and> nul_free k))"

lemma scansI:
  assumes "\<And>m. 0 \<in> set m \<Longrightarrow> \<exists>r. p m = Some r"
    and "\<And>m v m'. p m = Some (Parsed v m') \<Longrightarrow> \<exists>k. m = k @ m' \<and> nul_free k"
  shows "scans p"
  using assms by (simp add: scans_def)

lemma scans_total: "scans p \<Longrightarrow> 0 \<in> set m \<Longrightarrow> \<exists>r. p m = Some r"
  by (simp add: scans_def)

lemma scans_consumes: "scans p \<Longrightarrow> p m = Some (Parsed v m') \<Longrightarrow> \<exists>k. m = k @ m' \<and> nul_free k"
  by (simp add: scans_def)

lemma scans_return [inv_intros]: "scans (\<lambda>s. Some (Parsed v s))"
  by (rule scansI) auto

lemma scans_reject [inv_intros]: "scans (\<lambda>s. Some Rejected)"
  by (rule scansI) auto

lemma and_then_simps [simp]:
  "and_then None f = None" "and_then (Some Rejected) f = Some Rejected"
  "and_then (Some (Parsed v s)) f = f v s"
  by (simp_all add: and_then_def)

lemma and_then_Parsed:
  "and_then r f = Some (Parsed v m) \<longleftrightarrow> (\<exists>w m1. r = Some (Parsed w m1) \<and> f w m1 = Some (Parsed v m))"
  by (cases r) (auto simp: and_then_def split: presult.splits)

lemma and_then_assoc: "and_then (and_then r f) g = and_then r (\<lambda>v s. and_then (f v s) g)"
  by (cases r) (auto simp: and_then_def split: presult.splits)

lemma scans_if [inv_intros]:
  "(P \<Longrightarrow> scans f) \<Longrightarrow> (\<not> P \<Longrightarrow> scans g) \<Longrightarrow> scans (\<lambda>s. if P then f s else g s)"
  by (cases P) simp_all

lemma scans_and_then [inv_intros]:
  assumes p: "scans p" and f: "\<And>v. scans (f v)"
  shows "scans (\<lambda>s. and_then (p s) f)"
proof (rule scansI)
  fix m :: "byte list" assume m: "0 \<in> set m"
  from scans_total [OF p m] obtain r where r: "p m = Some r" by blast
  show "\<exists>r. and_then (p m) f = Some r"
  proof (cases r)
    case Rejected
    with r show ?thesis by simp
  next
    case (Parsed v m1)
    from scans_consumes [OF p r [unfolded Parsed]] m have "0 \<in> set m1" by (auto simp: nul_free_def)
    from scans_total [OF f this] r Parsed show ?thesis by simp
  qed
next
  fix m v m' assume "and_then (p m) f = Some (Parsed v m')"
  then obtain w m1 where 1: "p m = Some (Parsed w m1)" "f w m1 = Some (Parsed v m')"
    by (auto simp: and_then_Parsed)
  from scans_consumes [OF p 1(1)] scans_consumes [OF f 1(2)]
  show "\<exists>k. m = k @ m' \<and> nul_free k" by (metis append.assoc nul_free_simps(3))
qed

text \<open>A scanner by cases on the byte at the pointer. On the terminator it may only reject, or
  return without passing it.\<close>

lemma scans_look:
  assumes f: "\<And>c. c \<noteq> 0 \<Longrightarrow> P c \<Longrightarrow> scans (\<lambda>s. p (c # s))"
    and z: "\<And>c s. c = 0 \<or> \<not> P c \<Longrightarrow> p (c # s) = Some Rejected \<or> (\<exists>v. p (c # s) = Some (Parsed v (c # s)))"
    and n: "p [] = None"
  shows "scans p"
proof (rule scansI)
  fix m :: "byte list" assume m: "0 \<in> set m"
  then obtain c s where [simp]: "m = c # s" by (cases m) auto
  show "\<exists>r. p m = Some r"
    using z [of c s] scans_total [OF f, of c s] m by (cases "c = 0 \<or> \<not> P c") auto
next
  fix m v m' assume p: "p m = Some (Parsed v m')"
  with n obtain c s where [simp]: "m = c # s" by (cases m) auto
  show "\<exists>k. m = k @ m' \<and> nul_free k"
  proof (cases "c = 0 \<or> \<not> P c")
    case True
    with z [of c s] p show ?thesis by auto
  next
    case False
    then have c: "c \<noteq> 0" "P c" by auto
    from scans_consumes [OF f [OF c], of s v m'] p obtain k where "s = k @ m'" "nul_free k" by auto
    with c show ?thesis by (intro exI [of _ "c # k"]) simp
  qed
qed

lemmas scans_byte = scans_look [where P = "\<lambda>_. True", simplified]

lemma scans_expect_literal: "nul_free str \<Longrightarrow> scans (expect_literal str)"
proof (induction str)
  case Nil
  show ?case by (rule scansI) auto
next
  case (Cons k str)
  show ?case
  proof (rule scans_byte)
    fix c :: byte assume "c \<noteq> 0"
    show "scans (\<lambda>s. expect_literal (k # str) (c # s))"
      using Cons by (cases "c = k") (simp_all add: scans_reject)
  qed (use Cons.prems in auto)
qed

lemma scans_hex: "scans (parse_hex_digits n ret)"
proof (induction n arbitrary: ret)
  case 0
  show ?case by (rule scansI) auto
next
  case (Suc n)
  show ?case
  proof (rule scans_byte)
    fix c :: byte
    show "scans (\<lambda>s. parse_hex_digits (Suc n) ret (c # s))"
      by (cases "hex_digit c") (simp_all add: scans_reject Suc.IH)
  qed (auto simp: hex_digit_def)
qed

lemma skip_digits_spec:
  "0 \<in> set m \<Longrightarrow> skip_digits m = Some (dropWhile is_digit m)"
  "skip_digits m = Some m' \<Longrightarrow> m' = dropWhile is_digit m"
  by (induction m) (auto split: if_splits simp: is_digit_def)

lemma takeWhile_nul_free: "\<not> P 0 \<Longrightarrow> nul_free (takeWhile P m)"
  by (auto simp: nul_free_def dest: set_takeWhileD)

lemma skip_space_spec:
  "0 \<in> set m \<Longrightarrow> skip_space m = Some (dropWhile is_space m)"
  "skip_space m = Some m' \<Longrightarrow> m' = dropWhile is_space m"
  by (induction m) (auto split: if_splits simp: is_space_def)

lemma scans_skip:
  assumes "\<And>m. 0 \<in> set m \<Longrightarrow> f m = Some (dropWhile P m)"
    and "\<And>m m'. f m = Some m' \<Longrightarrow> m' = dropWhile P m" and "\<not> P (0::byte)"
  shows "scans (\<lambda>s. do { s \<leftarrow> f s; Some (Parsed () s) })"
proof (rule scansI)
  fix m :: "byte list" and v m' assume "do { s \<leftarrow> f m; Some (Parsed () s) } = Some (Parsed v m')"
  then have "m' = dropWhile P m" using assms(2) by (auto simp: bind_eq_Some_conv)
  then show "\<exists>k. m = k @ m' \<and> nul_free k"
    using takeWhile_nul_free [of P m] assms(3) by (metis takeWhile_dropWhile_id)
qed (simp add: assms(1))

lemma skip_digits_scans: "scans (\<lambda>s. do { s \<leftarrow> skip_digits s; Some (Parsed () s) })"
  by (rule scans_skip [OF skip_digits_spec]) (simp_all add: is_digit_def)

lemma scans_digits1_digit: "scans (\<lambda>s. digits1 (c # s))"
  by (cases "is_digit c") (simp_all add: digits1_def scans_reject skip_digits_scans)

lemma digits1_NUL: "digits1 [] = None" "digits1 (0 # s) = Some Rejected"
  by (simp_all add: digits1_def is_digit_def)

lemma scans_digits1 [inv_intros]: "scans digits1"
  by (rule scans_byte) (simp_all add: scans_digits1_digit digits1_NUL)

lemma scans_number_int [inv_intros]: "scans number_int"
proof -
  let ?h = "\<lambda>s. do { c \<leftarrow> deref s; if c = 0x30 then Some (Parsed () (tl s)) else digits1 s }"
  have h: "scans (\<lambda>s. ?h (c # s))" for c :: byte
    by (cases "c = 0x30") (simp_all add: scans_return scans_digits1_digit)
  have h': "scans ?h" by (rule scans_byte [OF h]) (simp_all add: digits1_NUL)
  have "number_int (c # s) = ?h (if c = 0x2D then s else c # s)" for c s
    by (simp add: number_int_def)
  then have "scans (\<lambda>s. number_int (c # s))" for c
    using h h' by (cases "c = 0x2D") (simp_all cong: if_cong)
  then show ?thesis by (rule scans_byte) (simp_all add: number_int_def digits1_NUL)
qed

lemma scans_number_frac [inv_intros]: "scans number_frac"
  by (rule scans_look [where P = "\<lambda>c. c = 0x2E"]) (auto simp: number_frac_def scans_digits1)

lemma scans_number_exp [inv_intros]: "scans number_exp"
proof -
  let ?h = "\<lambda>s. do { c \<leftarrow> deref s; if c = 0x2B \<or> c = 0x2D then digits1 (tl s) else digits1 s }"
  have h: "scans ?h"
  proof (rule scans_byte)
    fix c :: byte
    show "scans (\<lambda>s. ?h (c # s))"
      by (cases "c = 0x2B \<or> c = 0x2D") (auto simp: scans_digits1 scans_digits1_digit)
  qed (simp_all add: digits1_NUL)
  show ?thesis
  proof (rule scans_look [where P = "\<lambda>c. c = 0x45 \<or> c = 0x65"])
    fix c :: byte assume "c = 0x45 \<or> c = 0x65"
    then show "scans (\<lambda>s. number_exp (c # s))" using h by (simp add: number_exp_def cong: if_cong)
  qed (auto simp: number_exp_def)
qed

lemma scans_value:
  assumes "scans p"
  shows "scans (\<lambda>s. and_then (p s) (\<lambda>v s'. Some (Parsed (g s v) s')))"
proof (rule scansI)
  fix m :: "byte list" assume "0 \<in> set m"
  from scans_total [OF assms this] obtain r where "p m = Some r" by blast
  then show "\<exists>r. and_then (p m) (\<lambda>v s'. Some (Parsed (g m v) s')) = Some r" by (cases r) simp_all
qed (auto simp: and_then_Parsed dest: scans_consumes [OF assms])

lemma scans_parse_number: "scans parse_number"
proof -
  have "scans (\<lambda>s. and_then (number_int s) (\<lambda>_ s1.
      and_then (number_frac s1) (\<lambda>_ s2. and_then (number_exp s2) (\<lambda>_ s3. Some (Parsed () s3)))))"
    by (intro inv_intros)
  from scans_value [OF this, of "\<lambda>s _. strtod s"] show ?thesis
    by (simp add: parse_number_def [abs_def] and_then_assoc)
qed

lemma scans_parse_unicode: "scans parse_unicode"
proof -
  let ?tail = "\<lambda>uc s. and_then (parse_hex16 s) (\<lambda>lc s. case from_surrogate_pair uc lc of
              None \<Rightarrow> Some Rejected | Some u \<Rightarrow> Some (Parsed (utf8_write_char u) s))"
  have tail: "scans (?tail uc)" for uc
  proof (rule scans_and_then)
    show "scans (\<lambda>s. case from_surrogate_pair uc lc of
              None \<Rightarrow> Some Rejected | Some u \<Rightarrow> Some (Parsed (utf8_write_char u) s))" for lc
      by (cases "from_surrogate_pair uc lc") (simp_all add: scans_return scans_reject)
  qed (simp add: parse_hex16_def scans_hex)
  let ?u = "\<lambda>uc s. do { c \<leftarrow> deref s; if c \<noteq> 0x75 then Some Rejected else ?tail uc (tl s) }"
  have u: "scans (?u uc)" for uc
  proof (rule scans_byte)
    show "scans (\<lambda>s. ?u uc (c # s))" for c :: byte
      by (cases "c = 0x75") (simp_all add: tail scans_reject)
  qed simp_all
  let ?b = "\<lambda>uc s. do { c \<leftarrow> deref s; if c \<noteq> 0x5C then Some Rejected else ?u uc (tl s) }"
  have b: "scans (?b uc)" for uc
  proof (rule scans_byte)
    show "scans (\<lambda>s. ?b uc (c # s))" for c :: byte
      by (cases "c = 0x5C") (simp_all add: u scans_reject cong: if_cong)
  qed simp_all
  show ?thesis
    unfolding parse_unicode_def [abs_def]
  proof (rule scans_and_then)
    show "scans (\<lambda>s. if uc \<ge> 0xD800 \<and> uc \<le> 0xDFFF then ?b uc s
      else if uc = 0 then Some Rejected else Some (Parsed (utf8_write_char (ucast uc)) s))" for uc
      by (intro scans_if b scans_reject scans_return)
  qed (simp add: parse_hex16_def scans_hex)
qed

lemma scans_parse_escape: "scans parse_escape"
proof (rule scans_byte)
  fix c :: byte
  show "scans (\<lambda>s. parse_escape (c # s))"
    unfolding parse_escape_def Let_def deref.simps list.sel Option.bind.simps
    by (intro scans_if scans_return scans_reject scans_parse_unicode)
qed (simp_all add: parse_escape_def)

section \<open>Characters of strings\<close>

lemma unat_ucast_u16: "unat (ucast (c :: u16) :: u32) = unat c"
proof -
  have "unat c < 0x10000" using unsigned_less [where w = c] by simp
  then show ?thesis by (simp add: unsigned_ucast_eq take_bit_nat_eq_self_iff)
qed

lemma surrogate_free_code_point:
  assumes "\<not> (uc \<ge> 0xD800 \<and> uc \<le> 0xDFFF)"
  shows "code_point (unat (ucast (uc :: u16) :: u32))"
proof -
  have "unat uc < 0x10000" using unsigned_less [where w = uc] by simp
  with assms show ?thesis by (auto simp: code_point_def word_le_nat_alt unat_ucast_u16)
qed

lemma utf8_write_ascii: "c \<le> 0x7F \<Longrightarrow> utf8_write_char (ucast (c :: byte)) = [c]"
proof -
  assume c: "c \<le> 0x7F"
  have "(ucast c :: u32) \<le> 0x7F" using c by (simp add: word_le_nat_alt unat_ucast_byte)
  moreover have "(ucast (ucast c :: u32) :: byte) = c"
    using byte_lt [of c] by (simp add: word_unat_eq_iff unsigned_ucast_eq take_bit_nat_eq_self_iff unsigned_take_bit_eq)
  ultimately show ?thesis by (simp add: utf8_write_char_def)
qed

lemma ascii_code_point: "c \<le> 0x7F \<Longrightarrow> code_point (unat (ucast (c :: byte) :: u32))"
  by (auto simp: code_point_def word_le_nat_alt unat_ucast_byte)

lemma ucast_zero_iff: "(ucast (c :: byte) :: u32) = 0 \<longleftrightarrow> c = 0" "(ucast (d :: u16) :: u32) = 0 \<longleftrightarrow> d = 0"
  by (auto simp: word_unat_eq_iff unat_ucast_byte unat_ucast_u16)

text \<open>What one pass of the string loop writes: the encoding of a code point.\<close>

definition encodes :: "byte list \<Rightarrow> bool" where
  "encodes w \<longleftrightarrow> (\<exists>u. w = utf8_write_char u \<and> code_point (unat u) \<and> u \<noteq> 0)"

lemma encodes_ascii: "c \<le> 0x7F \<Longrightarrow> c \<noteq> 0 \<Longrightarrow> encodes [c]"
  unfolding encodes_def
  by (rule exI [of _ "ucast c"]) (simp add: utf8_write_ascii ascii_code_point ucast_zero_iff)

lemma encodes_length: "encodes w \<Longrightarrow> length w \<le> 4"
  by (auto simp: encodes_def utf8_write_char_def)

lemma encodes_valid: "encodes w \<Longrightarrow> valid_utf8 (w @ s) \<longleftrightarrow> valid_utf8 s"
  by (auto simp: encodes_def valid_utf8_simps)

lemma parse_unicode_encodes: "parse_unicode s = Some (Parsed w s') \<Longrightarrow> encodes w"
proof -
  assume p: "parse_unicode s = Some (Parsed w s')"
  then obtain uc s1 where 1: "parse_hex16 s = Some (Parsed uc s1)"
    by (auto simp: parse_unicode_def and_then_Parsed)
  show ?thesis
  proof (cases "uc \<ge> 0xD800 \<and> uc \<le> 0xDFFF")
    case True
    with p 1 obtain lc u where u: "from_surrogate_pair uc lc = Some u" "w = utf8_write_char u"
      by (auto simp: parse_unicode_def and_then_Parsed bind_eq_Some_conv split: if_splits option.splits)
    from from_surrogate_range [OF u(1)] have "code_point (unat u)" "u \<noteq> 0"
      by (auto simp: code_point_def)
    with u show ?thesis by (auto simp: encodes_def)
  next
    case False
    with p 1 have "uc \<noteq> 0" "w = utf8_write_char (ucast uc)"
      by (auto simp: parse_unicode_def split: if_splits)
    with surrogate_free_code_point [OF False] show ?thesis
      by (auto simp: encodes_def ucast_zero_iff)
  qed
qed

lemma parse_escape_encodes: "parse_escape s = Some (Parsed w s') \<Longrightarrow> encodes w"
  by (auto simp: parse_escape_def bind_eq_Some_conv Let_def split: if_splits
      intro!: encodes_ascii dest: parse_unicode_encodes)

lemma parse_char_ok:
  assumes "0 \<in> set m"
  shows "\<exists>r. parse_char m = Some r \<and>
    (\<forall>w m'. r = Parsed w m' \<longrightarrow> encodes w \<and> (\<exists>k. m = k @ m' \<and> k \<noteq> [] \<and> nul_free k))"
proof -
  from assms obtain c s where m [simp]: "m = c # s" by (cases m) auto
  consider "c = 0x5C" | "c \<noteq> 0x5C" "c \<le> 0x1F" | "c \<noteq> 0x5C" "\<not> c \<le> 0x1F" by blast
  then show ?thesis
  proof cases
    case 1
    with assms have "0 \<in> set s" by auto
    from scans_total [OF scans_parse_escape this] obtain r where r: "parse_escape s = Some r" by blast
    with 1 have p: "parse_char m = Some r" by (simp add: parse_char_def)
    { fix w m' assume "r = Parsed w m'"
      with r have e: "encodes w" and "\<exists>k. s = k @ m' \<and> nul_free k"
        using parse_escape_encodes scans_consumes [OF scans_parse_escape] by blast+
      then obtain k where "s = k @ m'" "nul_free k" by blast
      with 1 have "encodes w \<and> (\<exists>k. m = k @ m' \<and> k \<noteq> [] \<and> nul_free k)"
        by (intro conjI e exI [of _ "c # k"]) auto }
    with p show ?thesis by blast
  next
    case 2
    then show ?thesis by (auto simp: parse_char_def)
  next
    case 3
    from utf8_validate_cz_terminated [OF assms] obtain n where n: "utf8_validate_cz m = Some n" by blast
    show ?thesis
    proof (cases "n = 0")
      case True
      with n 3 show ?thesis by (auto simp: parse_char_def)
    next
      case False
      from utf8_validate_sound [OF n False] obtain u r
        where u: "m = utf8_write_char u @ r" "code_point (unat u)" "n = length (utf8_write_char u)" by blast
      have "u \<noteq> 0" using u 3 by (auto simp: utf8_write_zero)
      with u have e: "encodes (utf8_write_char u)" "nul_free (utf8_write_char u)"
        by (auto simp: encodes_def utf8_write_nul_free)
      have "take n m = utf8_write_char u" "drop n m = r" "n \<le> length m" using u by simp_all
      then have "parse_char m = Some (Parsed (utf8_write_char u) r)"
        using 3 n False by (simp add: parse_char_def)
      with e u(1) utf8_write_nonempty show ?thesis by auto
    qed
  qed
qed

section \<open>Strings\<close>

text \<open>The loop of \<open>parse_string\<close> with a buffer and without one: both stay inside their buffers, end,
  and take the same way through the text.\<close>

lemma parse_string_loop_ok:
  assumes "0 \<in> set m" "sb_room b 4"
  shows "(parse_string_loop True b m = Some Rejected \<and>
      parse_string_loop False throwaway_buffer m = Some Rejected) \<or>
    (\<exists>b' t k m'. parse_string_loop True b m = Some (Parsed b' m') \<and>
      parse_string_loop False throwaway_buffer m = Some (Parsed throwaway_buffer m') \<and>
      m = k @ m' \<and> k \<noteq> [] \<and> nul_free k \<and> sb_room b' 4 \<and> sb_text b' = sb_text b @ t \<and> valid_utf8 t)"
  using assms
proof (induction m arbitrary: b rule: length_induct)
  case (1 m)
  from "1.prems" obtain c s where m [simp]: "m = c # s" by (cases m) auto
  show ?case
  proof (cases "c = 0x22")
    case True
    then have FF: "parse_string_loop out b m = Some (Parsed b s)" for out b
      by (subst parse_string_loop.simps) simp
    have "m = [c] @ s" "[c] \<noteq> []" "nul_free [c]" "sb_text b = sb_text b @ []" "valid_utf8 []"
      using True by (simp_all add: valid_utf8_simps)
    with FF show ?thesis using "1.prems"(2) by blast
  next
    case c: False
    from parse_char_ok [OF "1.prems"(1)] obtain r where r: "parse_char m = Some r" and
      p: "\<And>w m'. r = Parsed w m' \<Longrightarrow> encodes w \<and> (\<exists>k. m = k @ m' \<and> k \<noteq> [] \<and> nul_free k)" by blast
    show ?thesis
    proof (cases r)
      case Rejected
      with r c have "parse_string_loop out b m = Some Rejected" for out b
        by (subst parse_string_loop.simps) simp
      then show ?thesis by simp
    next
      case (Parsed w m1)
      from p [OF Parsed] obtain k where w: "encodes w" and k: "m = k @ m1" "k \<noteq> []" "nul_free k" by blast
      from sb_store_room [OF "1.prems"(2) encodes_length [OF w]] obtain b1
        where b1: "sb_store b w = Some b1" "sb_ok b1" "sb_text b1 = sb_text b @ w" using sb_room_ok by blast
      from sb_need_room [OF b1(2), of 4] obtain b2
        where b2: "sb_need b1 4 = Some b2" "sb_room b2 4" "sb_text b2 = sb_text b @ w" using b1 by auto
      have "sb_store throwaway_buffer w = Some \<lparr>sb_text = w, sb_alloc = 3\<rparr>"
        using encodes_length [OF w] by (simp add: sb_store_def throwaway_buffer_def)
      then have F: "parse_string_loop False throwaway_buffer m = parse_string_loop False throwaway_buffer m1"
        using r Parsed c by (subst parse_string_loop.simps) simp
      have T: "parse_string_loop True b m = parse_string_loop True b2 m1"
        using r Parsed c b1 b2 by (subst parse_string_loop.simps) simp
      have "length m1 < length m" "0 \<in> set m1" using k "1.prems" by (auto simp: nul_free_def)
      with "1.IH" b2(2) have IH: "(parse_string_loop True b2 m1 = Some Rejected \<and>
          parse_string_loop False throwaway_buffer m1 = Some Rejected) \<or>
        (\<exists>b' t k m'. parse_string_loop True b2 m1 = Some (Parsed b' m') \<and>
          parse_string_loop False throwaway_buffer m1 = Some (Parsed throwaway_buffer m') \<and>
          m1 = k @ m' \<and> k \<noteq> [] \<and> nul_free k \<and> sb_room b' 4 \<and> sb_text b' = sb_text b2 @ t \<and> valid_utf8 t)"
        by blast
      then show ?thesis
      proof (elim disjE exE)
        fix b' t k' m'
        assume "parse_string_loop True b2 m1 = Some (Parsed b' m') \<and>
          parse_string_loop False throwaway_buffer m1 = Some (Parsed throwaway_buffer m') \<and>
          m1 = k' @ m' \<and> k' \<noteq> [] \<and> nul_free k' \<and> sb_room b' 4 \<and> sb_text b' = sb_text b2 @ t \<and> valid_utf8 t"
        moreover from this have "m = (k @ k') @ m'" "k @ k' \<noteq> []" "nul_free (k @ k')"
          "sb_text b' = sb_text b @ (w @ t)" "valid_utf8 (w @ t)"
          using k b2 w by (simp_all add: encodes_valid)
        ultimately show ?thesis unfolding T F by blast
      qed (auto simp only: T F)
    qed
  qed
qed

lemma valid_utf8_nul_free: "valid_utf8 s \<Longrightarrow> nul_free s"
proof -
  have "\<forall>u \<in> set us. code_point (unat u) \<and> u \<noteq> 0 \<Longrightarrow> nul_free (concat (map utf8_write_char us))" for us
    by (induction us) (simp_all add: utf8_write_nul_free)
  then show "valid_utf8 s \<Longrightarrow> nul_free s" by (auto simp: valid_utf8_def)
qed

lemma parse_string_ok:
  assumes "0 \<in> set m"
  shows "(parse_string True m = Some Rejected \<and> parse_string False m = Some Rejected) \<or>
    (\<exists>str k m'. parse_string True m = Some (Parsed str m') \<and> parse_string False m = Some (Parsed [] m') \<and>
      m = k @ m' \<and> k \<noteq> [] \<and> nul_free k \<and> valid_utf8 str)"
proof -
  from assms obtain c s where m [simp]: "m = c # s" by (cases m) auto
  show ?thesis
  proof (cases "c = 0x22")
    case False
    then show ?thesis by (simp add: parse_string_def)
  next
    case True
    with assms have s: "0 \<in> set s" by auto
    from sb_need_room [OF sb_init_ok(1), of 4] obtain b
      where b: "sb_need sb_init 4 = Some b" "sb_room b 4" "sb_text b = []" by (auto simp: sb_init_ok)
    from parse_string_loop_ok [OF s b(2)] show ?thesis
    proof (elim disjE exE)
      fix b' t k m'
      assume l: "parse_string_loop True b s = Some (Parsed b' m') \<and>
        parse_string_loop False throwaway_buffer s = Some (Parsed throwaway_buffer m') \<and>
        s = k @ m' \<and> k \<noteq> [] \<and> nul_free k \<and> sb_room b' 4 \<and> sb_text b' = sb_text b @ t \<and> valid_utf8 t"
      then have t: "sb_finish b' = Some (t @ [0])" "cstr (t @ [0]) = Some t"
        using b sb_finish_ok [OF sb_room_ok, of b' 4] by (simp_all add: cstr_terminated valid_utf8_nul_free)
      from l have "m = (c # k) @ m'" "c # k \<noteq> []" "nul_free (c # k)" using True by simp_all
      moreover have "parse_string True m = Some (Parsed t m')" "parse_string False m = Some (Parsed [] m')"
        using True conjunct1 [OF l] conjunct1 [OF conjunct2 [OF l]] b t by (simp_all add: parse_string_def)
      ultimately show ?thesis using l by blast
    qed (use True b in \<open>simp add: parse_string_def\<close>)
  qed
qed

section \<open>Numbers: the scanner accepts exactly the grammar\<close>

definition stops :: "byte set \<Rightarrow> byte list \<Rightarrow> bool" where
  "stops cs t \<longleftrightarrow> t \<noteq> [] \<and> \<not> is_digit (hd t) \<and> hd t \<notin> cs"

lemma stops_mono: "stops cs t \<Longrightarrow> ds \<subseteq> cs \<Longrightarrow> stops ds t"
  by (auto simp: stops_def)

lemma skip_digits_stops: "list_all is_digit ds \<Longrightarrow> stops {} t \<Longrightarrow> skip_digits (ds @ t) = Some t"
  by (induction ds; cases t) (auto simp: stops_def)

lemma digits1_stops: "list_all is_digit ds \<Longrightarrow> ds \<noteq> [] \<Longrightarrow> stops {} t \<Longrightarrow> digits1 (ds @ t) = Some (Parsed () t)"
  by (cases ds) (auto simp: digits1_def skip_digits_stops)

lemma digits1_inv: "digits1 m = Some (Parsed () m') \<Longrightarrow> \<exists>ds. m = ds @ m' \<and> ds \<noteq> [] \<and> list_all is_digit ds"
proof -
  assume d: "digits1 m = Some (Parsed () m')"
  then obtain c s where m: "m = c # s" "is_digit c" "skip_digits s = Some m'"
    by (auto simp: digits1_def bind_eq_Some_conv c_simps split: if_splits)
  then have "m = (c # takeWhile is_digit s) @ m'" using skip_digits_spec(2) [of s m'] by simp
  moreover have "list_all is_digit (c # takeWhile is_digit s)"
    using m by (auto simp: list_all_iff dest: set_takeWhileD)
  ultimately show ?thesis by blast
qed

lemma number_int_complete:
  assumes "sg \<in> {[], [0x2D]}" "int_part ip" "stops {} t"
  shows "number_int (sg @ ip @ t) = Some (Parsed () t)"
proof -
  obtain c ds where ip: "ip = c # ds" "c = 0x30 \<and> ds = [] \<or> c \<noteq> 0x30 \<and> is_digit c \<and> list_all is_digit ds"
    using assms(2) by (cases ip) (auto simp: int_part_def)
  then have "c \<noteq> 0x2D" by (auto simp: is_digit_def)
  then show ?thesis
    using assms ip digits1_stops [of ip t] by (auto simp: number_int_def)
qed

lemma number_frac_complete: "frac_part fr \<Longrightarrow> stops {0x2E} t \<Longrightarrow> number_frac (fr @ t) = Some (Parsed () t)"
  using digits1_stops [OF _ _ stops_mono [of "{0x2E}" t "{}"]]
  by (cases t) (auto simp: number_frac_def frac_part_def stops_def)

lemma number_exp_complete: "exp_part ex \<Longrightarrow> stops {0x65, 0x45} t \<Longrightarrow> number_exp (ex @ t) = Some (Parsed () t)"
proof -
  assume ex: "exp_part ex" and t: "stops {0x65, 0x45} t"
  have d: "digits1 (ds @ t) = Some (Parsed () t)" if "list_all is_digit ds" "ds \<noteq> []" for ds
    using digits1_stops that stops_mono [OF t] by blast
  show ?thesis
  proof (cases "ex = []")
    case True
    with t show ?thesis by (cases t) (auto simp: number_exp_def stops_def)
  next
    case False
    with ex obtain e sg xs where e: "ex = e # sg @ xs" "e \<in> {0x65, 0x45}" "sg \<in> {[], [0x2B], [0x2D]}"
      "xs \<noteq> []" "list_all is_digit xs" unfolding exp_part_def by blast
    then obtain c ds where "xs = c # ds" by (cases xs) auto
    note ex' = e [unfolded this]
    then have "c \<noteq> 0x2B" "c \<noteq> 0x2D" using not_digit by auto
    with ex' d [of "c # ds"] show ?thesis by (auto simp: number_exp_def)
  qed
qed

lemma stops_parts:
  "stops {0x2E, 0x65, 0x45} t \<Longrightarrow> frac_part fr \<Longrightarrow> exp_part ex \<Longrightarrow> stops {} (fr @ ex @ t)"
  "stops {0x2E, 0x65, 0x45} t \<Longrightarrow> exp_part ex \<Longrightarrow> stops {0x2E} (ex @ t)"
  by (auto simp: stops_def frac_part_def exp_part_def not_digit)

lemma parse_number_complete:
  assumes "json_number s" "stops {0x2E, 0x65, 0x45} t"
  shows "parse_number (s @ t) = Some (Parsed (strtod (s @ t)) t)"
proof -
  from assms(1) obtain sg ip fr ex where s: "s = sg @ ip @ fr @ ex" "sg \<in> {[], [0x2D]}"
    "int_part ip" "frac_part fr" "exp_part ex" by (auto simp: json_number_def)
  show ?thesis
    using number_int_complete [OF s(2,3) stops_parts(1) [OF assms(2) s(4,5)]]
      number_frac_complete [OF s(4) stops_parts(2) [OF assms(2) s(5)]]
      number_exp_complete [OF s(5) stops_mono [OF assms(2)]]
    unfolding parse_number_def s(1) append_assoc by auto
qed

lemma number_int_sound:
  "number_int m = Some (Parsed u m') \<Longrightarrow> \<exists>sg ip. m = sg @ ip @ m' \<and> sg \<in> {[], [0x2D]} \<and> int_part ip"
proof -
  let ?h = "\<lambda>s. do { c \<leftarrow> deref s; if c = 0x30 then Some (Parsed () (tl s)) else digits1 s }"
  have h: "\<exists>ip. s = ip @ m' \<and> int_part ip" if h: "?h s = Some (Parsed () m')" for s
  proof -
    from h obtain c s1 where s: "s = c # s1" by (auto simp: bind_eq_Some_conv c_simps)
    show ?thesis
    proof (cases "c = 0x30")
      case True
      with h s show ?thesis by (auto simp: int_part_def intro!: exI [of _ "[0x30]"])
    next
      case False
      with h s have "digits1 s = Some (Parsed () m')" by simp
      from digits1_inv [OF this] obtain ds where "s = ds @ m'" "ds \<noteq> []" "list_all is_digit ds" by blast
      moreover from this s False have "hd ds \<noteq> 0x30" by (cases ds) auto
      ultimately show ?thesis by (auto simp: int_part_def)
    qed
  qed
  assume n: "number_int m = Some (Parsed u m')"
  then obtain c s where m: "m = c # s" by (auto simp: number_int_def bind_eq_Some_conv c_simps)
  with n have "?h (if c = 0x2D then s else m) = Some (Parsed () m')"
    by (cases "c = 0x2D") (simp_all add: number_int_def cong: if_cong)
  from h [OF this] obtain ip where "(if c = 0x2D then s else m) = ip @ m'" "int_part ip" by blast
  with m show ?thesis
    by (intro exI [of _ "if c = 0x2D then [c] else []"] exI [of _ ip]) (auto split: if_splits)
qed

lemma number_frac_sound: "number_frac m = Some (Parsed u m') \<Longrightarrow> \<exists>fr. m = fr @ m' \<and> frac_part fr"
proof -
  assume n: "number_frac m = Some (Parsed u m')"
  then obtain c s where m: "m = c # s" by (auto simp: number_frac_def bind_eq_Some_conv c_simps)
  show ?thesis
  proof (cases "c = 0x2E")
    case True
    with n m obtain ds where "s = ds @ m'" "ds \<noteq> []" "list_all is_digit ds"
      using digits1_inv [of s m'] by (auto simp: number_frac_def)
    with m True show ?thesis by (auto simp: frac_part_def intro!: exI [of _ "c # ds"])
  next
    case False
    with n m show ?thesis by (auto simp: number_frac_def frac_part_def)
  qed
qed

lemma number_exp_sound: "number_exp m = Some (Parsed u m') \<Longrightarrow> \<exists>ex. m = ex @ m' \<and> exp_part ex"
proof -
  assume n: "number_exp m = Some (Parsed u m')"
  then obtain c s where m: "m = c # s" by (auto simp: number_exp_def bind_eq_Some_conv c_simps)
  show ?thesis
  proof (cases "c = 0x45 \<or> c = 0x65")
    case True
    with n m obtain d s1 where s: "s = d # s1" "digits1 (if d = 0x2B \<or> d = 0x2D then s1 else s) = Some (Parsed () m')"
      by (auto simp: number_exp_def bind_eq_Some_conv c_simps split: if_splits)
    from digits1_inv [OF this(2)] obtain ds where
      ds: "(if d = 0x2B \<or> d = 0x2D then s1 else s) = ds @ m'" "ds \<noteq> []" "list_all is_digit ds" by blast
    let ?sg = "if d = 0x2B \<or> d = 0x2D then [d] else []"
    have "m = (c # ?sg @ ds) @ m'" using ds(1) s(1) m by (auto split: if_splits)
    moreover have "exp_part (c # ?sg @ ds)" unfolding exp_part_def
      using True ds by (intro disjI2 exI [of _ c] exI [of _ ?sg] exI [of _ ds]) auto
    ultimately show ?thesis by blast
  next
    case False
    with n m show ?thesis by (auto simp: number_exp_def exp_part_def)
  qed
qed

lemma parse_number_sound:
  assumes "parse_number m = Some (Parsed v m')"
  shows "\<exists>s. m = s @ m' \<and> json_number s \<and> v = strtod m"
proof -
  from assms obtain s1 s2 where "number_int m = Some (Parsed () s1)" "number_frac s1 = Some (Parsed () s2)"
    "number_exp s2 = Some (Parsed () m')" "v = strtod m"
    by (auto simp: parse_number_def and_then_Parsed)
  with number_int_sound number_frac_sound number_exp_sound obtain sg ip fr ex
    where "m = sg @ ip @ s1" "sg \<in> {[], [0x2D]}" "int_part ip" "s1 = fr @ s2" "frac_part fr"
      "s2 = ex @ m'" "exp_part ex" "v = strtod m" by metis
  then show ?thesis unfolding json_number_def by (intro exI [of _ "sg @ ip @ fr @ ex"]) auto
qed

lemma number_is_valid_iff:
  assumes "nul_free s"
  shows "number_is_valid (s @ [0]) = Some (json_number s)"
proof (cases "json_number s")
  case True
  then show ?thesis
    using parse_number_complete [of s "[0]"] by (simp add: number_is_valid_def stops_def not_digit)
next
  case False
  from scans_total [OF scans_parse_number, of "s @ [0]"] obtain r where r: "parse_number (s @ [0]) = Some r" by auto
  show ?thesis
  proof (cases r)
    case Rejected
    with r False show ?thesis by (simp add: number_is_valid_def)
  next
    case (Parsed v m)
    with r parse_number_sound obtain n where n: "s @ [0] = n @ m" "json_number n" by metis
    from scans_consumes [OF scans_parse_number, of "s @ [0]" v m] r Parsed n have "nul_free n" by auto
    with nul_free_prefix [of n s "[]" m] n obtain s' where s': "s = n @ s'" "m = s' @ [0]" by auto
    with False n have "s' \<noteq> []" by auto
    with s' assms r Parsed False show ?thesis by (cases s') (auto simp: number_is_valid_def)
  qed
qed

section \<open>White space\<close>

lemma skip_space_terminated:
  assumes "0 \<in> set m"
  shows "\<exists>k m'. skip_space m = Some m' \<and> m = k @ m' \<and> nul_free k \<and> 0 \<in> set m'"
proof -
  have "\<not> is_space 0" by (simp add: is_space_def)
  then have "nul_free (takeWhile is_space m)" by (rule takeWhile_nul_free)
  moreover have "m = takeWhile is_space m @ dropWhile is_space m" by simp
  moreover have "0 \<in> set (dropWhile is_space m)"
    using assms calculation by (metis UnE nul_free_def set_append)
  ultimately show ?thesis using skip_space_spec(1) [OF assms] by blast
qed

lemma skip_space_stay: "m \<noteq> [] \<Longrightarrow> \<not> is_space (hd m) \<Longrightarrow> skip_space m = Some m"
  by (cases m) auto

section \<open>Properties\<close>

text \<open>The test that the emitter applies to every number it prints accepts exactly the texts of the
  JSON number grammar, and never reads past the terminator.\<close>

lemma number_is_valid_decides:
  assumes "nul_free s"
  shows "number_is_valid (s @ [0]) = Some (json_number s)"
  using assms by (rule number_is_valid_iff)

text \<open>C23: the string scanner, on any text that holds a terminator, stays inside the text and inside its
  buffers and ends; with and without an output buffer it accepts the same texts and stops at the
  same place; and what it decodes is valid UTF-8.\<close>

theorem parse_string_safe:
  assumes "0 \<in> set m"
  shows "(parse_string True m = Some Rejected \<and> parse_string False m = Some Rejected) \<or>
    (\<exists>str k m'. parse_string True m = Some (Parsed str m') \<and> parse_string False m = Some (Parsed [] m') \<and>
      m = k @ m' \<and> nul_free k \<and> valid_utf8 str)"
  using parse_string_ok [OF assms] by blast

theorem parse_string_safe_witness:
  "let m = [0x22, 0x5C, 0x75, 0x32, 0x30, 0x61, 0x43, 0x22, 0] in
    (parse_string True m = Some Rejected \<and> parse_string False m = Some Rejected) \<or>
    (\<exists>str k m'. parse_string True m = Some (Parsed str m') \<and> parse_string False m = Some (Parsed [] m') \<and>
      m = k @ m' \<and> nul_free k \<and> valid_utf8 str)"
  unfolding Let_def by (rule parse_string_safe) simp

end
