(* ===== verification/JsonParse.thy ===== *)
theory JsonParse
  imports JsonScan
begin

text \<open>
  The decoder of \<open>src/util/json.c\<close> above the lexical level: \<open>parse_value\<close>, \<open>parse_array\<close> and
  \<open>parse_object\<close>, which call each other, and \<open>json_decode\<close> and \<open>json_validate\<close>. The flag \<open>out\<close> says
  whether the caller passed an output pointer; without one the value is \<open>JNull\<close> and is not used.
  The recursion is bounded by a fuel, one unit per nesting level (each level consumes a bracket, so
  the length of the text is always enough, which \<open>json_decode_total\<close> shows); the loops over
  elements and members take the function that parses a value as an argument and are not bounded:
  a loop that would not end has no result.
\<close>

section \<open>The code\<close>

text \<open>The loop of \<open>parse_array\<close>, from the first element on.\<close>

partial_function (option) parse_elements :: "json scanner \<Rightarrow> json list \<Rightarrow> json list scanner" where
  "parse_elements pv acc s = do {
     r \<leftarrow> pv s;
     case r of
       Rejected \<Rightarrow> Some Rejected
     | Parsed element s \<Rightarrow> do {
         s \<leftarrow> skip_space s;
         c \<leftarrow> deref s;
         if c = 0x5D then Some (Parsed (acc @ [element]) (tl s))
         else if c \<noteq> 0x2C then Some Rejected
         else do {
           s \<leftarrow> skip_space (tl s);
           parse_elements pv (acc @ [element]) s } } }"

definition parse_array :: "json scanner \<Rightarrow> json list scanner" where
  "parse_array pv s = do {
     c \<leftarrow> deref s;
     if c \<noteq> 0x5B then Some Rejected
     else do {
       s \<leftarrow> skip_space (tl s);
       c \<leftarrow> deref s;
       if c = 0x5D then Some (Parsed [] (tl s))
       else parse_elements pv [] s } }"

text \<open>The loop of \<open>parse_object\<close>, from the first key on.\<close>

partial_function (option) parse_members ::
  "json scanner \<Rightarrow> byte list scanner \<Rightarrow> (byte list \<times> json) list \<Rightarrow> (byte list \<times> json) list scanner" where
  "parse_members pv ps acc s = do {
     r \<leftarrow> ps s;
     case r of
       Rejected \<Rightarrow> Some Rejected
     | Parsed key s \<Rightarrow> do {
         s \<leftarrow> skip_space s;
         c \<leftarrow> deref s;
         if c \<noteq> 0x3A then Some Rejected
         else do {
           s \<leftarrow> skip_space (tl s);
           r \<leftarrow> pv s;
           case r of
             Rejected \<Rightarrow> Some Rejected
           | Parsed v s \<Rightarrow> do {
               s \<leftarrow> skip_space s;
               c \<leftarrow> deref s;
               if c = 0x7D then Some (Parsed (acc @ [(key, v)]) (tl s))
               else if c \<noteq> 0x2C then Some Rejected
               else do {
                 s \<leftarrow> skip_space (tl s);
                 parse_members pv ps (acc @ [(key, v)]) s } } } } }"

definition parse_object :: "json scanner \<Rightarrow> byte list scanner \<Rightarrow> (byte list \<times> json) list scanner" where
  "parse_object pv ps s = do {
     c \<leftarrow> deref s;
     if c \<noteq> 0x7B then Some Rejected
     else do {
       s \<leftarrow> skip_space (tl s);
       c \<leftarrow> deref s;
       if c = 0x7D then Some (Parsed [] (tl s))
       else parse_members pv ps [] s } }"

definition built :: "bool \<Rightarrow> ('a \<Rightarrow> json) \<Rightarrow> 'a presult option \<Rightarrow> json presult option" where
  "built out mk r = and_then r (\<lambda>v s. Some (Parsed (if out then mk v else JNull) s))"

fun parse_value :: "nat \<Rightarrow> bool \<Rightarrow> json scanner" where
  "parse_value 0 out s = None"
| "parse_value (Suc n) out s = do {
     c \<leftarrow> deref s;
     if c = 0x6E then built out (\<lambda>_. JNull) (expect_literal (bytes ''null'') s)
     else if c = 0x66 then built out (\<lambda>_. JBool False) (expect_literal (bytes ''false'') s)
     else if c = 0x74 then built out (\<lambda>_. JBool True) (expect_literal (bytes ''true'') s)
     else if c = 0x22 then built out JString (parse_string out s)
     else if c = 0x5B then built out JArray (parse_array (parse_value n out) s)
     else if c = 0x7B then built out JObject (parse_object (parse_value n out) (parse_string out) s)
     else built out JNumber (parse_number s) }"

text \<open>\<open>json_decode\<close>: the outer option is the model's (a read outside the text, a loop without end), the
  inner one is the code's \<open>NULL\<close>.\<close>

definition json_decode :: "byte list \<Rightarrow> json option option" where
  "json_decode json = do {
     s \<leftarrow> skip_space json;
     r \<leftarrow> parse_value (Suc (length s)) True s;
     case r of
       Rejected \<Rightarrow> Some None
     | Parsed ret s \<Rightarrow> do {
         s \<leftarrow> skip_space s;
         c \<leftarrow> deref s;
         Some (if c \<noteq> 0 then None else Some ret) } }"

definition json_validate :: "byte list \<Rightarrow> bool option" where
  "json_validate json = do {
     s \<leftarrow> skip_space json;
     r \<leftarrow> parse_value (Suc (length s)) False s;
     case r of
       Rejected \<Rightarrow> Some False
     | Parsed _ s \<Rightarrow> do {
         s \<leftarrow> skip_space s;
         c \<leftarrow> deref s;
         Some (c = 0) } }"

section \<open>Two runs that agree\<close>

text \<open>
  A parser is used in two modes: with an output it builds a value, without one it only checks. Two
  runs agree on a text when both reject it, or both accept it, stop at the same place behind a
  nonempty stretch without terminator, and the value built is good.
\<close>

definition agree :: "('a \<Rightarrow> bool) \<Rightarrow> 'a presult option \<Rightarrow> 'b presult option \<Rightarrow> byte list \<Rightarrow> bool" where
  "agree good r1 r2 m \<longleftrightarrow> (r1 = Some Rejected \<and> r2 = Some Rejected) \<or>
    (\<exists>v w k m'. r1 = Some (Parsed v m') \<and> r2 = Some (Parsed w m') \<and>
      m = k @ m' \<and> k \<noteq> [] \<and> nul_free k \<and> good v)"

lemma agree_rejected [simp]: "agree good (Some Rejected) (Some Rejected) m"
  by (simp add: agree_def)

lemma agree_parsed: "c \<noteq> 0 \<Longrightarrow> good v \<Longrightarrow> agree good (Some (Parsed v s)) (Some (Parsed w s)) (c # s)"
  by (auto simp: agree_def intro!: exI [of _ "[c]"])

lemma agree_extend: "agree good r1 r2 m \<Longrightarrow> nul_free k \<Longrightarrow> agree good r1 r2 (k @ m)"
  unfolding agree_def by (elim disjE exE) (auto intro!: disjI2)

lemma agree_Cons: "agree good r1 r2 m \<Longrightarrow> c \<noteq> 0 \<Longrightarrow> agree good r1 r2 (c # m)"
  using agree_extend [of good r1 r2 m "[c]"] by simp

lemma agree_space:
  assumes "0 \<in> set m"
    and f: "\<And>c s. 0 \<in> set (c # s) \<Longrightarrow> length (c # s) \<le> length m \<Longrightarrow> agree good (f (c # s)) (g (c # s)) (c # s)"
  shows "agree good (do { s \<leftarrow> skip_space m; f s }) (do { s \<leftarrow> skip_space m; g s }) m"
proof -
  from skip_space_terminated [OF assms(1)] obtain k m1
    where s: "skip_space m = Some m1" "m = k @ m1" "nul_free k" "0 \<in> set m1" by blast
  then obtain c s where m1: "m1 = c # s" by (cases m1) auto
  then have "agree good (f m1) (g m1) m1" using f s by simp
  with s show ?thesis by (simp add: agree_extend)
qed

lemma agree_bind:
  assumes "agree good r1 r2 m" "0 \<in> set m"
    and f: "\<And>v w m'. good v \<Longrightarrow> 0 \<in> set m' \<Longrightarrow> length m' < length m \<Longrightarrow> agree good' (f v m') (g w m') m'"
  shows "agree good'
    (do { r \<leftarrow> r1; case r of Rejected \<Rightarrow> Some Rejected | Parsed v s \<Rightarrow> f v s })
    (do { r \<leftarrow> r2; case r of Rejected \<Rightarrow> Some Rejected | Parsed w s \<Rightarrow> g w s }) m"
  using assms(1) unfolding agree_def [of good]
proof (elim disjE exE)
  fix v w k m'
  assume p: "r1 = Some (Parsed v m') \<and> r2 = Some (Parsed w m') \<and> m = k @ m' \<and> k \<noteq> [] \<and> nul_free k \<and> good v"
  then have "0 \<in> set m'" "length m' < length m" using assms(2) by (auto simp: nul_free_def)
  with f p have "agree good' (f v m') (g w m') m'" by blast
  with p show ?thesis by (simp add: agree_extend)
qed simp

lemma agree_built:
  assumes "agree good r1 r2 m" "\<And>v. good v \<Longrightarrow> good' (mk v)"
  shows "agree good' (built True mk r1) (built False mk' r2) m"
  using assms unfolding agree_def by (auto simp: built_def)

lemma agree_terminated: "agree good r1 r2 m \<Longrightarrow> \<exists>a b. r1 = Some a \<and> r2 = Some b"
  by (auto simp: agree_def)

section \<open>Interface: a parser and its validating twin\<close>

text \<open>
  On a text of up to \<open>N\<close> bytes that holds a terminator the two modes of a value parser return and agree.
  The loops over elements and members are clients of this interface.
\<close>

locale parser_pair =
  fixes build check :: "json scanner" and N :: nat and good :: "json \<Rightarrow> bool"
  assumes value_agree: "0 \<in> set m \<Longrightarrow> length m \<le> N \<Longrightarrow> agree good (build m) (check m) m"
begin

lemma elements_agree:
  "0 \<in> set m \<Longrightarrow> length m \<le> N \<Longrightarrow> list_all good acc \<Longrightarrow>
    agree (list_all good) (parse_elements build acc m) (parse_elements check acc' m) m"
proof (induction m arbitrary: acc acc' rule: length_induct)
  case (1 m)
  have item: "agree (list_all good)
      (if c = 0x5D then Some (Parsed (acc @ [v]) s) else if c \<noteq> 0x2C then Some Rejected
       else do { s \<leftarrow> skip_space s; parse_elements build (acc @ [v]) s })
      (if c = 0x5D then Some (Parsed (acc' @ [w]) s) else if c \<noteq> 0x2C then Some Rejected
       else do { s \<leftarrow> skip_space s; parse_elements check (acc' @ [w]) s }) (c # s)"
    if v: "good v" and l: "0 \<in> set (c # s)" "length (c # s) < length m" for v w c s
  proof (cases "c = 0x5D \<or> c \<noteq> 0x2C")
    case True
    with v "1.prems" show ?thesis by (auto intro: agree_parsed)
  next
    case False
    have "agree (list_all good) (do { s \<leftarrow> skip_space s; parse_elements build (acc @ [v]) s })
        (do { s \<leftarrow> skip_space s; parse_elements check (acc' @ [w]) s }) (c # s)"
      by (rule agree_Cons, rule agree_space, use l False in simp, rule "1.IH" [rule_format])
        (use v l False "1.prems" in auto)
    with False show ?thesis by simp
  qed
  show ?case
  proof (subst parse_elements.simps [of build], subst parse_elements.simps [of check], rule agree_bind [OF value_agree [OF "1.prems"(1,2)] "1.prems"(1)], rule agree_space, assumption, goal_cases)
    case (1 v w m' c s)
    show ?case
      by (simp only: deref.simps Option.bind.simps list.sel, rule item) (use 1 in auto)
  qed
qed

lemma array_agree:
  assumes "0 \<in> set m" "length m \<le> Suc N"
  shows "agree (list_all good) (parse_array build m) (parse_array check m) m"
proof -
  from assms obtain c s where m: "m = c # s" by (cases m) auto
  have "agree (list_all good)
      (do { s \<leftarrow> skip_space s; c \<leftarrow> deref s; if c = 0x5D then Some (Parsed [] (tl s)) else parse_elements build [] s })
      (do { s \<leftarrow> skip_space s; c \<leftarrow> deref s; if c = 0x5D then Some (Parsed [] (tl s)) else parse_elements check [] s })
      (c # s)" if "c \<noteq> 0"
    by (rule agree_Cons, rule agree_space)
      (use assms m that in \<open>auto intro!: elements_agree intro: agree_parsed\<close>)
  with m show ?thesis by (auto simp: parse_array_def)
qed

lemma members_agree:
  "0 \<in> set m \<Longrightarrow> length m \<le> N \<Longrightarrow> list_all (\<lambda>(k, v). valid_utf8 k \<and> good v) acc \<Longrightarrow>
    agree (list_all (\<lambda>(k, v). valid_utf8 k \<and> good v))
      (parse_members build (parse_string True) acc m) (parse_members check (parse_string False) acc' m) m"
proof (induction m arbitrary: acc acc' rule: length_induct)
  case (1 m)
  let ?good = "list_all (\<lambda>(k, v). valid_utf8 k \<and> good v)"
  let ?rest = "\<lambda>pv out acc k v c s. if c = (0x7D::byte) then Some (Parsed (acc @ [(k, v)]) s)
           else if c \<noteq> 0x2C then Some Rejected
           else do { s \<leftarrow> skip_space s; parse_members pv (parse_string out) (acc @ [(k, v)]) s }"
  let ?val = "\<lambda>pv out acc k s. do {
     r \<leftarrow> pv s;
     case r of
       Rejected \<Rightarrow> Some Rejected
     | Parsed v s \<Rightarrow> do {
         s \<leftarrow> skip_space s; c \<leftarrow> deref s; ?rest pv out acc k v c (tl s) } }"
  have key: "agree valid_utf8 (parse_string True m) (parse_string False m) m"
    using parse_string_ok [OF "1.prems"(1)] unfolding agree_def by blast
  have rest: "agree ?good (?rest build True acc k v c s) (?rest check False acc' k' v' c s) (c # s)"
    if "valid_utf8 k" "good v" "0 \<in> set (c # s)" "length (c # s) < length m" for k v k' v' c s
  proof (cases "c = 0x7D \<or> c \<noteq> 0x2C")
    case True
    with that "1.prems" show ?thesis by (auto intro: agree_parsed)
  next
    case False
    have "agree ?good
        (do { s \<leftarrow> skip_space s; parse_members build (parse_string True) (acc @ [(k, v)]) s })
        (do { s \<leftarrow> skip_space s; parse_members check (parse_string False) (acc' @ [(k', v')]) s }) (c # s)"
      by (rule agree_Cons, rule agree_space, use that False in simp, rule "1.IH" [rule_format])
        (use that False "1.prems" in auto)
    with False show ?thesis by simp
  qed
  have val: "agree ?good (?val build True acc k s) (?val check False acc' k' s) s"
    if "valid_utf8 k" "0 \<in> set s" "length s < length m" for k k' s
  proof (rule agree_bind [OF value_agree that(2)], goal_cases)
    case (3 v w m')
    show ?case
      by (rule agree_space [OF 3(2)], simp only: deref.simps Option.bind.simps list.sel, rule rest)
        (use that 3 in auto)
  qed (use that "1.prems" in auto)
  have colon: "agree ?good
      (if c \<noteq> 0x3A then Some Rejected else do { s \<leftarrow> skip_space s; ?val build True acc k s })
      (if c \<noteq> 0x3A then Some Rejected else do { s \<leftarrow> skip_space s; ?val check False acc' k' s }) (c # s)"
    if k: "valid_utf8 k" and l: "0 \<in> set (c # s)" "length (c # s) < length m" for k k' c s
  proof (cases "c = 0x3A")
    case True
    have "agree ?good (do { s \<leftarrow> skip_space s; ?val build True acc k s })
        (do { s \<leftarrow> skip_space s; ?val check False acc' k' s }) (c # s)"
      by (rule agree_Cons, rule agree_space, use l True in simp, rule val) (use k l True in auto)
    with True show ?thesis by simp
  qed simp
  show ?case
  proof (subst parse_members.simps [of build], subst parse_members.simps [of check], rule agree_bind [OF key "1.prems"(1)], rule agree_space, assumption, goal_cases)
    case (1 k k' m' c s)
    show ?case
      by (simp only: deref.simps Option.bind.simps list.sel, rule colon) (use 1 in auto)
  qed
qed

lemma object_agree:
  assumes "0 \<in> set m" "length m \<le> Suc N"
  shows "agree (list_all (\<lambda>(k, v). valid_utf8 k \<and> good v))
    (parse_object build (parse_string True) m) (parse_object check (parse_string False) m) m"
proof -
  from assms obtain c s where m: "m = c # s" by (cases m) auto
  have "agree (list_all (\<lambda>(k, v). valid_utf8 k \<and> good v))
      (do { s \<leftarrow> skip_space s; c \<leftarrow> deref s; if c = 0x7D then Some (Parsed [] (tl s))
        else parse_members build (parse_string True) [] s })
      (do { s \<leftarrow> skip_space s; c \<leftarrow> deref s; if c = 0x7D then Some (Parsed [] (tl s))
        else parse_members check (parse_string False) [] s })
      (c # s)" if "c \<noteq> 0"
    by (rule agree_Cons, rule agree_space)
      (use assms m that in \<open>auto intro!: members_agree intro: agree_parsed\<close>)
  with m show ?thesis by (auto simp: parse_object_def)
qed

end

section \<open>The parser provides it\<close>

definition json_utf8 :: "json \<Rightarrow> bool" where
  "json_utf8 v \<longleftrightarrow> (\<forall>s \<in> set (json_strings v). valid_utf8 s)"

lemma json_utf8_simps [simp]:
  "json_utf8 JNull" "json_utf8 (JBool b)" "json_utf8 (JNumber d)"
  "json_utf8 (JString s) \<longleftrightarrow> valid_utf8 s"
  "json_utf8 (JArray xs) \<longleftrightarrow> list_all json_utf8 xs"
  "json_utf8 (JObject ms) \<longleftrightarrow> list_all (\<lambda>(k, v). valid_utf8 k \<and> json_utf8 v) ms"
  by (auto simp: json_utf8_def list_all_iff)

lemma agree_same:
  assumes "scans p" "0 \<in> set m" "\<And>v m'. p m = Some (Parsed v m') \<Longrightarrow> length m' < length m"
  shows "agree (\<lambda>_. True) (p m) (p m) m"
proof -
  from scans_total [OF assms(1,2)] obtain r where r: "p m = Some r" by blast
  show ?thesis
  proof (cases r)
    case (Parsed v m')
    with r scans_consumes [OF assms(1)] obtain k where "m = k @ m'" "nul_free k" by metis
    with r Parsed assms(3) show ?thesis by (auto simp: agree_def)
  qed (simp add: r)
qed

lemma parse_number_shorter: "parse_number m = Some (Parsed v m') \<Longrightarrow> length m' < length m"
proof -
  assume "parse_number m = Some (Parsed v m')"
  then obtain s where s: "m = s @ m'" "json_number s" using parse_number_sound by blast
  then have "s \<noteq> []" by (auto simp: json_number_def int_part_def)
  with s show ?thesis by simp
qed

lemma expect_literal_shorter:
  "expect_literal str m = Some (Parsed u m') \<Longrightarrow> length m = length str + length m'"
  by (induction str m rule: expect_literal.induct) (auto simp: bind_eq_Some_conv c_simps split: if_splits)

lemma agree_literal:
  "nul_free str \<Longrightarrow> str \<noteq> [] \<Longrightarrow> 0 \<in> set m \<Longrightarrow>
    agree (\<lambda>_. True) (expect_literal str m) (expect_literal str m) m"
  by (intro agree_same scans_expect_literal) (auto dest: expect_literal_shorter)

lemma parse_value_pair: "parser_pair (parse_value n True) (parse_value n False) n json_utf8"
proof (induction n)
  case 0
  show ?case by unfold_locales simp
next
  case (Suc n)
  note array = parser_pair.array_agree [OF Suc.IH] and object = parser_pair.object_agree [OF Suc.IH]
  show ?case
  proof unfold_locales
    fix m :: "byte list" assume m: "0 \<in> set m" "length m \<le> Suc n"
    then obtain c s where c: "m = c # s" by (cases m) auto
    then have d: "deref m = Some c" by simp
    have str: "agree valid_utf8 (parse_string True m) (parse_string False m) m"
      using parse_string_ok [OF m(1)] unfolding agree_def by blast
    have num: "agree (\<lambda>_. True) (parse_number m) (parse_number m) m"
      by (intro agree_same scans_parse_number m parse_number_shorter)
    have lit: "agree (\<lambda>_. True) (expect_literal (bytes str) m) (expect_literal (bytes str) m) m"
      if "str \<in> {''null'', ''false'', ''true''}" for str
      by (rule agree_literal) (use that m in auto)
    show "agree json_utf8 (parse_value (Suc n) True m) (parse_value (Suc n) False m) m"
      unfolding parse_value.simps d
      by (auto simp del: bytes_Cons expect_literal.simps intro!: agree_built [OF lit] agree_built [OF str] agree_built [OF num]
           agree_built [OF array [OF m]] agree_built [OF object [OF m]])
  qed
qed

interpretation value_parser: parser_pair "parse_value n True" "parse_value n False" n json_utf8 for n
  by (rule parse_value_pair)

section \<open>Fuel\<close>

text \<open>More fuel gives the same result: the bound only decides whether there is one.\<close>

definition leq :: "'a option \<Rightarrow> 'a option \<Rightarrow> bool" where
  "leq a b \<longleftrightarrow> (\<forall>x. a = Some x \<longrightarrow> b = Some x)"

lemma leq_rules:
  "leq a a"
  "leq a b \<Longrightarrow> (\<And>x. leq (f x) (g x)) \<Longrightarrow> leq (a \<bind> f) (b \<bind> g)"
  "leq a b \<Longrightarrow> leq a' b' \<Longrightarrow> leq (if P then a else a') (if P then b else b')"
  "leq a b \<Longrightarrow> (\<And>v s. leq (h v s) (k v s)) \<Longrightarrow> leq (case r of Rejected \<Rightarrow> a | Parsed v s \<Rightarrow> h v s)
    (case r of Rejected \<Rightarrow> b | Parsed v s \<Rightarrow> k v s)"
  by (auto simp: leq_def bind_eq_Some_conv split: presult.split)

lemma leqD: "a = Some x \<Longrightarrow> leq a b \<Longrightarrow> b = Some x"
  by (simp add: leq_def)

lemma leqI: "(\<And>x. a = Some x \<Longrightarrow> b = Some x) \<Longrightarrow> leq a b"
  by (simp add: leq_def)

lemma parse_elements_leq:
  assumes "\<And>s. leq (pv s) (pv' s)"
  shows "leq (parse_elements pv acc s) (parse_elements pv' acc s)"
proof (rule leqI)
  fix r assume "parse_elements pv acc s = Some r"
  then have "(\<forall>s. leq (pv s) (pv' s)) \<longrightarrow> parse_elements pv' acc s = Some r"
  proof (rule parse_elements.raw_induct [rotated], intro impI, goal_cases)
    case (1 rec p acc s r)
    then show ?case
      by (subst parse_elements.simps) (erule leqD, auto intro!: leq_rules intro: leqI)
  qed
  with assms show "parse_elements pv' acc s = Some r" by blast
qed

lemma parse_members_leq:
  assumes "\<And>s. leq (pv s) (pv' s)"
  shows "leq (parse_members pv ps acc s) (parse_members pv' ps acc s)"
proof (rule leqI)
  fix r assume "parse_members pv ps acc s = Some r"
  then have "(\<forall>s. leq (pv s) (pv' s)) \<longrightarrow> parse_members pv' ps acc s = Some r"
  proof (rule parse_members.raw_induct [rotated], intro impI, goal_cases)
    case (1 rec p q acc s r)
    then show ?case
      by (subst parse_members.simps) (erule leqD, auto intro!: leq_rules intro: leqI)
  qed
  with assms show "parse_members pv' ps acc s = Some r" by blast
qed

lemma built_leq: "leq a b \<Longrightarrow> leq (built out mk a) (built out mk b)"
  by (cases a) (auto simp: built_def leq_def)

lemma parse_value_leq: "leq (parse_value n out s) (parse_value (Suc n) out s)"
proof (induction n arbitrary: s)
  case 0
  show ?case by (simp add: leq_def)
next
  case (Suc n)
  show ?case
    unfolding parse_value.simps(2) [of "Suc n"] parse_value.simps(2) [of n out s] parse_array_def parse_object_def
    by (intro leq_rules built_leq parse_elements_leq parse_members_leq Suc.IH)
qed

lemma parse_value_more_fuel:
  assumes "parse_value n out s = Some r" "n \<le> n'"
  shows "parse_value n' out s = Some r"
  using assms(2)
proof (induction rule: dec_induct)
  case base
  show ?case by (rule assms(1))
next
  case (step k)
  with parse_value_leq [of k out s] show ?case unfolding leq_def by blast
qed

section \<open>Documents\<close>

lemma document_agree:
  assumes "0 \<in> set m"
  shows "\<exists>s r. skip_space m = Some s \<and> json_decode m = Some r \<and> json_validate m = Some (r \<noteq> None) \<and>
    (\<forall>v. r = Some v \<longrightarrow> json_utf8 v)"
proof -
  from skip_space_terminated [OF assms] obtain s where s: "skip_space m = Some s" "0 \<in> set s" by blast
  let ?n = "Suc (length s)"
  have "agree json_utf8 (parse_value ?n True s) (parse_value ?n False s) s"
    using value_parser.value_agree [OF s(2), of ?n] by simp
  then show ?thesis unfolding agree_def
  proof (elim disjE exE)
    assume "parse_value ?n True s = Some Rejected \<and> parse_value ?n False s = Some Rejected"
    with s show ?thesis by (auto simp: json_decode_def json_validate_def simp del: parse_value.simps)
  next
    fix v w k s'
    assume p: "parse_value ?n True s = Some (Parsed v s') \<and> parse_value ?n False s = Some (Parsed w s') \<and>
      s = k @ s' \<and> k \<noteq> [] \<and> nul_free k \<and> json_utf8 v"
    then have "0 \<in> set s'" using s by (auto simp: nul_free_def)
    from skip_space_terminated [OF this] obtain s'' where "skip_space s' = Some s''" "0 \<in> set s''" by blast
    then obtain c t where t: "skip_space s' = Some (c # t)" by (cases s'') auto
    define r where "r = (if c \<noteq> 0 then None else Some v)"
    have "json_decode m = Some r" "json_validate m = Some (r \<noteq> None)"
      using s conjunct1 [OF p] conjunct1 [OF conjunct2 [OF p]] t
      by (simp_all add: json_decode_def json_validate_def r_def del: parse_value.simps)
    with s p show ?thesis by (auto simp: r_def split: if_splits)
  qed
qed

section \<open>Properties\<close>

text \<open>C12: on every text that holds a terminator the decoder returns, without reading past the
  terminator and without writing outside its buffers, and every string and key of the tree it
  builds is valid UTF-8 without NUL.\<close>

theorem json_decode_total:
  assumes "0 \<in> set m"
  shows "\<exists>r. json_decode m = Some r \<and> (\<forall>v. r = Some v \<longrightarrow> json_utf8 v \<and> json_cstrings v)"
proof -
  have "json_utf8 v \<Longrightarrow> json_cstrings v" for v
    using valid_utf8_nul_free by (auto simp: json_utf8_def json_cstrings_def)
  with document_agree [OF assms] show ?thesis by metis
qed

theorem json_decode_total_witness:
  "\<exists>r. json_decode (bytes ''[1, {}]'' @ [0]) = Some r \<and> (\<forall>v. r = Some v \<longrightarrow> json_utf8 v \<and> json_cstrings v)"
  by (rule json_decode_total) simp

text \<open>C16: \<open>json_validate\<close> answers true exactly for the texts on which \<open>json_decode\<close> returns a tree, although
  it runs the parsers in their other mode.\<close>

theorem json_validate_iff_decode:
  assumes "0 \<in> set m"
  shows "\<exists>r. json_decode m = Some r \<and> json_validate m = Some (r \<noteq> None)"
  using document_agree [OF assms] by blast

theorem json_validate_iff_decode_witness:
  "\<exists>r. json_decode (bytes ''[true,]'' @ [0]) = Some r \<and> json_validate (bytes ''[true,]'' @ [0]) = Some (r \<noteq> None)"
  by (rule json_validate_iff_decode) simp

text \<open>The fuel only decides whether there is a result: with more fuel a parse that has one has the
  same one, so the results above are those of the unbounded recursion.\<close>

lemma parse_value_fuel:
  assumes "parse_value n out s = Some r" "n \<le> n'"
  shows "parse_value n' out s = Some r"
  using assms by (rule parse_value_more_fuel)

end
