(* ===== verification/JsonEmit.thy ===== *)
theory JsonEmit
  imports JsonScan
begin

text \<open>
  The encoder of \<open>src/util/json.c\<close>: strings with their escapes, numbers, and values in compact
  and in indented form, all written through the string buffer. The default build defines
  \<open>NDEBUG\<close> (CMake's \<open>Release\<close>), so assertions are not part of the model: where the code says what
  it does in production (invalid UTF-8), that is what is modelled.
\<close>

section \<open>Strings\<close>

definition hex_chars :: "byte list" where
  "hex_chars = bytes ''0123456789ABCDEF''"

definition write_hex16 :: "u16 \<Rightarrow> byte list" where
  "write_hex16 val =
    [hex_chars ! unat (drop_bit 12 val AND 0xF), hex_chars ! unat (drop_bit 8 val AND 0xF),
     hex_chars ! unat (drop_bit 4 val AND 0xF), hex_chars ! unat (val AND 0xF)]"

text \<open>The escape \<open>\\uXXXX\<close>, or the pair of escapes of a surrogate pair.\<close>

definition unicode_escape :: "u32 \<Rightarrow> byte list" where
  "unicode_escape u =
    (if u \<le> 0xFFFF then [0x5C, 0x75] @ write_hex16 (ucast u)
     else case to_surrogate_pair u of (uc, lc) \<Rightarrow>
       [0x5C, 0x75] @ write_hex16 uc @ [0x5C, 0x75] @ write_hex16 lc)"

text \<open>One pass of the loop of \<open>emit_string\<close>, from a character that is not the terminator: the
  bytes written and the pointer behind the characters read.\<close>

definition emit_char :: "bool \<Rightarrow> byte list \<Rightarrow> (byte list \<times> byte list) option" where
  "emit_char escape_unicode s = do {
     c \<leftarrow> deref s;
     if c = 0x22 then Some ([0x5C, 0x22], tl s)
     else if c = 0x5C then Some ([0x5C, 0x5C], tl s)
     else if c = 0x08 then Some ([0x5C, 0x62], tl s)
     else if c = 0x0C then Some ([0x5C, 0x66], tl s)
     else if c = 0x0A then Some ([0x5C, 0x6E], tl s)
     else if c = 0x0D then Some ([0x5C, 0x72], tl s)
     else if c = 0x09 then Some ([0x5C, 0x74], tl s)
     else do {
       len \<leftarrow> utf8_validate_cz s;
       if len = 0 then
         Some (if escape_unicode then [0x5C, 0x75] @ bytes ''FFFD'' else [0xEF, 0xBF, 0xBD], tl s)
       else if c < 0x1F \<or> (c \<ge> 0x80 \<and> escape_unicode) then do {
         (u, n) \<leftarrow> utf8_read_char s;
         Some (unicode_escape u, drop n s) }
       else if len \<le> length s then Some (take len s, drop len s)
       else None } }"

lemma emit_char_shorter: "emit_char esc s = Some (w, s') \<Longrightarrow> length s' < length s"
  by (auto simp: emit_char_def utf8_read_char_def bind_eq_Some_conv c_simps split: if_splits)

function emit_string_loop :: "bool \<Rightarrow> sb \<Rightarrow> byte list \<Rightarrow> sb option" where
  "emit_string_loop esc out s =
    (case deref s of
       None \<Rightarrow> None
     | Some c \<Rightarrow>
         if c = 0 then Some out
         else case emit_char esc s of
           None \<Rightarrow> None
         | Some (w, s') \<Rightarrow> do {
             out \<leftarrow> sb_store out w;
             out \<leftarrow> sb_need out 14;
             emit_string_loop esc out s' })"
  by pat_completeness auto
termination
  by (relation "measure (\<lambda>(esc, out, s). length s)") (auto dest: emit_char_shorter)

declare emit_string_loop.simps [simp del]

text \<open>\<open>str\<close> is the pointer to the string, its terminator included.\<close>

definition emit_string :: "sb \<Rightarrow> byte list \<Rightarrow> sb option" where
  "emit_string out str = do {
     out \<leftarrow> sb_need out 14;
     out \<leftarrow> sb_store out [0x22];
     out \<leftarrow> emit_string_loop False out str;
     sb_store out [0x22] }"

section \<open>Numbers\<close>

text \<open>\<open>sprintf\<close> into a buffer of \<open>sz\<close> bytes: the memory of the buffer, or a write outside it.\<close>

definition sprintf_buf :: "nat \<Rightarrow> byte list \<Rightarrow> byte list option" where
  "sprintf_buf sz text = (if length text < sz then Some (text @ [0]) else None)"

definition emit_number :: "sb \<Rightarrow> double \<Rightarrow> sb option" where
  "emit_number out num = do {
     buf \<leftarrow> sprintf_buf 64 (fmt_g16 num);
     valid \<leftarrow> number_is_valid buf;
     if valid then do { text \<leftarrow> cstr buf; sb_puts out text }
     else sb_puts out (bytes ''null'') }"

section \<open>Values\<close>

fun emit_value :: "sb \<Rightarrow> json \<Rightarrow> sb option"
and emit_array :: "sb \<Rightarrow> json list \<Rightarrow> sb option"
and emit_object :: "sb \<Rightarrow> (byte list \<times> json) list \<Rightarrow> sb option" where
  "emit_value out JNull = sb_puts out (bytes ''null'')"
| "emit_value out (JBool b) = sb_puts out (if b then bytes ''true'' else bytes ''false'')"
| "emit_value out (JString s) = emit_string out (s @ [0])"
| "emit_value out (JNumber d) = emit_number out d"
| "emit_value out (JArray xs) = do {
     out \<leftarrow> sb_putc out 0x5B; out \<leftarrow> emit_array out xs; sb_putc out 0x5D }"
| "emit_value out (JObject ms) = do {
     out \<leftarrow> sb_putc out 0x7B; out \<leftarrow> emit_object out ms; sb_putc out 0x7D }"
| "emit_array out [] = Some out"
| "emit_array out (x # xs) = do {
     out \<leftarrow> emit_value out x;
     out \<leftarrow> (if xs \<noteq> [] then sb_putc out 0x2C else Some out);
     emit_array out xs }"
| "emit_object out [] = Some out"
| "emit_object out ((k, v) # ms) = do {
     out \<leftarrow> emit_string out (k @ [0]);
     out \<leftarrow> sb_putc out 0x3A;
     out \<leftarrow> emit_value out v;
     out \<leftarrow> (if ms \<noteq> [] then sb_putc out 0x2C else Some out);
     emit_object out ms }"

text \<open>The loop that writes \<open>space\<close> once per level.\<close>

definition emit_indent :: "sb \<Rightarrow> byte list \<Rightarrow> nat \<Rightarrow> sb option" where
  "emit_indent out space n = put_all sb_puts out (replicate n space)"

fun emit_value_indented :: "sb \<Rightarrow> byte list \<Rightarrow> nat \<Rightarrow> json \<Rightarrow> sb option"
and emit_array_indented :: "sb \<Rightarrow> byte list \<Rightarrow> nat \<Rightarrow> json list \<Rightarrow> sb option"
and emit_object_indented :: "sb \<Rightarrow> byte list \<Rightarrow> nat \<Rightarrow> (byte list \<times> json) list \<Rightarrow> sb option" where
  "emit_value_indented out space level JNull = sb_puts out (bytes ''null'')"
| "emit_value_indented out space level (JBool b) =
     sb_puts out (if b then bytes ''true'' else bytes ''false'')"
| "emit_value_indented out space level (JString s) = emit_string out (s @ [0])"
| "emit_value_indented out space level (JNumber d) = emit_number out d"
| "emit_value_indented out space level (JArray xs) =
     (if xs = [] then sb_puts out [0x5B, 0x5D]
      else do {
        out \<leftarrow> sb_puts out [0x5B, 0x0A];
        out \<leftarrow> emit_array_indented out space level xs;
        out \<leftarrow> emit_indent out space level;
        sb_putc out 0x5D })"
| "emit_value_indented out space level (JObject ms) =
     (if ms = [] then sb_puts out [0x7B, 0x7D]
      else do {
        out \<leftarrow> sb_puts out [0x7B, 0x0A];
        out \<leftarrow> emit_object_indented out space level ms;
        out \<leftarrow> emit_indent out space level;
        sb_putc out 0x7D })"
| "emit_array_indented out space level [] = Some out"
| "emit_array_indented out space level (x # xs) = do {
     out \<leftarrow> emit_indent out space (level + 1);
     out \<leftarrow> emit_value_indented out space (level + 1) x;
     out \<leftarrow> sb_puts out (if xs \<noteq> [] then [0x2C, 0x0A] else [0x0A]);
     emit_array_indented out space level xs }"
| "emit_object_indented out space level [] = Some out"
| "emit_object_indented out space level ((k, v) # ms) = do {
     out \<leftarrow> emit_indent out space (level + 1);
     out \<leftarrow> emit_string out (k @ [0]);
     out \<leftarrow> sb_puts out [0x3A, 0x20];
     out \<leftarrow> emit_value_indented out space (level + 1) v;
     out \<leftarrow> sb_puts out (if ms \<noteq> [] then [0x2C, 0x0A] else [0x0A]);
     emit_object_indented out space level ms }"

text \<open>The memory the caller gets: the text and its terminator.\<close>

definition json_stringify :: "json \<Rightarrow> byte list option \<Rightarrow> byte list option" where
  "json_stringify node space = do {
     out \<leftarrow> (case space of
         Some sp \<Rightarrow> emit_value_indented sb_init sp 0 node
       | None \<Rightarrow> emit_value sb_init node);
     sb_finish out }"

definition json_encode :: "json \<Rightarrow> byte list option" where
  "json_encode node = json_stringify node None"

definition json_encode_string :: "byte list \<Rightarrow> byte list option" where
  "json_encode_string str = do { out \<leftarrow> emit_string sb_init str; sb_finish out }"

section \<open>What is written: escapes\<close>

text \<open>The escape of a code point, and the code points of a C string, where a byte that is not part of
  valid UTF-8 stands for the replacement character.\<close>

definition escape :: "u32 \<Rightarrow> byte list" where
  "escape u =
    (if u = 0x22 then [0x5C, 0x22] else if u = 0x5C then [0x5C, 0x5C]
     else if u = 0x08 then [0x5C, 0x62] else if u = 0x0C then [0x5C, 0x66]
     else if u = 0x0A then [0x5C, 0x6E] else if u = 0x0D then [0x5C, 0x72]
     else if u = 0x09 then [0x5C, 0x74]
     else if u < 0x1F then unicode_escape u else utf8_write_char u)"

definition lossy_step :: "byte list \<Rightarrow> u32 \<times> nat" where
  "lossy_step s = (case utf8_validate_cz (s @ [0]) of
     Some n \<Rightarrow> if n = 0 then (0xFFFD, 1) else
       (case utf8_read_char s of Some (u, n) \<Rightarrow> (u, n) | None \<Rightarrow> (0xFFFD, 1))
   | None \<Rightarrow> (0xFFFD, 1))"

function lossy :: "byte list \<Rightarrow> u32 list" where
  "lossy s = (if s = [] then [] else case lossy_step s of (u, n) \<Rightarrow> u # lossy (drop n s))"
  by pat_completeness auto
termination
  by (relation "measure length")
     (auto simp: lossy_step_def utf8_read_char_def bind_eq_Some_conv c_simps split: if_splits option.splits)

declare lossy.simps [simp del]

definition string_text :: "byte list \<Rightarrow> byte list" where
  "string_text s = 0x22 # concat (map escape (lossy s)) @ [0x22]"

lemma lossy_step_valid:
  assumes "code_point (unat u)" "u \<noteq> 0"
  shows "lossy_step (utf8_write_char u @ s) = (u, length (utf8_write_char u))"
  using utf8_validate_write [OF assms(1), of "s @ [0]"] utf8_read_write [OF assms(1), of s]
    utf8_write_nonempty [of u]
  by (simp add: lossy_step_def)

lemma lossy_write: "code_point (unat u) \<Longrightarrow> u \<noteq> 0 \<Longrightarrow> lossy (utf8_write_char u @ s) = u # lossy s"
  by (subst lossy.simps) (simp add: lossy_step_valid utf8_write_nonempty)

text \<open>Every C string is a sequence of encoded characters and stray bytes, and the encoder takes it
  apart in the same way.\<close>

lemma lossy_cases:
  assumes "nul_free s" "s \<noteq> []"
  obtains (char) u s' where "s = utf8_write_char u @ s'" "code_point (unat u)" "u \<noteq> 0"
      "\<And>t. utf8_validate_cz (s @ 0 # t) = Some (length (utf8_write_char u))" "lossy s = u # lossy s'"
  | (stray) c s' where "s = c # s'" "c \<ge> 0x80" "\<And>t. utf8_validate_cz (s @ 0 # t) = Some 0"
      "lossy s = 0xFFFD # lossy s'"
proof -
  obtain c s1 where s: "s = c # s1" using assms(2) by (cases s) auto
  from utf8_validate_cz_text [OF assms, of "[]"] obtain n where n: "utf8_validate_cz (s @ [0]) = Some n"
    and p: "n \<noteq> 0 \<Longrightarrow> \<exists>u s'. s = utf8_write_char u @ s' \<and> code_point (unat u) \<and> u \<noteq> 0 \<and> n = length (utf8_write_char u)"
    by blast
  show ?thesis
  proof (cases "n = 0")
    case False
    from p [OF this] obtain u s' where u: "s = utf8_write_char u @ s'" "code_point (unat u)" "u \<noteq> 0" by blast
    show ?thesis
      by (rule char [OF u]) (use u in \<open>simp_all add: utf8_validate_write lossy_write\<close>)
  next
    case True
    have z: "utf8_validate_cz (s @ 0 # t) = Some 0" for t
    proof (rule ccontr)
      assume "utf8_validate_cz (s @ 0 # t) \<noteq> Some 0"
      with utf8_validate_cz_text [OF assms, of t] obtain u s' where u: "s = utf8_write_char u @ s'" "code_point (unat u)"
        by auto
      with n True utf8_validate_write [OF u(2), of "s' @ [0]"] utf8_write_nonempty [of u] show False by simp
    qed
    have "c \<ge> 0x80"
    proof (rule ccontr)
      assume "\<not> c \<ge> 0x80"
      then have "c \<le> 0x7F" by (simp add: word_le_nat_alt)
      with z [of "[]"] s show False by (simp add: utf8_validate_cz_def)
    qed
    moreover have "lossy s = 0xFFFD # lossy s1"
      using s n True by (subst lossy.simps) (simp add: lossy_step_def)
    ultimately show ?thesis using stray s z by blast
  qed
qed

lemma lossy_code_points: "nul_free s \<Longrightarrow> \<forall>u \<in> set (lossy s). code_point (unat u) \<and> u \<noteq> 0"
proof (induction s rule: length_induct)
  case (1 s)
  show ?case
  proof (cases "s = []")
    case True
    then show ?thesis by (simp add: lossy.simps)
  next
    case False
    from "1.prems" False show ?thesis
    proof (cases rule: lossy_cases)
      case (char u s')
      then have l: "length s' < length s" "nul_free s'" using "1.prems" utf8_write_nonempty [of u] by auto
      from "1.IH" [rule_format, OF l] char show ?thesis by simp
    next
      case (stray c s')
      then have l: "length s' < length s" "nul_free s'" using "1.prems" by auto
      from "1.IH" [rule_format, OF l] stray show ?thesis by (simp add: code_point_def)
    qed
  qed
qed

lemma lossy_valid:
  "\<forall>u \<in> set us. code_point (unat u) \<and> u \<noteq> 0 \<Longrightarrow> lossy (concat (map utf8_write_char us)) = us"
  by (induction us) (simp_all add: lossy.simps [of "[]"] lossy_write)

section \<open>One character\<close>

lemma write_char_head:
  assumes "code_point (unat u)"
  obtains (ascii) c where "u = ucast c" "c \<le> 0x7F" "utf8_write_char u = [c]"
  | (high) c w where "\<not> u \<le> 0x7F" "utf8_write_char u = c # w" "c \<ge> 0xC0"
proof (cases "u \<le> 0x7F")
  case True
  define c :: byte where "c = ucast u"
  have "unat c = unat u" using True by (simp add: c_def unsigned_ucast_eq word_le_nat_alt take_bit_nat_eq_self_iff)
  then have "u = ucast c" "c \<le> 0x7F" using True by (simp_all add: word_unat_eq_iff unat_ucast_byte word_le_nat_alt)
  then show ?thesis using ascii utf8_write_ascii by blast
next
  case False
  from assms show ?thesis
  proof (cases u rule: utf8_cases)
    case (1 x)
    with False show ?thesis by (simp add: word_le_nat_alt)
  qed (use high [OF False] in \<open>auto simp: word_le_nat_alt\<close>)
qed

lemma unicode_escape_length: "length (unicode_escape u) \<le> 12"
  by (simp add: unicode_escape_def write_hex16_def split: prod.split)

lemma escape_length: "length (escape u) \<le> 12"
  using unicode_escape_length [of u] by (simp add: escape_def utf8_write_char_def)

lemma emit_char_escape:
  assumes "nul_free s" "s \<noteq> []"
  shows "\<exists>u s'. emit_char False (s @ 0 # t) = Some (escape u, s' @ 0 # t) \<and> lossy s = u # lossy s' \<and>
    nul_free s' \<and> length s' < length s"
  using assms
proof (cases rule: lossy_cases)
  case (stray c s')
  have "c \<noteq> 0x22" "c \<noteq> 0x5C" "c \<noteq> 0x08" "c \<noteq> 0x0C" "c \<noteq> 0x0A" "c \<noteq> 0x0D" "c \<noteq> 0x09" using stray(2) by auto
  moreover have "escape 0xFFFD = [0xEF, 0xBF, 0xBD]" by (simp add: escape_def) code_simp
  ultimately have "emit_char False (s @ 0 # t) = Some (escape 0xFFFD, s' @ 0 # t)"
    using stray by (simp add: emit_char_def)
  with stray assms(1) show ?thesis by auto
next
  case (char u s')
  have less: "length s' < length s" "nul_free s'" using char(1) assms(1) utf8_write_nonempty [of u] by auto
  have "emit_char False (s @ 0 # t) = Some (escape u, s' @ 0 # t)"
    using char(2)
  proof (cases rule: write_char_head)
    case (ascii c)
    have e: "(ucast c = (0x22::u32)) = (c = 0x22)" "(ucast c = (0x5C::u32)) = (c = 0x5C)" "(ucast c = (0x08::u32)) = (c = 0x08)"
      "(ucast c = (0x0C::u32)) = (c = 0x0C)" "(ucast c = (0x0A::u32)) = (c = 0x0A)" "(ucast c = (0x0D::u32)) = (c = 0x0D)"
      "(ucast c = (0x09::u32)) = (c = 0x09)" "(ucast c < (0x1F::u32)) = (c < 0x1F)"
      by (simp_all add: word_unat_eq_iff word_less_nat_alt unat_ucast_byte)
    have r: "utf8_read_char (c # s' @ 0 # t) = Some (u, 1)"
      using utf8_read_write [OF char(2), of "s' @ 0 # t"] ascii by simp
    show ?thesis
      using char(1) char(4) [of t] ascii(3) r
      by (simp add: emit_char_def escape_def) (simp add: ascii(1) e)
  next
    case (high c w)
    have c: "c \<noteq> 0x22" "c \<noteq> 0x5C" "c \<noteq> 0x08" "c \<noteq> 0x0C" "c \<noteq> 0x0A" "c \<noteq> 0x0D" "c \<noteq> 0x09" "\<not> c < 0x1F"
      using high(3) by (auto simp: word_less_nat_alt word_le_nat_alt)
    have u: "escape u = utf8_write_char u" using high(1) by (auto simp: escape_def word_less_nat_alt word_le_nat_alt)
    show ?thesis
      using char(1) char(4) [of t] high(2) c unfolding u by (simp add: emit_char_def)
  qed
  with char less show ?thesis by blast
qed

section \<open>Strings\<close>

lemma sb_room_mono: "sb_room b n \<Longrightarrow> k \<le> n \<Longrightarrow> sb_room b k"
  by (simp add: sb_room_def)

lemma emit_string_loop_ok:
  "nul_free s \<Longrightarrow> sb_room out 13 \<Longrightarrow>
    \<exists>out'. emit_string_loop False out (s @ 0 # t) = Some out' \<and> sb_room out' 13 \<and>
      sb_text out' = sb_text out @ concat (map escape (lossy s))"
proof (induction s arbitrary: out rule: length_induct)
  case (1 s)
  note room = "1.prems"(2)
  show ?case
  proof (cases "s = []")
    case True
    with room show ?thesis by (subst emit_string_loop.simps) (simp add: lossy.simps)
  next
    case False
    from emit_char_escape [OF "1.prems"(1) False, of t] obtain u s' where
      u: "emit_char False (s @ 0 # t) = Some (escape u, s' @ 0 # t)" "lossy s = u # lossy s'" "nul_free s'" "length s' < length s"
      by blast
    have "length (escape u) \<le> 13" using escape_length [of u] by simp
    from sb_store_room [OF room this] obtain o1
      where o1: "sb_store out (escape u) = Some o1" "sb_ok o1" "sb_text o1 = sb_text out @ escape u" using sb_room_ok by blast
    from sb_need_room [OF o1(2), of 14] obtain o2
      where o2: "sb_need o1 14 = Some o2" "sb_room o2 14" "sb_text o2 = sb_text out @ escape u" using o1 by auto
    obtain c s1 where s: "s = c # s1" "c \<noteq> 0" using False "1.prems"(1) by (cases s) auto
    then have e: "emit_string_loop False out (s @ 0 # t) = emit_string_loop False o2 (s' @ 0 # t)"
      using u o1 o2 by (subst emit_string_loop.simps) simp
    from "1.IH" [rule_format, OF u(4,3) sb_room_mono [OF o2(2)]] obtain out' where
      "emit_string_loop False o2 (s' @ 0 # t) = Some out'" "sb_room out' 13"
      "sb_text out' = sb_text o2 @ concat (map escape (lossy s'))" by auto
    with e u o2 show ?thesis by simp
  qed
qed

lemma emit_string_ok:
  assumes "nul_free s" "sb_ok out"
  shows "\<exists>out'. emit_string out (s @ 0 # t) = Some out' \<and> sb_ok out' \<and> sb_text out' = sb_text out @ string_text s"
proof -
  from sb_need_room [OF assms(2), of 14] obtain o1
    where o1: "sb_need out 14 = Some o1" "sb_room o1 14" "sb_text o1 = sb_text out" by blast
  from sb_store_room [OF o1(2), of "[0x22]"] obtain o2
    where o2: "sb_store o1 [0x22] = Some o2" "sb_room o2 13" "sb_text o2 = sb_text out @ [0x22]" using o1 by auto
  from emit_string_loop_ok [OF assms(1), of o2 t] o2 obtain o3
    where o3: "emit_string_loop False o2 (s @ 0 # t) = Some o3" "sb_room o3 13"
      "sb_text o3 = sb_text o2 @ concat (map escape (lossy s))" by blast
  from sb_store_room [OF o3(2), of "[0x22]"] obtain o4
    where o4: "sb_store o3 [0x22] = Some o4" "sb_ok o4" "sb_text o4 = sb_text o3 @ [0x22]" using sb_room_ok by fastforce
  show ?thesis
    using o1 o2 o3 o4 by (simp add: emit_string_def string_text_def)
qed

section \<open>The text of a value\<close>

text \<open>What the encoder writes, as a function of the value alone.\<close>

definition num_text :: "double \<Rightarrow> byte list" where
  "num_text d = (case d of Fin _ _ _ \<Rightarrow> fmt_g16 d | _ \<Rightarrow> bytes ''null'')"

definition separated :: "byte list \<Rightarrow> byte list list \<Rightarrow> byte list" where
  "separated sep ts = (case ts of [] \<Rightarrow> [] | t # ts \<Rightarrow> t @ concat (map (\<lambda>t. sep @ t) ts))"

fun json_text :: "json \<Rightarrow> byte list" where
  "json_text JNull = bytes ''null''"
| "json_text (JBool b) = (if b then bytes ''true'' else bytes ''false'')"
| "json_text (JString s) = string_text s"
| "json_text (JNumber d) = num_text d"
| "json_text (JArray xs) = [0x5B] @ separated [0x2C] (map json_text xs) @ [0x5D]"
| "json_text (JObject ms) =
    [0x7B] @ separated [0x2C] (map (\<lambda>(k, v). string_text k @ [0x3A] @ json_text v) ms) @ [0x7D]"

definition indentation :: "byte list \<Rightarrow> nat \<Rightarrow> byte list" where
  "indentation space n = concat (replicate n space)"

fun json_text_indented :: "byte list \<Rightarrow> nat \<Rightarrow> json \<Rightarrow> byte list" where
  "json_text_indented sp l JNull = bytes ''null''"
| "json_text_indented sp l (JBool b) = (if b then bytes ''true'' else bytes ''false'')"
| "json_text_indented sp l (JString s) = string_text s"
| "json_text_indented sp l (JNumber d) = num_text d"
| "json_text_indented sp l (JArray xs) =
    (if xs = [] then [0x5B, 0x5D] else
       [0x5B, 0x0A] @
       separated [0x2C, 0x0A] (map (\<lambda>x. indentation sp (l + 1) @ json_text_indented sp (l + 1) x) xs) @
       [0x0A] @ indentation sp l @ [0x5D])"
| "json_text_indented sp l (JObject ms) =
    (if ms = [] then [0x7B, 0x7D] else
       [0x7B, 0x0A] @
       separated [0x2C, 0x0A] (map (\<lambda>(k, v). indentation sp (l + 1) @ string_text k @ [0x3A, 0x20] @
         json_text_indented sp (l + 1) v) ms) @
       [0x0A] @ indentation sp l @ [0x7D])"

lemma separated_simps:
  "separated sep [] = []"
  "separated sep (t # ts) = t @ (if ts = [] then [] else sep @ separated sep ts)"
  by (auto simp: separated_def split: list.split)

section \<open>Writers\<close>

lemmas emit_simps = emit_value.simps emit_array.simps emit_object.simps

lemmas emit_indented_simps =
  emit_value_indented.simps emit_array_indented.simps emit_object_indented.simps

text \<open>An operation on the buffer writes a text when, on every valid buffer, it stays inside the
  allocation and appends that text.\<close>

definition writes :: "(sb \<Rightarrow> sb option) \<Rightarrow> byte list \<Rightarrow> bool" where
  "writes f w \<longleftrightarrow> (\<forall>out. sb_ok out \<longrightarrow> (\<exists>out'. f out = Some out' \<and> sb_ok out' \<and> sb_text out' = sb_text out @ w))"

lemma writes_puts [inv_intros]: "writes (\<lambda>out. sb_puts out w) w"
  using sbuf.put_ok by (simp add: writes_def)

lemma writes_putc [inv_intros]: "writes (\<lambda>out. sb_putc out c) [c]"
  using sb_putc_ok by (simp add: writes_def)

lemma writes_skip [inv_intros]: "writes Some []"
  by (simp add: writes_def)

lemma writes_bind [inv_intros]: "writes f v \<Longrightarrow> writes g w \<Longrightarrow> writes (\<lambda>out. f out \<bind> g) (v @ w)"
  unfolding writes_def by fastforce

lemma writes_indent [inv_intros]: "writes (\<lambda>out. emit_indent out space n) (indentation space n)"
  unfolding writes_def emit_indent_def indentation_def by (intro allI impI sbuf.put_all_ok)

lemma writes_string [inv_intros]: "nul_free s \<Longrightarrow> writes (\<lambda>out. emit_string out (s @ [0])) (string_text s)"
  using emit_string_ok [of s _ "[]"] by (simp add: writes_def)

definition ascii :: "byte list \<Rightarrow> bool" where
  "ascii s \<longleftrightarrow> list_all (\<lambda>c. c \<noteq> 0 \<and> c \<le> 0x7F) s"

lemma ascii_simps [simp]:
  "ascii []" "ascii (c # s) \<longleftrightarrow> c \<noteq> 0 \<and> c \<le> 0x7F \<and> ascii s" "ascii (s @ t) \<longleftrightarrow> ascii s \<and> ascii t"
  by (auto simp: ascii_def)

lemma ascii_nul_free: "ascii s \<Longrightarrow> nul_free s"
  by (induction s) auto

lemma ascii_digits: "list_all is_digit ds \<Longrightarrow> ascii ds"
  by (auto simp: ascii_def list_all_iff is_digit_def word_le_nat_alt)

lemma json_number_ascii:
  assumes "json_number s"
  shows "ascii s"
proof -
  from assms obtain sg ip fr ex where s: "s = sg @ ip @ fr @ ex" "sg \<in> {[], [0x2D]}"
    "int_part ip" "frac_part fr" "exp_part ex" by (auto simp: json_number_def)
  have "ascii sg" using s(2) by auto
  moreover have "ascii ip" using s(3) ascii_digits by (auto simp: int_part_def)
  moreover have "ascii fr" using s(4) ascii_digits by (auto simp: frac_part_def)
  moreover have "ascii ex" using s(5) ascii_digits by (auto simp: exp_part_def)
  ultimately show ?thesis using s(1) by simp
qed

lemma fmt_g16_ascii: "ascii (fmt_g16 d)"
  using json_number_ascii [OF fmt_g16_number] by (cases d) (auto simp del: fmt_g16.simps(3))

lemmas fmt_g16_nul_free = ascii_nul_free [OF fmt_g16_ascii]

lemma writes_number [inv_intros]: "dbl_ok d \<Longrightarrow> writes (\<lambda>out. emit_number out d) (num_text d)"
proof -
  assume "dbl_ok d"
  then have "sprintf_buf 64 (fmt_g16 d) = Some (fmt_g16 d @ [0])"
    using fmt_g16_length [of d] by (simp add: sprintf_buf_def)
  then have e: "emit_number out d = (if json_number (fmt_g16 d) then sb_puts out (fmt_g16 d) else sb_puts out (bytes ''null''))" for out
    using number_is_valid_iff [OF fmt_g16_nul_free] cstr_terminated [OF fmt_g16_nul_free, of d "[]"]
    by (simp add: emit_number_def)
  have "\<not> json_number (bytes ''nan'')" "\<not> json_number (bytes ''inf'')" "\<not> json_number (bytes ''-inf'')"
  proof -
    have "number_is_valid (bytes ''nan'' @ [0]) = Some False" "number_is_valid (bytes ''inf'' @ [0]) = Some False"
      "number_is_valid (bytes ''-inf'' @ [0]) = Some False"
      by code_simp+
    then show "\<not> json_number (bytes ''nan'')" "\<not> json_number (bytes ''inf'')" "\<not> json_number (bytes ''-inf'')"
      using number_is_valid_iff [of "bytes ''nan''"] number_is_valid_iff [of "bytes ''inf''"]
        number_is_valid_iff [of "bytes ''-inf''"] by simp_all
  qed
  then have "json_number (fmt_g16 d) \<longleftrightarrow> (\<exists>s m e. d = Fin s m e)"
    using fmt_g16_number by (cases d) (auto simp del: bytes_Cons)
  then show ?thesis
    unfolding e num_text_def by (cases d) (auto intro: writes_puts)
qed

lemma writes_if [inv_intros]: "writes f v \<Longrightarrow> writes g w \<Longrightarrow> writes (\<lambda>out. if P then f out else g out) (if P then v else w)"
  by simp

lemma writes_as: "writes f v \<Longrightarrow> v = w \<Longrightarrow> writes f w"
  by simp

lemma writes_array [inv_intros]:
  "(\<And>x. x \<in> set xs \<Longrightarrow> writes (\<lambda>out. emit_value out x) (json_text x)) \<Longrightarrow>
    writes (\<lambda>out. emit_array out xs) (separated [0x2C] (map json_text xs))"
proof (induction xs)
  case (Cons x xs)
  show ?case
    unfolding emit_simps
    by (rule writes_as, (rule inv_intros Cons.prems Cons.IH list.set_intros)+)
       (simp_all add: Cons.prems separated_simps)
qed (simp add: writes_skip separated_simps)

lemma writes_object [inv_intros]:
  "(\<And>k v. (k, v) \<in> set ms \<Longrightarrow> nul_free k \<and> writes (\<lambda>out. emit_value out v) (json_text v)) \<Longrightarrow>
    writes (\<lambda>out. emit_object out ms)
      (separated [0x2C] (map (\<lambda>(k, v). string_text k @ [0x3A] @ json_text v) ms))"
proof (induction ms)
  case (Cons m ms)
  obtain k v where m: "m = (k, v)" by fastforce
  with Cons.prems have k: "nul_free k" and v: "writes (\<lambda>out. emit_value out v) (json_text v)" by auto
  show ?case
    unfolding emit_simps m
    by (rule writes_as, (rule inv_intros k v Cons)+) (simp_all add: Cons.prems separated_simps)
qed (simp add: writes_skip separated_simps)

lemma writes_value: "json_ok v \<Longrightarrow> writes (\<lambda>out. emit_value out v) (json_text v)"
proof (induction v)
  case (JArray xs)
  then show ?case unfolding emit_simps json_text.simps
    by (intro inv_intros) auto
next
  case (JObject ms)
  have "nul_free k \<and> writes (\<lambda>out. emit_value out v) (json_text v)" if "(k, v) \<in> set ms" for k v
    using JObject.IH [OF that, of v] JObject.prems that by auto
  then show ?case unfolding emit_simps json_text.simps
    by (intro inv_intros)
qed (auto intro: inv_intros)

lemma writes_array_indented [inv_intros]:
  "(\<And>x. x \<in> set xs \<Longrightarrow> writes (\<lambda>out. emit_value_indented out sp (l + 1) x) (json_text_indented sp (l + 1) x)) \<Longrightarrow>
    xs \<noteq> [] \<Longrightarrow> writes (\<lambda>out. emit_array_indented out sp l xs)
      (separated [0x2C, 0x0A] (map (\<lambda>x. indentation sp (l + 1) @ json_text_indented sp (l + 1) x) xs) @ [0x0A])"
proof (induction xs)
  case (Cons x xs)
  have v: "writes (\<lambda>out. emit_value_indented out sp (l + 1) x) (json_text_indented sp (l + 1) x)"
    using Cons.prems(1) by simp
  show ?case
  proof (cases "xs = []")
    case True
    show ?thesis
      unfolding emit_indented_simps True
      by (rule writes_as, (rule inv_intros v)+) (simp_all add: separated_simps writes_puts)
  next
    case False
    have rest: "writes (\<lambda>out. emit_array_indented out sp l xs)
      (separated [0x2C, 0x0A] (map (\<lambda>x. indentation sp (l + 1) @ json_text_indented sp (l + 1) x) xs) @ [0x0A])"
      by (rule Cons.IH) (use Cons.prems(1) False in auto)
    show ?thesis
      unfolding emit_indented_simps
      by (rule writes_as, (rule inv_intros v rest)+) (simp_all add: separated_simps False)
  qed
qed simp

lemma writes_object_indented [inv_intros]:
  "(\<And>k v. (k, v) \<in> set ms \<Longrightarrow> nul_free k \<and>
      writes (\<lambda>out. emit_value_indented out sp (l + 1) v) (json_text_indented sp (l + 1) v)) \<Longrightarrow>
    ms \<noteq> [] \<Longrightarrow> writes (\<lambda>out. emit_object_indented out sp l ms)
      (separated [0x2C, 0x0A] (map (\<lambda>(k, v). indentation sp (l + 1) @ string_text k @ [0x3A, 0x20] @
        json_text_indented sp (l + 1) v) ms) @ [0x0A])"
proof (induction ms)
  case (Cons m ms)
  obtain k v where m: "m = (k, v)" by fastforce
  with Cons.prems(1) have k: "nul_free k"
    and v: "writes (\<lambda>out. emit_value_indented out sp (l + 1) v) (json_text_indented sp (l + 1) v)" by auto
  show ?case
  proof (cases "ms = []")
    case True
    show ?thesis
      unfolding emit_indented_simps True m
      by (rule writes_as, (rule inv_intros k v)+) (simp_all add: separated_simps writes_puts)
  next
    case False
    show ?thesis
      unfolding emit_indented_simps m
      by (rule writes_as, (rule inv_intros k v Cons)+) (simp_all add: Cons.prems separated_simps False)
  qed
qed simp

lemma writes_value_indented:
  "json_ok v \<Longrightarrow> writes (\<lambda>out. emit_value_indented out sp l v) (json_text_indented sp l v)"
proof (induction v arbitrary: l)
  case (JArray xs)
  have "xs \<noteq> [] \<Longrightarrow> writes (\<lambda>out. emit_array_indented out sp l xs)
      (separated [0x2C, 0x0A] (map (\<lambda>x. indentation sp (l + 1) @ json_text_indented sp (l + 1) x) xs) @ [0x0A])"
    by (rule writes_array_indented) (use JArray in auto)
  note loop = this
  show ?case
  proof (cases "xs = []")
    case True
    then show ?thesis by (simp add: writes_puts)
  next
    case False
    then show ?thesis
      unfolding emit_indented_simps json_text_indented.simps if_not_P [OF False]
      by (intro writes_as [OF writes_bind [OF writes_puts writes_bind [OF loop [OF False]
            writes_bind [OF writes_indent writes_putc]]]]) simp
  qed
next
  case (JObject ms)
  have "nul_free k \<and> writes (\<lambda>out. emit_value_indented out sp (l + 1) v) (json_text_indented sp (l + 1) v)"
    if "(k, v) \<in> set ms" for k v
    using JObject.IH [OF that, of v] JObject.prems that by auto
  then have "ms \<noteq> [] \<Longrightarrow> writes (\<lambda>out. emit_object_indented out sp l ms)
      (separated [0x2C, 0x0A] (map (\<lambda>(k, v). indentation sp (l + 1) @ string_text k @ [0x3A, 0x20] @
        json_text_indented sp (l + 1) v) ms) @ [0x0A])"
    by (rule writes_object_indented)
  note loop = this
  show ?case
  proof (cases "ms = []")
    case True
    then show ?thesis by (simp add: writes_puts)
  next
    case False
    then show ?thesis
      unfolding emit_indented_simps json_text_indented.simps if_not_P [OF False]
      by (intro writes_as [OF writes_bind [OF writes_puts writes_bind [OF loop [OF False]
            writes_bind [OF writes_indent writes_putc]]]]) simp
  qed
qed (auto intro: inv_intros)

section \<open>The interface functions\<close>

definition stringified :: "json \<Rightarrow> byte list option \<Rightarrow> byte list" where
  "stringified v space = (case space of Some sp \<Rightarrow> json_text_indented sp 0 v | None \<Rightarrow> json_text v)"

lemma writes_finish: "writes f w \<Longrightarrow> do { out \<leftarrow> f sb_init; sb_finish out } = Some (w @ [0])"
  using sb_init_ok sb_finish_ok unfolding writes_def by fastforce

lemma json_stringify_text: "json_ok v \<Longrightarrow> json_stringify v space = Some (stringified v space @ [0])"
  unfolding json_stringify_def stringified_def
  using writes_finish [OF writes_value] writes_finish [OF writes_value_indented] by (cases space) simp_all

lemma json_encode_string_text: "nul_free s \<Longrightarrow> json_encode_string (s @ 0 # t) = Some (string_text s @ [0])"
  unfolding json_encode_string_def
  by (rule writes_finish) (use emit_string_ok in \<open>simp add: writes_def\<close>)

section \<open>The text is valid UTF-8\<close>

lemma valid_utf8_append: "valid_utf8 s \<Longrightarrow> valid_utf8 t \<Longrightarrow> valid_utf8 (s @ t)"
proof -
  assume "valid_utf8 s" "valid_utf8 t"
  then obtain us vs where "s = concat (map utf8_write_char us)" "\<forall>u \<in> set us. code_point (unat u) \<and> u \<noteq> 0"
    "t = concat (map utf8_write_char vs)" "\<forall>u \<in> set vs. code_point (unat u) \<and> u \<noteq> 0"
    by (auto simp: valid_utf8_def)
  then show ?thesis unfolding valid_utf8_def by (intro exI [of _ "us @ vs"]) auto
qed

lemma valid_utf8_concat: "(\<And>s. s \<in> set ss \<Longrightarrow> valid_utf8 s) \<Longrightarrow> valid_utf8 (concat ss)"
  by (induction ss) (simp_all add: valid_utf8_simps valid_utf8_append)

lemma valid_utf8_ascii: "ascii s \<Longrightarrow> valid_utf8 s"
proof (induction s)
  case (Cons c s)
  then show ?case using encodes_valid [OF encodes_ascii, of c s] by simp
qed (simp add: valid_utf8_simps)

lemma valid_utf8_lit:
  "c \<noteq> 0 \<Longrightarrow> c \<le> 0x7F \<Longrightarrow> valid_utf8 [c]"
  "c \<noteq> 0 \<Longrightarrow> c \<le> 0x7F \<Longrightarrow> d \<noteq> 0 \<Longrightarrow> d \<le> 0x7F \<Longrightarrow> valid_utf8 [c, d]"
  by (auto intro: valid_utf8_ascii)

lemma nibble_lt: "unat (v AND 0xF :: u16) < 16"
  using nat_and_masks(3) [of "unat v"] by (simp add: unsigned_and_eq)

lemma hex_chars_ascii: "n < 16 \<Longrightarrow> ascii [hex_chars ! n]"
proof -
  assume "n < 16"
  moreover have "list_all (\<lambda>c. c \<noteq> 0 \<and> c \<le> 0x7F) hex_chars" by (simp add: hex_chars_def)
  moreover have "length hex_chars = 16" by (simp add: hex_chars_def)
  ultimately show ?thesis by (simp add: list_all_length)
qed

lemma write_hex16_ascii: "ascii (write_hex16 v)"
  using hex_chars_ascii [OF nibble_lt] by (simp add: write_hex16_def)

lemma unicode_escape_ascii: "ascii (unicode_escape u)"
  by (simp add: unicode_escape_def write_hex16_ascii split: prod.split)

lemma escape_valid: "code_point (unat u) \<Longrightarrow> u \<noteq> 0 \<Longrightarrow> valid_utf8 (escape u)"
  using valid_utf8_simps(2) [of u "[]"]
  by (auto simp: escape_def valid_utf8_simps(1) intro!: valid_utf8_ascii unicode_escape_ascii)

lemma string_text_valid: "nul_free s \<Longrightarrow> valid_utf8 (string_text s)"
proof -
  assume "nul_free s"
  then have "valid_utf8 (concat (map escape (lossy s)))"
    using lossy_code_points [of s] by (intro valid_utf8_concat) (auto intro: escape_valid)
  then have "valid_utf8 ([0x22] @ concat (map escape (lossy s)) @ [0x22])"
    by (intro valid_utf8_append valid_utf8_lit) simp_all
  then show ?thesis by (simp add: string_text_def)
qed

lemma num_text_ascii: "ascii (num_text d)"
  using fmt_g16_ascii [of d] by (cases d) (simp_all add: num_text_def del: fmt_g16.simps(3))

lemma separated_valid:
  "valid_utf8 sep \<Longrightarrow> (\<And>t. t \<in> set ts \<Longrightarrow> valid_utf8 t) \<Longrightarrow> valid_utf8 (separated sep ts)"
  by (induction ts) (auto simp: separated_simps valid_utf8_simps(1) intro!: valid_utf8_append)

lemma indentation_valid: "valid_utf8 sp \<Longrightarrow> valid_utf8 (indentation sp n)"
  unfolding indentation_def by (rule valid_utf8_concat) (simp split: if_splits)

lemma json_text_valid: "json_ok v \<Longrightarrow> valid_utf8 (json_text v)"
proof (induction v)
  case (JArray xs)
  show ?case unfolding json_text.simps
    by (intro valid_utf8_append separated_valid valid_utf8_lit) (use JArray in auto)
next
  case (JObject ms)
  have "valid_utf8 (string_text k @ [0x3A] @ json_text v)" if "(k, v) \<in> set ms" for k v
    using JObject.IH [OF that, of v] JObject.prems that
    by (intro valid_utf8_append string_text_valid valid_utf8_lit) auto
  then show ?case unfolding json_text.simps
    by (intro valid_utf8_append separated_valid valid_utf8_lit) auto
qed (auto intro: valid_utf8_ascii string_text_valid num_text_ascii)

lemma json_text_indented_valid: "json_ok v \<Longrightarrow> valid_utf8 sp \<Longrightarrow> valid_utf8 (json_text_indented sp l v)"
proof (induction v arbitrary: l)
  case (JArray xs)
  show ?case unfolding json_text_indented.simps if_split [of valid_utf8]
    by (intro conjI impI valid_utf8_append separated_valid indentation_valid valid_utf8_lit JArray.prems)
       (use JArray in \<open>auto intro!: valid_utf8_append indentation_valid\<close>)
next
  case (JObject ms)
  have m: "valid_utf8 (indentation sp (l + 1) @ string_text k @ [0x3A, 0x20] @ json_text_indented sp (l + 1) v)"
    if "(k, v) \<in> set ms" for k v
    using JObject.IH [OF that, of v] JObject.prems that
    by (intro valid_utf8_append string_text_valid valid_utf8_lit indentation_valid) auto
  show ?case unfolding json_text_indented.simps if_split [of valid_utf8]
    by (intro conjI impI valid_utf8_append separated_valid indentation_valid valid_utf8_lit JObject.prems)
       (use m in auto)
qed (auto intro: valid_utf8_ascii string_text_valid num_text_ascii)

section \<open>Properties\<close>

text \<open>C15: stringifying any tree of C strings and doubles, compact or indented, never writes outside a
  buffer, always ends, and returns the text of the tree with its terminator.\<close>

theorem json_stringify_writes:
  assumes "json_ok v"
  shows "json_stringify v space = Some (stringified v space @ [0])"
  using assms by (rule json_stringify_text)

theorem json_stringify_writes_witness:
  "json_stringify (JArray [JNumber NaN, JString [0xFF]]) (Some [0x20]) =
    Some (stringified (JArray [JNumber NaN, JString [0xFF]]) (Some [0x20]) @ [0])"
  by (rule json_stringify_writes) simp

text \<open>The text is valid UTF-8, even where the strings of the tree are not: stray bytes become
  replacement characters.\<close>

lemma json_stringify_utf8:
  assumes "json_ok v" "\<forall>sp. space = Some sp \<longrightarrow> valid_utf8 sp"
  shows "\<exists>t. json_stringify v space = Some (t @ [0]) \<and> valid_utf8 t"
  using assms json_stringify_text [of v space] json_text_valid json_text_indented_valid
  by (auto simp: stringified_def split: option.splits)

text \<open>A string is emitted as the escapes of its code points between quotes, a byte that is not part
  of a valid character standing for U+FFFD; and nothing behind the terminator matters.\<close>

lemma json_encode_string_escapes:
  assumes "nul_free s"
  shows "json_encode_string (s @ 0 # t) = Some (0x22 # concat (map escape (lossy s)) @ [0x22, 0])"
  using json_encode_string_text [OF assms, of t] by (simp add: string_text_def)

end
