(* ===== verification/JsonRoundtrip.thy ===== *)
theory JsonRoundtrip
  imports JsonParse JsonEmit
begin

text \<open>
  Encoder and decoder of \<open>src/util/json.c\<close> together: what the encoder writes, the decoder reads back.
  Both layouts of the encoder are instances of one text with white space between the tokens; the
  decoder returns the canonical form of the tree (stray bytes replaced, numbers as 16 digits say,
  numbers without text as null). The one exception is the control character 1F, which the encoder
  leaves as it is and the decoder rejects.
\<close>

section \<open>Hexadecimal digits\<close>

lemma hex_digit_char: "n < 16 \<Longrightarrow> hex_digit (hex_chars ! n) = Some (word_of_nat n)"
proof -
  have "\<forall>n \<in> set [0..<16]. hex_digit (hex_chars ! n) = Some (word_of_nat n)" by code_simp
  then show "n < 16 \<Longrightarrow> hex_digit (hex_chars ! n) = Some (word_of_nat n)" by simp
qed

lemma nibbles:
  fixes v :: u16
  shows "push_bit 4 (push_bit 4 (push_bit 4 (push_bit 4 0 + (drop_bit 12 v AND 0xF)) + (drop_bit 8 v AND 0xF)) +
    (drop_bit 4 v AND 0xF)) + (v AND 0xF) = v"
proof -
  have d: "unat (push_bit 4 x + y) = (unat x * 16 + unat y) mod 65536" for x y :: u16
    by (simp add: unat_word_ariths unat_bits mod_simps)
  have v: "unat v < 65536" using unsigned_less [where w = v] by simp
  then have m: "unat v mod 65536 = unat v" "unat v div 4096 < 16" by simp_all
  have a: "unat (drop_bit 12 v AND 0xF) = unat v div 4096 mod 16" "unat (drop_bit 8 v AND 0xF) = unat v div 256 mod 16"
    "unat (drop_bit 4 v AND 0xF) = unat v div 16 mod 16" "unat (v AND 0xF) = unat v mod 16"
    using m by (simp_all add: unat_bits)
  have step: "v div (k * 16) * 16 + v div k mod 16 = v div k" for v k :: nat
    by (simp add: div_mult2_eq)
  have less: "unat v div k mod 65536 = unat v div k" for k
    using v by (intro mod_less) (rule le_less_trans [OF div_le_dividend])
  have "(0 * 16 + unat v div 4096 mod 16) mod 65536 = unat v div 4096" using m by simp
  moreover have "(unat v div 4096 * 16 + unat v div 256 mod 16) mod 65536 = unat v div 256"
    using step [of "unat v" 256] less [of 256] by simp
  moreover have "(unat v div 256 * 16 + unat v div 16 mod 16) mod 65536 = unat v div 16"
    using step [of "unat v" 16] less [of 16] by simp
  moreover have "(unat v div 16 * 16 + unat v mod 16) mod 65536 = unat v" using m by simp
  ultimately have "((((0 * 16 + unat v div 4096 mod 16) mod 65536 * 16 + unat v div 256 mod 16) mod 65536 * 16 +
    unat v div 16 mod 16) mod 65536 * 16 + unat v mod 16) mod 65536 = unat v" by (simp only:)
  then show ?thesis
    by (intro word_unat_eq_iff [THEN iffD2]) (simp only: d a unsigned_0)
qed

lemma parse_write_hex16: "parse_hex16 (write_hex16 v @ r) = Some (Parsed v r)"
proof -
  have h: "hex_digit (hex_chars ! unat (x AND 0xF :: u16)) = Some (x AND 0xF)" for x
    using hex_digit_char [OF nibble_lt [of x]] by simp
  have four: "parse_hex_digits 4 = parse_hex_digits (Suc (Suc (Suc (Suc 0))))" by (simp add: eval_nat_numeral)
  show ?thesis
    unfolding parse_hex16_def write_hex16_def four
    by (simp only: parse_hex_digits.simps append.simps deref.simps list.sel Option.bind.simps h
        option.case nibbles)
qed

section \<open>Strings\<close>

lemma parse_char_escape:
  assumes "code_point (unat u)" "u \<noteq> 0" "u \<noteq> 0x1F"
  shows "parse_char (escape u @ r) = Some (Parsed (utf8_write_char u) r)"
    and "\<exists>c w. escape u = c # w \<and> c \<noteq> 0x22"
proof -
  have lit: "c \<le> 0x7F \<Longrightarrow> u = ucast c \<Longrightarrow> utf8_write_char u = [c]" for c :: byte using utf8_write_ascii by simp
  have direct: "parse_char (utf8_write_char u @ r) = Some (Parsed (utf8_write_char u) r)"
    if c: "utf8_write_char u = c # w" "c \<noteq> 0x5C" "\<not> c \<le> 0x1F" for c w
    using c utf8_validate_write [OF assms(1), of r] by (simp add: parse_char_def)
  have "parse_char (escape u @ r) = Some (Parsed (utf8_write_char u) r) \<and> (\<exists>c w. escape u = c # w \<and> c \<noteq> 0x22)"
    using assms(1)
  proof (cases rule: write_char_head)
    case (ascii c)
    consider "u = 0x22" | "u = 0x5C" | "u = 0x08" | "u = 0x0C" | "u = 0x0A" | "u = 0x0D" | "u = 0x09"
      | "u < 0x1F" "u \<notin> {0x22, 0x5C, 0x08, 0x0C, 0x0A, 0x0D, 0x09}"
      | "\<not> u < 0x1F" "u \<noteq> 0x22" "u \<noteq> 0x5C" by blast
    then show ?thesis
    proof cases
      case 8
      have "unat u < 31" using 8(1) by (simp add: word_less_nat_alt)
      moreover from this have "take_bit 16 (unat u) = unat u" by (simp add: take_bit_nat_eq_self_iff)
      ultimately have s: "ucast (ucast u :: u16) = u" "\<not> ((ucast u :: u16) \<ge> 0xD800)" "(ucast u :: u16) \<noteq> 0" "u \<le> 0xFFFF"
        using assms(2) by (simp_all add: word_unat_eq_iff word_le_nat_alt unsigned_ucast_eq unsigned_take_bit_eq)
      have e: "escape u = [0x5C, 0x75] @ write_hex16 (ucast u)"
        using 8 s(4) by (simp add: escape_def unicode_escape_def)
      then show ?thesis
        using s by (simp add: parse_char_def parse_escape_def parse_unicode_def parse_write_hex16)
    next
      case 9
      have e: "escape u = utf8_write_char u"
        unfolding escape_def using 9 by (auto simp: word_less_nat_alt)
      have "c \<noteq> 0x5C" "c \<noteq> 0x22" "\<not> c \<le> 0x1F"
        using 9 ascii(1) assms(3) by (auto simp: word_less_nat_alt word_le_nat_alt unat_ucast_byte word_unat_eq_iff)
      with e direct [OF ascii(3)] ascii(3) show ?thesis by simp
    qed (simp_all add: escape_def parse_char_def parse_escape_def utf8_write_char_def)
  next
    case (high c w)
    have "escape u = utf8_write_char u" unfolding escape_def using high(1) by (auto simp: word_less_nat_alt word_le_nat_alt)
    moreover have "c \<noteq> 0x5C" "c \<noteq> 0x22" "\<not> c \<le> 0x1F" using high(3) by (auto simp: word_le_nat_alt)
    ultimately show ?thesis using direct [OF high(2)] high(2) by simp
  qed
  then show "parse_char (escape u @ r) = Some (Parsed (utf8_write_char u) r)"
    "\<exists>c w. escape u = c # w \<and> c \<noteq> 0x22" by blast+
qed

definition clean :: "u32 list \<Rightarrow> bool" where
  "clean us \<longleftrightarrow> (\<forall>u \<in> set us. code_point (unat u) \<and> u \<noteq> 0 \<and> u \<noteq> 0x1F)"

lemma parse_escapes:
  "clean us \<Longrightarrow> sb_room b 4 \<Longrightarrow>
    \<exists>b'. parse_string_loop True b (concat (map escape us) @ r) = parse_string_loop True b' r \<and> sb_room b' 4 \<and>
      sb_text b' = sb_text b @ concat (map utf8_write_char us)"
proof (induction us arbitrary: b)
  case Nil
  then show ?case by auto
next
  case (Cons u us)
  have u: "code_point (unat u)" "u \<noteq> 0" "u \<noteq> 0x1F" and us: "clean us" using Cons.prems(1) by (auto simp: clean_def)
  let ?r = "concat (map escape us) @ r"
  obtain c w where e: "escape u = c # w" "c \<noteq> 0x22" using parse_char_escape(2) [OF u] by blast
  have "length (utf8_write_char u) \<le> 4" by (simp add: utf8_write_char_def)
  from sb_store_room [OF Cons.prems(2) this] obtain b1
    where b1: "sb_store b (utf8_write_char u) = Some b1" "sb_ok b1" "sb_text b1 = sb_text b @ utf8_write_char u"
    using sb_room_ok by blast
  from sb_need_room [OF b1(2), of 4] obtain b2
    where b2: "sb_need b1 4 = Some b2" "sb_room b2 4" "sb_text b2 = sb_text b1" by blast
  have "parse_string_loop True b (escape u @ ?r) = parse_string_loop True b2 ?r"
    using parse_char_escape(1) [OF u, of ?r] e b1 b2 by (subst parse_string_loop.simps) simp
  with Cons.IH [OF us b2(2)] b1 b2 show ?case by simp
qed

lemma string_loop_quote: "parse_string_loop out b (0x22 # t) = Some (Parsed b t)"
  by (subst parse_string_loop.simps) simp

lemma string_loop_1F: "parse_string_loop out b (0x1F # t) = Some Rejected"
  by (subst parse_string_loop.simps) (simp add: parse_char_def)

definition repaired :: "byte list \<Rightarrow> byte list" where
  "repaired s = concat (map utf8_write_char (lossy s))"

lemma repaired_valid: "valid_utf8 s \<Longrightarrow> repaired s = s"
  by (auto simp: repaired_def valid_utf8_def lossy_valid)

lemma lossy_1F: "nul_free s \<Longrightarrow> 0x1F \<notin> set s \<Longrightarrow> 0x1F \<notin> set (lossy s)"
proof (induction s rule: length_induct)
  case (1 s)
  show ?case
  proof (cases "s = []")
    case True
    then show ?thesis by (simp add: lossy.simps)
  next
    case False
    with "1.prems"(1) show ?thesis
    proof (cases rule: lossy_cases)
      case (char u s')
      have "length s' < length s" "nul_free s'" "0x1F \<notin> set s'"
        using char(1) "1.prems" utf8_write_nonempty [of u] by auto
      with "1.IH" have "0x1F \<notin> set (lossy s')" by blast
      moreover have "u \<noteq> 0x1F" using char(1) "1.prems"(2) by (auto simp: utf8_write_char_def)
      ultimately show ?thesis using char(5) by simp
    next
      case (stray c s')
      have "length s' < length s" "nul_free s'" "0x1F \<notin> set s'" using stray(1) "1.prems" by auto
      with "1.IH" have "0x1F \<notin> set (lossy s')" by blast
      with stray(4) show ?thesis by simp
    qed
  qed
qed

lemma parse_string_text:
  assumes "nul_free s" "0x1F \<notin> set s"
  shows "parse_string True (string_text s @ t) = Some (Parsed (repaired s) t)"
proof -
  have c: "clean (lossy s)" using lossy_code_points [OF assms(1)] lossy_1F [OF assms] by (auto simp: clean_def)
  from sb_need_room [OF sb_init_ok(1), of 4] obtain b
    where b: "sb_need sb_init 4 = Some b" "sb_room b 4" "sb_text b = []" by (auto simp: sb_init_ok)
  from parse_escapes [OF c b(2), of "0x22 # t"] b obtain b' where
    b': "parse_string_loop True b (concat (map escape (lossy s)) @ 0x22 # t) = Some (Parsed b' t)" "sb_ok b'"
      "sb_text b' = repaired s" by (auto simp: repaired_def string_loop_quote sb_room_ok)
  have "nul_free (repaired s)"
    using c by (intro valid_utf8_nul_free) (auto simp: repaired_def valid_utf8_def clean_def)
  then have "sb_finish b' = Some (repaired s @ [0])" "cstr (repaired s @ [0]) = Some (repaired s)"
    using sb_finish_ok [OF b'(2)] b'(3) by (simp_all add: cstr_terminated)
  with b b' show ?thesis by (simp add: parse_string_def string_text_def)
qed

section \<open>Layouts\<close>

text \<open>Both texts of a tree are its tokens with white space behind opening brackets and commas, in front
  of closing brackets and behind colons.\<close>

fun json_layout :: "(nat \<Rightarrow> byte list) \<Rightarrow> (nat \<Rightarrow> byte list) \<Rightarrow> byte list \<Rightarrow> nat \<Rightarrow> json \<Rightarrow> byte list" where
  "json_layout opn cls col l (JArray xs) =
    (if xs = [] then [0x5B, 0x5D] else
      0x5B # opn l @ separated (0x2C # opn l) (map (json_layout opn cls col (Suc l)) xs) @ cls l @ [0x5D])"
| "json_layout opn cls col l (JObject ms) =
    (if ms = [] then [0x7B, 0x7D] else
      0x7B # opn l @ separated (0x2C # opn l)
        (map (\<lambda>(k, v). string_text k @ 0x3A # col @ json_layout opn cls col (Suc l) v) ms) @ cls l @ [0x7D])"
| "json_layout opn cls col l v = json_text v"

lemma json_text_layout: "json_text v = json_layout (\<lambda>_. []) (\<lambda>_. []) [] l v"
proof (induction v arbitrary: l)
  case (JArray xs)
  then have "map json_text xs = map (json_layout (\<lambda>_. []) (\<lambda>_. []) [] (Suc l)) xs" by simp
  note m = this
  show ?case unfolding json_text.simps json_layout.simps m by (simp add: separated_simps)
next
  case (JObject ms)
  have "json_text v = json_layout (\<lambda>_. []) (\<lambda>_. []) [] (Suc l) v" if "(k, v) \<in> set ms" for k v
    using JObject.IH [OF that, of v] by simp
  then have m: "map (\<lambda>(k, v). string_text k @ [0x3A] @ json_text v) ms =
      map (\<lambda>(k, v). string_text k @ 0x3A # json_layout (\<lambda>_. []) (\<lambda>_. []) [] (Suc l) v) ms" by auto
  show ?case unfolding json_text.simps json_layout.simps m by (simp add: separated_simps)
qed simp_all

lemma separated_prefix:
  "xs \<noteq> [] \<Longrightarrow> separated sep (map (\<lambda>x. p @ f x) xs) = p @ separated (sep @ p) (map f xs)"
  by (induction xs) (auto simp: separated_simps)

lemma json_text_indented_layout:
  "json_text_indented sp l v =
    json_layout (\<lambda>l. 0x0A # indentation sp (l + 1)) (\<lambda>l. 0x0A # indentation sp l) [0x20] l v"
proof (induction v arbitrary: l)
  case (JArray xs)
  let ?f = "json_layout (\<lambda>l. 0x0A # indentation sp (l + 1)) (\<lambda>l. 0x0A # indentation sp l) [0x20]"
  have "map (\<lambda>x. indentation sp (l + 1) @ json_text_indented sp (l + 1) x) xs =
      map (\<lambda>x. indentation sp (l + 1) @ ?f (Suc l) x) xs" using JArray by simp
  note m = this
  show ?case unfolding json_text_indented.simps json_layout.simps m
    using separated_prefix [of xs "[0x2C, 0x0A]" "indentation sp (l + 1)" "?f (Suc l)"] by simp
next
  case (JObject ms)
  let ?f = "json_layout (\<lambda>l. 0x0A # indentation sp (l + 1)) (\<lambda>l. 0x0A # indentation sp l) [0x20]"
  have "json_text_indented sp (l + 1) v = ?f (Suc l) v" if "(k, v) \<in> set ms" for k v
    using JObject.IH [OF that, of v] by simp
  then have m: "map (\<lambda>(k, v). indentation sp (l + 1) @ string_text k @ [0x3A, 0x20] @ json_text_indented sp (l + 1) v) ms =
      map (\<lambda>m. indentation sp (l + 1) @ (case m of (k, v) \<Rightarrow> string_text k @ [0x3A, 0x20] @ ?f (Suc l) v)) ms" by auto
  show ?case unfolding json_text_indented.simps json_layout.simps m
    using separated_prefix [of ms "[0x2C, 0x0A]" "indentation sp (l + 1)"
      "\<lambda>(k, v). string_text k @ [0x3A, 0x20] @ ?f (Suc l) v"] by simp
qed simp_all

section \<open>What comes back\<close>

fun canon :: "json \<Rightarrow> json" where
  "canon (JString s) = JString (repaired s)"
| "canon (JNumber d) = (case d of Fin _ _ _ \<Rightarrow> JNumber (strtod (fmt_g16 d)) | _ \<Rightarrow> JNull)"
| "canon (JArray xs) = JArray (map canon xs)"
| "canon (JObject ms) = JObject (map (\<lambda>(k, v). (repaired k, canon v)) ms)"
| "canon v = v"

text \<open>No string or key of the tree holds the control character 1F.\<close>

definition no_1F :: "json \<Rightarrow> bool" where
  "no_1F v \<longleftrightarrow> (\<forall>s \<in> set (json_strings v). 0x1F \<notin> set s)"

lemma no_1F_simps [simp]:
  "no_1F JNull" "no_1F (JBool b)" "no_1F (JNumber d)"
  "no_1F (JString s) \<longleftrightarrow> 0x1F \<notin> set s"
  "no_1F (JArray xs) \<longleftrightarrow> (\<forall>x \<in> set xs. no_1F x)"
  "no_1F (JObject ms) \<longleftrightarrow> (\<forall>(k, v) \<in> set ms. 0x1F \<notin> set k \<and> no_1F v)"
  by (auto simp: no_1F_def)

section \<open>Tokens\<close>

definition spaces :: "byte list \<Rightarrow> bool" where
  "spaces w \<longleftrightarrow> list_all is_space w"

lemma skip_spaces: "spaces w \<Longrightarrow> m \<noteq> [] \<Longrightarrow> \<not> is_space (hd m) \<Longrightarrow> skip_space (w @ m) = Some m"
  by (induction w) (auto simp: spaces_def skip_space_stay)

text \<open>The first byte of a value.\<close>

definition starts_value :: "byte list \<Rightarrow> bool" where
  "starts_value w \<longleftrightarrow> w \<noteq> [] \<and> hd w \<in> {0x6E, 0x66, 0x74, 0x22, 0x5B, 0x7B, 0x2D} \<union> Collect is_digit"

lemma digit_bytes: "is_digit c \<Longrightarrow> c \<notin> {0x6E, 0x66, 0x74, 0x22, 0x5B, 0x7B, 0x5D, 0x7D, 0x09, 0x0A, 0x0D, 0x20}"
  by (auto simp: is_digit_def word_le_nat_alt)

lemma starts_value_no_space:
  "starts_value w \<Longrightarrow> w \<noteq> [] \<and> \<not> is_space (hd (w @ r)) \<and> hd (w @ r) \<noteq> 0x5D \<and> hd (w @ r) \<noteq> 0x7D"
  using digit_bytes [of "hd w"] by (cases w) (auto simp: starts_value_def is_space_def)

lemma json_number_starts: "json_number w \<Longrightarrow> \<exists>c s. w = c # s \<and> (c = 0x2D \<or> is_digit c)"
  by (auto simp: json_number_def int_part_def is_digit_def neq_Nil_conv)

lemma num_text_starts: "starts_value (num_text d)"
proof (cases d)
  case (Fin s m e)
  with json_number_starts [OF fmt_g16_number [of s m e]] show ?thesis
    by (auto simp: num_text_def starts_value_def simp del: fmt_g16.simps)
qed (simp_all add: num_text_def starts_value_def)

lemma layout_starts: "starts_value (json_layout opn cls col l v)"
  by (cases v) (simp_all add: num_text_starts, simp_all add: starts_value_def string_text_def)

text \<open>What may follow a value.\<close>

abbreviation follows :: "byte list \<Rightarrow> bool" where
  "follows t \<equiv> stops {0x2E, 0x65, 0x45} t"

lemma follows_space: "spaces w \<Longrightarrow> follows (c # t) \<Longrightarrow> follows (w @ c # t)"
  by (cases w) (auto simp: stops_def spaces_def is_space_def is_digit_def)

lemma parse_number_text:
  assumes "d = Fin s m e" "follows t"
  shows "parse_value (Suc n) True (num_text d @ t) = Some (Parsed (JNumber (strtod (fmt_g16 d))) t)"
proof -
  note j = fmt_g16_number [of s m e, folded assms(1)]
  have "strtod (fmt_g16 d @ t) = strtod (fmt_g16 d)"
    by (rule strtod_local [OF j]) (use assms(2) in \<open>auto simp: stops_def split: list.split\<close>)
  with parse_number_complete [OF j assms(2)]
  have p: "parse_number (fmt_g16 d @ t) = Some (Parsed (strtod (fmt_g16 d)) t)" by simp
  from json_number_starts [OF j] obtain c w where c: "fmt_g16 d = c # w" "c = 0x2D \<or> is_digit c" by blast
  then have "c \<notin> {0x6E, 0x66, 0x74, 0x22, 0x5B, 0x7B}" using digit_bytes [of c] by auto
  with c p have "parse_value (Suc n) True (fmt_g16 d @ t) = Some (Parsed (JNumber (strtod (fmt_g16 d))) t)"
    by (simp add: built_def)
  then show ?thesis by (simp add: num_text_def assms(1) del: fmt_g16.simps)
qed

lemma parse_literal:
  "expect_literal s (s @ t) = Some (Parsed () t)"
  by (induction s) simp_all

lemma parse_literals:
  "parse_value (Suc n) True (bytes ''null'' @ t) = Some (Parsed JNull t)"
  "parse_value (Suc n) True (bytes ''true'' @ t) = Some (Parsed (JBool True) t)"
  "parse_value (Suc n) True (bytes ''false'' @ t) = Some (Parsed (JBool False) t)"
  by (simp_all add: built_def)

section \<open>Values\<close>

lemma follows_simps [simp]:
  "follows (0x2C # t)" "follows (0x5D # t)" "follows (0x7D # t)" "follows (0 # t)"
  by (auto simp: stops_def is_digit_def)

lemma skip_spaces_to:
  "spaces w \<Longrightarrow> \<not> is_space c \<Longrightarrow> skip_space (w @ c # t) = Some (c # t)"
  by (rule skip_spaces) simp_all

lemma skip_spaces_value:
  "spaces w \<Longrightarrow> starts_value v \<Longrightarrow> skip_space (w @ v @ t) = Some (v @ t)"
  using starts_value_no_space [of v t] by (intro skip_spaces) auto

lemma token_no_space [simp]:
  "\<not> is_space 0x2C" "\<not> is_space 0x5D" "\<not> is_space 0x7D" "\<not> is_space 0x3A" "\<not> is_space 0x22" "\<not> is_space 0"
  by (simp_all add: is_space_def)

lemma parse_elements_text:
  assumes "spaces ws" "spaces ws'"
  shows "(\<And>x r. x \<in> set xs \<Longrightarrow> follows r \<Longrightarrow> pv (tx x @ r) = Some (Parsed (f x) r)) \<Longrightarrow>
    (\<And>x. x \<in> set xs \<Longrightarrow> starts_value (tx x)) \<Longrightarrow> xs \<noteq> [] \<Longrightarrow>
    parse_elements pv acc (separated (0x2C # ws) (map tx xs) @ ws' @ 0x5D # t) = Some (Parsed (acc @ map f xs) t)"
proof (induction xs arbitrary: acc)
  case (Cons x xs)
  show ?case
  proof (cases "xs = []")
    case True
    have "pv (tx x @ ws' @ 0x5D # t) = Some (Parsed (f x) (ws' @ 0x5D # t))"
      by (rule Cons.prems(1)) (simp_all add: follows_space assms)
    then show ?thesis
      by (subst parse_elements.simps) (simp add: True separated_simps skip_spaces_to assms)
  next
    case False
    then obtain y ys where xs: "xs = y # ys" by (cases xs) auto
    let ?rest = "separated (0x2C # ws) (map tx xs) @ ws' @ 0x5D # t"
    have "pv (tx x @ 0x2C # ws @ ?rest) = Some (Parsed (f x) (0x2C # ws @ ?rest))"
      by (rule Cons.prems(1)) simp_all
    moreover have "skip_space (ws @ ?rest) = Some ?rest"
      using skip_spaces_value [OF assms(1) Cons.prems(2) [of y]] xs by (simp add: separated_simps)
    moreover have "parse_elements pv (acc @ [f x]) ?rest = Some (Parsed ((acc @ [f x]) @ map f xs) t)"
      by (rule Cons.IH) (use Cons.prems False in auto)
    ultimately show ?thesis
      by (subst parse_elements.simps) (simp add: separated_simps False skip_space_stay)
  qed
qed simp

lemma parse_members_text:
  assumes "spaces ws" "spaces ws'" "spaces col"
  shows "(\<And>k v r. (k, v) \<in> set ms \<Longrightarrow> follows r \<Longrightarrow> pv (tx v @ r) = Some (Parsed (f v) r)) \<Longrightarrow>
    (\<And>k v. (k, v) \<in> set ms \<Longrightarrow> starts_value (tx v) \<and> nul_free k \<and> 0x1F \<notin> set k) \<Longrightarrow> ms \<noteq> [] \<Longrightarrow>
    parse_members pv (parse_string True) acc
      (separated (0x2C # ws) (map (\<lambda>(k, v). string_text k @ 0x3A # col @ tx v) ms) @ ws' @ 0x7D # t) =
      Some (Parsed (acc @ map (\<lambda>(k, v). (repaired k, f v)) ms) t)"
proof (induction ms arbitrary: acc)
  case (Cons m ms)
  obtain k v where m: "m = (k, v)" by fastforce
  with Cons.prems(2) have k: "starts_value (tx v)" "nul_free k" "0x1F \<notin> set k" by auto
  note key = parse_string_text [OF k(2,3)]
  have pv: "follows r \<Longrightarrow> pv (tx v @ r) = Some (Parsed (f v) r)" for r
    using Cons.prems(1) m by auto
  have col: "skip_space (col @ tx v @ r) = Some (tx v @ r)" for r
    using skip_spaces_value [OF assms(3) k(1)] .
  show ?case
  proof (cases "ms = []")
    case True
    have "pv (tx v @ ws' @ 0x7D # t) = Some (Parsed (f v) (ws' @ 0x7D # t))"
      by (rule pv) (simp add: follows_space assms)
    then show ?thesis
      by (subst parse_members.simps) (simp add: True m separated_simps key col skip_space_stay skip_spaces_to assms)
  next
    case False
    then obtain k' v' ms' where ms: "ms = (k', v') # ms'" by (cases ms) auto
    let ?rest = "separated (0x2C # ws) (map (\<lambda>(k, v). string_text k @ 0x3A # col @ tx v) ms) @ ws' @ 0x7D # t"
    have "pv (tx v @ 0x2C # ws @ ?rest) = Some (Parsed (f v) (0x2C # ws @ ?rest))"
      by (rule pv) simp
    moreover have "skip_space (ws @ ?rest) = Some ?rest"
      using skip_spaces_to [OF assms(1), of "0x22"] ms by (simp add: separated_simps string_text_def)
    moreover have "parse_members pv (parse_string True) (acc @ [(repaired k, f v)]) ?rest =
        Some (Parsed ((acc @ [(repaired k, f v)]) @ map (\<lambda>(k, v). (repaired k, f v)) ms) t)"
    proof (rule Cons.IH [OF _ _ False])
      show "pv (tx v @ r) = Some (Parsed (f v) r)" if "(k, v) \<in> set ms" "follows r" for k v r
        using Cons.prems(1) [OF list.set_intros(2) [OF that(1)] that(2)] .
      show "starts_value (tx v) \<and> nul_free k \<and> 0x1F \<notin> set k" if "(k, v) \<in> set ms" for k v
        using Cons.prems(2) [OF list.set_intros(2) [OF that]] .
    qed
    ultimately show ?thesis
      by (subst parse_members.simps) (simp add: m separated_simps False key col skip_space_stay)
  qed
qed simp

lemma separated_length: "t \<in> set ts \<Longrightarrow> length t \<le> length (separated sep ts)"
  by (induction ts) (auto simp: separated_simps)

lemma parse_layout:
  assumes "\<And>l. spaces (opn l)" "\<And>l. spaces (cls l)" "spaces col"
  shows "json_ok v \<Longrightarrow> no_1F v \<Longrightarrow> follows t \<Longrightarrow> length (json_layout opn cls col l v) \<le> n \<Longrightarrow>
    parse_value n True (json_layout opn cls col l v @ t) = Some (Parsed (canon v) t)"
proof (induction v arbitrary: l t n)
  case JNull
  then show ?case using parse_literals(1) [of "n - 1" t] by (cases n) simp_all
next
  case (JBool b)
  then show ?case using parse_literals(2,3) [of "n - 1" t] by (cases n; cases b) (simp_all split: if_splits)
next
  case (JString s)
  then obtain k where n: "n = Suc k" by (cases n) (simp_all add: string_text_def)
  have "parse_string True (string_text s @ t) = Some (Parsed (repaired s) t)"
    using JString by (intro parse_string_text) simp_all
  then show ?case by (simp add: n built_def string_text_def)
next
  case (JNumber d)
  then obtain k where n: "n = Suc k" using num_text_starts [of d] by (cases n) (simp_all add: starts_value_def)
  show ?case
  proof (cases d)
    case (Fin s m e)
    with parse_number_text [OF Fin, of t k] JNumber.prems n show ?thesis
      by (simp del: fmt_g16.simps parse_value.simps)
  qed (use n parse_literals(1) [of k t] in \<open>simp_all add: num_text_def\<close>)
next
  case (JArray xs)
  then obtain k where n: "n = Suc k" by (cases n) (simp_all split: if_splits)
  let ?f = "json_layout opn cls col (Suc l)"
  show ?case
  proof (cases "xs = []")
    case True
    then show ?thesis by (simp add: n parse_array_def built_def skip_space_stay)
  next
    case False
    then obtain y ys where xs: "xs = y # ys" by (cases xs) auto
    have len: "length (?f x) \<le> k" if "x \<in> set xs" for x
      using separated_length [of "?f x" "map ?f xs" "0x2C # opn l"] that JArray.prems(4) False n by simp
    have e: "parse_elements (parse_value k True) [] (separated (0x2C # opn l) (map ?f xs) @ cls l @ 0x5D # t) =
        Some (Parsed ([] @ map canon xs) t)"
      by (rule parse_elements_text) (use JArray False len in \<open>auto simp: assms layout_starts\<close>)
    let ?rest = "separated (0x2C # opn l) (map ?f xs) @ cls l @ 0x5D # t"
    have s: "skip_space (opn l @ ?rest) = Some ?rest"
      using skip_spaces_value [OF assms(1) layout_starts] xs by (simp add: separated_simps)
    obtain c r where c: "?rest = c # r" "c \<noteq> 0x5D"
      using starts_value_no_space [OF layout_starts, of opn cls col "Suc l" y]  layout_starts [of opn cls col "Suc l" y] xs
      by (cases "?f y") (auto simp: separated_simps starts_value_def)
    have "parse_array (parse_value k True) (json_layout opn cls col l (JArray xs) @ t) = Some (Parsed (map canon xs) t)"
      using False e s c by (simp add: parse_array_def)
    then show ?thesis using False by (simp add: n built_def)
  qed
next
  case (JObject ms)
  then obtain k where n: "n = Suc k" by (cases n) (simp_all split: if_splits)
  let ?f = "json_layout opn cls col (Suc l)"
  let ?m = "\<lambda>(k, v). string_text k @ 0x3A # col @ ?f v"
  show ?case
  proof (cases "ms = []")
    case True
    then show ?thesis by (simp add: n parse_object_def built_def skip_space_stay)
  next
    case False
    then obtain key v ms' where ms: "ms = (key, v) # ms'" by (cases ms) auto
    have len: "length (?f v) \<le> k" if "(q, v) \<in> set ms" for q v
      using separated_length [of "?m (q, v)" "map ?m ms" "0x2C # opn l"] that JObject.prems(4) False n by force
    let ?rest = "separated (0x2C # opn l) (map ?m ms) @ cls l @ 0x7D # t"
    have ok: "json_ok v \<and> no_1F v \<and> nul_free q \<and> 0x1F \<notin> set q" if "(q, v) \<in> set ms" for q v
      using JObject.prems that by auto
    have e: "parse_members (parse_value k True) (parse_string True) [] ?rest =
        Some (Parsed ([] @ map (\<lambda>(k, v). (repaired k, canon v)) ms) t)"
    proof (rule parse_members_text)
      fix q v r assume "(q, v) \<in> set ms" "follows r"
      then show "parse_value k True (?f v @ r) = Some (Parsed (canon v) r)"
        using JObject.IH [of "(q, v)" v] ok len by auto
    qed (use ok False in \<open>auto simp: assms layout_starts\<close>)
    have s: "skip_space (opn l @ ?rest) = Some ?rest" and c: "\<exists>r. ?rest = 0x22 # r"
      using skip_spaces_to [OF assms(1), of "0x22"] ms by (simp_all add: separated_simps string_text_def)
    then have "parse_object (parse_value k True) (parse_string True) (json_layout opn cls col l (JObject ms) @ t) =
        Some (Parsed (map (\<lambda>(k, v). (repaired k, canon v)) ms) t)"
      using False e by (auto simp: parse_object_def)
    then show ?thesis using False by (simp add: n built_def)
  qed
qed

section \<open>Documents\<close>

lemma spaces_indentation: "spaces sp \<Longrightarrow> spaces (indentation sp n)"
  by (induction n) (simp_all add: spaces_def indentation_def)

lemma newline_space: "spaces (0x0A # w) \<longleftrightarrow> spaces w" "spaces [0x20]" "spaces []"
  by (simp_all add: spaces_def is_space_def)

lemma json_decode_layout:
  assumes "\<And>l. spaces (opn l)" "\<And>l. spaces (cls l)" "spaces col" "json_ok v" "no_1F v"
  shows "json_decode (json_layout opn cls col 0 v @ [0]) = Some (Some (canon v))"
proof -
  let ?w = "json_layout opn cls col 0 v"
  have s: "skip_space (?w @ [0]) = Some (?w @ [0])"
    using skip_spaces_value [OF newline_space(3) layout_starts] by simp
  have "parse_value (Suc (length (?w @ [0]))) True (?w @ [0]) = Some (Parsed (canon v) [0])"
    by (rule parse_layout) (simp_all add: assms)
  with s show ?thesis by (simp add: json_decode_def is_space_def del: parse_value.simps)
qed

lemma json_decode_stringified:
  assumes "json_ok v" "no_1F v" "case space of None \<Rightarrow> True | Some sp \<Rightarrow> spaces sp"
  shows "json_decode (stringified v space @ [0]) = Some (Some (canon v))"
proof (cases space)
  case None
  then show ?thesis
    using json_decode_layout [of "\<lambda>_. []" "\<lambda>_. []" "[]" v] assms newline_space
    by (simp add: stringified_def json_text_layout [of v 0])
next
  case (Some sp)
  then show ?thesis
    using json_decode_layout [of "\<lambda>l. 0x0A # indentation sp (l + 1)" "\<lambda>l. 0x0A # indentation sp l" "[0x20]" v] assms
    by (simp add: stringified_def json_text_indented_layout newline_space spaces_indentation)
qed

section \<open>Trees that survive exactly\<close>

definition plain :: "json \<Rightarrow> bool" where
  "plain v \<longleftrightarrow> (\<forall>s \<in> set (json_strings v). valid_utf8 s \<and> 0x1F \<notin> set s) \<and>
    (\<forall>d \<in> set (json_numbers v). \<exists>n < 10 ^ 15. d = dbl_of_nat n)"

lemma plain_simps [simp]:
  "plain JNull" "plain (JBool b)" "plain (JNumber d) \<longleftrightarrow> (\<exists>n < 10 ^ 15. d = dbl_of_nat n)"
  "plain (JString s) \<longleftrightarrow> valid_utf8 s \<and> 0x1F \<notin> set s"
  "plain (JArray xs) \<longleftrightarrow> (\<forall>x \<in> set xs. plain x)"
  "plain (JObject ms) \<longleftrightarrow> (\<forall>(k, v) \<in> set ms. valid_utf8 k \<and> 0x1F \<notin> set k \<and> plain v)"
  by (auto simp: plain_def)

lemma number_survives:
  assumes "n < 10 ^ 15"
  shows "canon (JNumber (dbl_of_nat n)) = JNumber (dbl_of_nat n) \<and> dbl_ok (dbl_of_nat n)"
proof -
  have f: "fmt_g16 (dbl_of_nat n) = dec n" by (rule fmt_g16_nat [OF assms])
  have s: "strtod (dec n) = dbl_of_nat n" using strtod_nat [of "[]" n] by simp
  have "\<exists>s m e. dbl_of_nat n = Fin s m e"
  proof (cases "dbl_of_nat n")
    case (Inf b)
    then have "dec n = bytes ''-inf'' \<or> dec n = bytes ''inf''" using f by (cases b) simp_all
    with dec_digits [of n] show ?thesis by (auto simp: is_digit_def)
  next
    case NaN
    then have "dec n = bytes ''nan''" using f by simp
    with dec_digits [of n] show ?thesis by (auto simp: is_digit_def)
  qed simp
  then obtain b m e where d: "dbl_of_nat n = Fin b m e" by blast
  have "canon (JNumber (dbl_of_nat n)) = JNumber (strtod (fmt_g16 (dbl_of_nat n)))" unfolding d by simp
  then show ?thesis using f s round_ratio_ok [of 1] by (simp add: dbl_of_nat_def)
qed

lemma plain_ok: "plain v \<Longrightarrow> json_ok v \<and> no_1F v"
  using number_survives by (auto simp: plain_def json_ok_def json_cstrings_def no_1F_def dest: valid_utf8_nul_free)

lemma plain_canon: "plain v \<Longrightarrow> canon v = v"
proof (induction v)
  case (JNumber d)
  then show ?case using number_survives by auto
next
  case (JArray xs)
  then show ?case by (auto simp: map_idI)
next
  case (JObject ms)
  have "(repaired k, canon v) = (k, v)" if "(k, v) \<in> set ms" for k v
    using JObject.IH [OF that, of v] JObject.prems that by (auto simp: repaired_valid)
  then have "map (\<lambda>(k, v). (repaired k, canon v)) ms = ms" by (intro map_idI) auto
  then show ?case by simp
qed (simp_all add: repaired_valid)

lemma decode_string_1F:
  assumes "clean us"
  shows "json_decode (string_text (concat (map utf8_write_char us) @ 0x1F # s) @ [0]) = Some None"
proof -
  let ?t = "concat (map utf8_write_char us) @ 0x1F # s"
  have "lossy (concat (map utf8_write_char us) @ r) = us @ lossy r" for r
    using assms by (induction us) (simp_all add: clean_def lossy_write)
  moreover have "lossy (0x1F # s) = 0x1F # lossy s"
    using lossy_write [of "0x1F" s] by (simp add: code_point_def utf8_write_char_def)
  moreover have "escape 0x1F = [0x1F]" by (simp add: escape_def utf8_write_char_def)
  ultimately have t: "string_text ?t = 0x22 # concat (map escape us) @ 0x1F # concat (map escape (lossy s)) @ [0x22]"
    by (simp add: string_text_def)
  from sb_need_room [OF sb_init_ok(1), of 4] obtain b
    where b: "sb_need sb_init 4 = Some b" "sb_room b 4" by (auto simp: sb_init_ok)
  from parse_escapes [OF assms b(2), of "0x1F # concat (map escape (lossy s)) @ [0x22, 0]"]
  have "parse_string True (string_text ?t @ [0]) = Some Rejected"
    using b by (auto simp: t parse_string_def string_loop_1F)
  then show ?thesis by (simp add: t json_decode_def built_def skip_space_stay)
qed

section \<open>Properties\<close>

text \<open>The four digits written for a 16-bit value are read back as that value, whatever follows.\<close>

lemma hex16_roundtrip: "parse_hex16 (write_hex16 v @ r) = Some (Parsed v r)"
  by (rule parse_write_hex16)

text \<open>C13: the decoder accepts what the encoder writes for every tree without the character 1F in its
  strings, compact or indented with white space, and returns the canonical form of the tree.\<close>

theorem json_decode_encode:
  assumes "json_ok v" "no_1F v" "case space of None \<Rightarrow> True | Some sp \<Rightarrow> spaces sp"
  shows "\<exists>m. json_stringify v space = Some m \<and> json_decode m = Some (Some (canon v))"
  using json_stringify_text [OF assms(1)] json_decode_stringified [OF assms] by blast

theorem json_decode_encode_witness:
  "\<exists>m. json_stringify (JObject [([0x61], JArray [JNull, JString [0xFF]])]) (Some [0x20, 0x09]) = Some m \<and>
    json_decode m = Some (Some (canon (JObject [([0x61], JArray [JNull, JString [0xFF]])])))"
  by (rule json_decode_encode) (simp_all add: spaces_def is_space_def)



text \<open>C25: a string with the control character 1F in it encodes to a text that the decoder rejects: the
  encoder escapes only the characters below 1F.\<close>

theorem json_encode_1F_rejected:
  assumes "clean us" "nul_free s"
  shows "\<exists>m. json_encode (JString (concat (map utf8_write_char us) @ 0x1F # s)) = Some m \<and> json_decode m = Some None"
proof -
  have "nul_free (concat (map utf8_write_char us))"
    using assms(1) by (intro valid_utf8_nul_free) (auto simp: valid_utf8_def clean_def)
  then have "json_ok (JString (concat (map utf8_write_char us) @ 0x1F # s))" using assms(2) by simp
  from json_stringify_text [OF this, of None] decode_string_1F [OF assms(1), of s]
  show ?thesis by (simp add: json_encode_def stringified_def)
qed

theorem json_encode_1F_rejected_witness:
  "\<exists>m. json_encode (JString (concat (map utf8_write_char [0x61]) @ 0x1F # [0x62])) = Some m \<and> json_decode m = Some None"
  by (rule json_encode_1F_rejected) (simp_all add: clean_def code_point_def)

end
