(* ===== verification/JsonHeap.thy ===== *)
theory JsonHeap
  imports JsonTree
begin

text \<open>
  The nodes of \<open>src/util/json.c\<close> in memory: a heap of nodes linked by parent, sibling and child
  pointers, and the operations that build, link, unlink, search, check and delete them. An operation
  has no result (\<open>None\<close>) where it would follow NULL or a freed pointer; \<open>Some None\<close> is a failed
  assertion. A failed allocation ends the process, so allocations succeed.
\<close>

section \<open>Nodes\<close>

type_synonym ptr = "nat option"

definition JSON_NULL :: nat where "JSON_NULL = 0"
definition JSON_BOOL :: nat where "JSON_BOOL = 1"
definition JSON_STRING :: nat where "JSON_STRING = 2"
definition JSON_NUMBER :: nat where "JSON_NUMBER = 3"
definition JSON_ARRAY :: nat where "JSON_ARRAY = 4"
definition JSON_OBJECT :: nat where "JSON_OBJECT = 5"

lemmas json_tags = JSON_NULL_def JSON_BOOL_def JSON_STRING_def JSON_NUMBER_def JSON_ARRAY_def JSON_OBJECT_def

text \<open>The members of the union stand beside each other; the code only reads the one of its tag. A key or a
  string is a pointer to a C string that nothing else points to: NULL or its text.\<close>

record node =
  parent :: ptr
  prev :: ptr
  nxt :: ptr
  node_key :: "byte list option"
  tag :: nat
  bool_val :: bool
  string_val :: "byte list option"
  number_val :: double
  head :: ptr
  tail :: ptr

record heap =
  cells :: "nat \<Rightarrow> node option"
  brk :: nat

definition cell :: "heap \<Rightarrow> ptr \<Rightarrow> node option" where
  "cell h p = Option.bind p (cells h)"

text \<open>A store through a pointer.\<close>

definition modify :: "ptr \<Rightarrow> (node \<Rightarrow> node) \<Rightarrow> heap \<Rightarrow> heap option" where
  "modify p f h = do { a \<leftarrow> p; n \<leftarrow> cells h a; Some (h\<lparr>cells := (cells h)(a \<mapsto> f n)\<rparr>) }"

definition free_cell :: "ptr \<Rightarrow> heap \<Rightarrow> heap option" where
  "free_cell p h = do { a \<leftarrow> p; n \<leftarrow> cells h a; Some (h\<lparr>cells := (cells h)(a := None)\<rparr>) }"

section \<open>Creating\<close>

text \<open>Memory from \<open>calloc\<close>: all bits zero.\<close>

definition zero_node :: node where
  "zero_node = \<lparr>parent = None, prev = None, nxt = None, node_key = None, tag = 0, bool_val = False,
     string_val = None, number_val = Fin False 0 (- 1074), head = None, tail = None\<rparr>"

definition mknode :: "nat \<Rightarrow> heap \<Rightarrow> heap \<times> nat" where
  "mknode t h = (h\<lparr>cells := (cells h)(brk h \<mapsto> zero_node\<lparr>tag := t\<rparr>), brk := Suc (brk h)\<rparr>, brk h)"

definition json_mknull :: "heap \<Rightarrow> heap \<times> nat" where
  "json_mknull h = mknode JSON_NULL h"

definition json_mkbool :: "bool \<Rightarrow> heap \<Rightarrow> (heap \<times> nat) option" where
  "json_mkbool b h = (let (h, ret) = mknode JSON_BOOL h in
     do { h \<leftarrow> modify (Some ret) (\<lambda>n. n\<lparr>bool_val := b\<rparr>) h; Some (h, ret) })"

definition mkstring :: "byte list \<Rightarrow> heap \<Rightarrow> (heap \<times> nat) option" where
  "mkstring s h = (let (h, ret) = mknode JSON_STRING h in
     do { h \<leftarrow> modify (Some ret) (\<lambda>n. n\<lparr>string_val := Some s\<rparr>) h; Some (h, ret) })"

definition json_mkstring :: "byte list \<Rightarrow> heap \<Rightarrow> (heap \<times> nat) option" where
  "json_mkstring p h = do { s \<leftarrow> cstr p; mkstring s h }"

definition json_mknumber :: "double \<Rightarrow> heap \<Rightarrow> (heap \<times> nat) option" where
  "json_mknumber n h = (let (h, ret) = mknode JSON_NUMBER h in
     do { h \<leftarrow> modify (Some ret) (\<lambda>x. x\<lparr>number_val := n\<rparr>) h; Some (h, ret) })"

definition json_mkarray :: "heap \<Rightarrow> heap \<times> nat" where
  "json_mkarray h = mknode JSON_ARRAY h"

definition json_mkobject :: "heap \<Rightarrow> heap \<times> nat" where
  "json_mkobject h = mknode JSON_OBJECT h"

section \<open>Linking\<close>

definition append_node :: "ptr \<Rightarrow> ptr \<Rightarrow> heap \<Rightarrow> heap option" where
  "append_node par child h = do {
     h \<leftarrow> modify child (\<lambda>n. n\<lparr>parent := par\<rparr>) h;
     p \<leftarrow> cell h par;
     h \<leftarrow> modify child (\<lambda>n. n\<lparr>prev := tail p\<rparr>) h;
     h \<leftarrow> modify child (\<lambda>n. n\<lparr>nxt := None\<rparr>) h;
     p \<leftarrow> cell h par;
     h \<leftarrow> (if tail p \<noteq> None then modify (tail p) (\<lambda>n. n\<lparr>nxt := child\<rparr>) h
          else modify par (\<lambda>n. n\<lparr>head := child\<rparr>) h);
     modify par (\<lambda>n. n\<lparr>tail := child\<rparr>) h }"

definition prepend_node :: "ptr \<Rightarrow> ptr \<Rightarrow> heap \<Rightarrow> heap option" where
  "prepend_node par child h = do {
     h \<leftarrow> modify child (\<lambda>n. n\<lparr>parent := par\<rparr>) h;
     h \<leftarrow> modify child (\<lambda>n. n\<lparr>prev := None\<rparr>) h;
     p \<leftarrow> cell h par;
     h \<leftarrow> modify child (\<lambda>n. n\<lparr>nxt := head p\<rparr>) h;
     p \<leftarrow> cell h par;
     h \<leftarrow> (if head p \<noteq> None then modify (head p) (\<lambda>n. n\<lparr>prev := child\<rparr>) h
          else modify par (\<lambda>n. n\<lparr>tail := child\<rparr>) h);
     modify par (\<lambda>n. n\<lparr>head := child\<rparr>) h }"

definition append_member :: "ptr \<Rightarrow> byte list \<Rightarrow> ptr \<Rightarrow> heap \<Rightarrow> heap option" where
  "append_member object key val h = do {
     h \<leftarrow> modify val (\<lambda>n. n\<lparr>node_key := Some key\<rparr>) h;
     append_node object val h }"

text \<open>The assertions of the exported operations.\<close>

definition asserts :: "nat \<Rightarrow> ptr \<Rightarrow> ptr \<Rightarrow> heap \<Rightarrow> bool option" where
  "asserts t par child h = do {
     p \<leftarrow> cell h par;
     if tag p \<noteq> t then Some False
     else do { c \<leftarrow> cell h child; Some (parent c = None) } }"

definition json_append_element :: "ptr \<Rightarrow> ptr \<Rightarrow> heap \<Rightarrow> heap option option" where
  "json_append_element array element h = do {
     ok \<leftarrow> asserts JSON_ARRAY array element h;
     if ok then map_option Some (append_node array element h) else Some None }"

definition json_prepend_element :: "ptr \<Rightarrow> ptr \<Rightarrow> heap \<Rightarrow> heap option option" where
  "json_prepend_element array element h = do {
     ok \<leftarrow> asserts JSON_ARRAY array element h;
     if ok then map_option Some (prepend_node array element h) else Some None }"

definition json_append_member :: "ptr \<Rightarrow> byte list \<Rightarrow> ptr \<Rightarrow> heap \<Rightarrow> heap option option" where
  "json_append_member object key val h = do {
     ok \<leftarrow> asserts JSON_OBJECT object val h;
     if ok then do { k \<leftarrow> cstr key; map_option Some (append_member object k val h) } else Some None }"

definition json_prepend_member :: "ptr \<Rightarrow> byte list \<Rightarrow> ptr \<Rightarrow> heap \<Rightarrow> heap option option" where
  "json_prepend_member object key val h = do {
     ok \<leftarrow> asserts JSON_OBJECT object val h;
     if ok then do {
       k \<leftarrow> cstr key;
       h \<leftarrow> modify val (\<lambda>n. n\<lparr>node_key := Some k\<rparr>) h;
       map_option Some (prepend_node object val h) } else Some None }"

definition json_remove_from_parent :: "ptr \<Rightarrow> heap \<Rightarrow> heap option" where
  "json_remove_from_parent p h = do {
     n \<leftarrow> cell h p;
     if parent n \<noteq> None then do {
       let par = parent n;
       h \<leftarrow> (if prev n \<noteq> None then modify (prev n) (\<lambda>x. x\<lparr>nxt := nxt n\<rparr>) h
            else modify par (\<lambda>x. x\<lparr>head := nxt n\<rparr>) h);
       n \<leftarrow> cell h p;
       h \<leftarrow> (if nxt n \<noteq> None then modify (nxt n) (\<lambda>x. x\<lparr>prev := prev n\<rparr>) h
            else modify par (\<lambda>x. x\<lparr>tail := prev n\<rparr>) h);
       h \<leftarrow> modify p (\<lambda>x. x\<lparr>parent := None\<rparr>) h;
       h \<leftarrow> modify p (\<lambda>x. x\<lparr>prev := None, nxt := None\<rparr>) h;
       modify p (\<lambda>x. x\<lparr>node_key := None\<rparr>) h }
     else Some h }"

section \<open>Searching\<close>

definition json_first_child :: "ptr \<Rightarrow> heap \<Rightarrow> ptr option" where
  "json_first_child p h =
    (if p = None then Some None
     else do {
       n \<leftarrow> cell h p;
       Some (if tag n = JSON_ARRAY \<or> tag n = JSON_OBJECT then head n else None) })"

text \<open>The counter is an \<open>int\<close>.\<close>

partial_function (option) element_loop :: "heap \<Rightarrow> ptr \<Rightarrow> int \<Rightarrow> int \<Rightarrow> ptr option" where
  "element_loop h element index i =
    (if element = None then Some None
     else if i = index then Some element
     else if i = 2 ^ 31 - 1 then None
     else do {
       n \<leftarrow> cell h element;
       element_loop h (nxt n) index (i + 1) })"

definition json_find_element :: "ptr \<Rightarrow> int \<Rightarrow> heap \<Rightarrow> ptr option" where
  "json_find_element array index h =
    (if array = None then Some None
     else do {
       n \<leftarrow> cell h array;
       if tag n \<noteq> JSON_ARRAY then Some None
       else do { element \<leftarrow> json_first_child array h; element_loop h element index 0 } })"

partial_function (option) member_loop :: "heap \<Rightarrow> ptr \<Rightarrow> byte list \<Rightarrow> ptr option" where
  "member_loop h member name =
    (if member = None then Some None
     else do {
       n \<leftarrow> cell h member;
       k \<leftarrow> node_key n;
       if k = name then Some member else member_loop h (nxt n) name })"

definition find_member :: "ptr \<Rightarrow> byte list \<Rightarrow> heap \<Rightarrow> ptr option" where
  "find_member object name h =
    (if object = None then Some None
     else do {
       n \<leftarrow> cell h object;
       if tag n \<noteq> JSON_OBJECT then Some None
       else do { member \<leftarrow> json_first_child object h; member_loop h member name } })"

section \<open>Deleting\<close>

text \<open>The recursion of \<open>json_delete\<close> and its loop over the children, as deep as the fuel.\<close>

fun json_delete :: "nat \<Rightarrow> ptr \<Rightarrow> heap \<Rightarrow> heap option"
and delete_children :: "nat \<Rightarrow> ptr \<Rightarrow> heap \<Rightarrow> heap option" where
  "json_delete 0 p h = None"
| "json_delete (Suc fuel) p h =
    (if p = None then Some h
     else do {
       h \<leftarrow> json_remove_from_parent p h;
       n \<leftarrow> cell h p;
       h \<leftarrow> (if tag n = JSON_ARRAY \<or> tag n = JSON_OBJECT then delete_children fuel (head n) h else Some h);
       free_cell p h })"
| "delete_children 0 child h = None"
| "delete_children (Suc fuel) child h =
    (if child = None then Some h
     else do {
       c \<leftarrow> cell h child;
       h \<leftarrow> json_delete fuel child h;
       delete_children fuel (nxt c) h })"

section \<open>Checking\<close>

datatype problem =
    Key_utf8 | Tag_invalid nat | String_null | String_utf8 | Tail_null | Head_null | First_prev
  | Own_child | Next_self | Next_head | Parent_mismatch | Next_prev | Array_key | Object_no_key | Tail_mismatch

definition tag_is_valid :: "nat \<Rightarrow> bool" where
  "tag_is_valid t \<longleftrightarrow> t \<le> JSON_OBJECT"

text \<open>A member of type \<open>bool\<close> is always one of the two; the test of it has no counterpart here.\<close>

fun json_check :: "nat \<Rightarrow> ptr \<Rightarrow> heap \<Rightarrow> (problem + unit) option"
and check_children :: "nat \<Rightarrow> ptr \<Rightarrow> node \<Rightarrow> ptr \<Rightarrow> ptr \<Rightarrow> heap \<Rightarrow> (problem + unit) option" where
  "json_check 0 p h = None"
| "json_check (Suc fuel) p h = do {
     node \<leftarrow> cell h p;
     key_ok \<leftarrow> (case node_key node of None \<Rightarrow> Some True | Some k \<Rightarrow> utf8_validate (k @ [0]));
     if \<not> key_ok then Some (Inl Key_utf8)
     else if \<not> tag_is_valid (tag node) then Some (Inl (Tag_invalid (tag node)))
     else if tag node = JSON_STRING then
       (case string_val node of
          None \<Rightarrow> Some (Inl String_null)
        | Some s \<Rightarrow> do { ok \<leftarrow> utf8_validate (s @ [0]); Some (if \<not> ok then Inl String_utf8 else Inr ()) })
     else if tag node = JSON_ARRAY \<or> tag node = JSON_OBJECT then
       (if head node = None \<or> tail node = None then
          Some (if head node \<noteq> None then Inl Tail_null else if tail node \<noteq> None then Inl Head_null else Inr ())
        else do {
          first \<leftarrow> cell h (head node);
          if prev first \<noteq> None then Some (Inl First_prev)
          else check_children fuel p node (head node) None h })
     else Some (Inr ()) }"
| "check_children 0 p node child lst h = None"
| "check_children (Suc fuel) p node child lst h =
    (if child = None then Some (if lst \<noteq> tail node then Inl Tail_mismatch else Inr ())
     else if child = p then Some (Inl Own_child)
     else do {
       c \<leftarrow> cell h child;
       if nxt c = child then Some (Inl Next_self)
       else if nxt c = head node then Some (Inl Next_head)
       else if parent c \<noteq> p then Some (Inl Parent_mismatch)
       else do {
         back \<leftarrow> (if nxt c \<noteq> None then do { x \<leftarrow> cell h (nxt c); Some (prev x) } else Some child);
         if back \<noteq> child then Some (Inl Next_prev)
         else if tag node = JSON_ARRAY \<and> node_key c \<noteq> None then Some (Inl Array_key)
         else if tag node = JSON_OBJECT \<and> node_key c = None then Some (Inl Object_no_key)
         else do {
           r \<leftarrow> json_check fuel child h;
           case r of
             Inl e \<Rightarrow> Some (Inl e)
           | Inr _ \<Rightarrow> check_children fuel p node (nxt c) child h } } })"

end
