(* ===== verification/JsonShape.thy ===== *)
theory JsonShape
  imports JsonHeap
begin

text \<open>
  JSON trees in memory: what it means that the nodes of a heap hold a tree, with every parent, sibling and
  child pointer in place, and what the linking operations do to the trees: a child appended, prepended or
  removed, and nothing else changed.
\<close>

section \<open>Trees in memory\<close>

datatype scalar = SNull | SBool bool | SString "byte list" | SNumber double | SArray | SObject

text \<open>A tree with the addresses of its nodes.\<close>

datatype shape = Shape (loc: nat) (skey: "byte list option") (kind: scalar) (kids: "shape list")

fun kind_tag :: "scalar \<Rightarrow> nat" where
  "kind_tag SNull = JSON_NULL"
| "kind_tag (SBool b) = JSON_BOOL"
| "kind_tag (SString s) = JSON_STRING"
| "kind_tag (SNumber d) = JSON_NUMBER"
| "kind_tag SArray = JSON_ARRAY"
| "kind_tag SObject = JSON_OBJECT"

definition container :: "scalar \<Rightarrow> bool" where
  "container c \<longleftrightarrow> c = SArray \<or> c = SObject"

definition first_or :: "shape list \<Rightarrow> ptr \<Rightarrow> ptr" where
  "first_or ts p = (if ts = [] then p else Some (loc (hd ts)))"

definition last_or :: "shape list \<Rightarrow> ptr \<Rightarrow> ptr" where
  "last_or ts p = (if ts = [] then p else Some (loc (last ts)))"

text \<open>What a node holds besides its links.\<close>

definition holds_kind :: "node \<Rightarrow> scalar \<Rightarrow> shape list \<Rightarrow> bool" where
  "holds_kind n c ts \<longleftrightarrow> tag n = kind_tag c \<and>
    (case c of SBool b \<Rightarrow> bool_val n = b | SString s \<Rightarrow> string_val n = Some s | SNumber d \<Rightarrow> number_val n = d | _ \<Rightarrow> True) \<and>
    (if container c then head n = first_or ts None \<and> tail n = last_or ts None else ts = [])"

definition linked :: "node \<Rightarrow> ptr \<Rightarrow> ptr \<Rightarrow> ptr \<Rightarrow> byte list option \<Rightarrow> bool" where
  "linked n par prv nx k \<longleftrightarrow> parent n = par \<and> prev n = prv \<and> nxt n = nx \<and> node_key n = k"

fun stored :: "heap \<Rightarrow> ptr \<Rightarrow> ptr \<Rightarrow> ptr \<Rightarrow> shape \<Rightarrow> bool"
and siblings :: "heap \<Rightarrow> ptr \<Rightarrow> ptr \<Rightarrow> ptr \<Rightarrow> shape list \<Rightarrow> bool" where
  "stored h par prv nx (Shape a k c ts) \<longleftrightarrow>
    (case cells h a of None \<Rightarrow> False | Some n \<Rightarrow> linked n par prv nx k \<and> holds_kind n c ts) \<and>
    siblings h (Some a) None None ts"
| "siblings h par prv nx [] \<longleftrightarrow> True"
| "siblings h par prv nx (t # ts) \<longleftrightarrow> stored h par prv (first_or ts nx) t \<and> siblings h par (Some (loc t)) nx ts"

fun addrs :: "shape \<Rightarrow> nat list" where
  "addrs (Shape a k c ts) = a # concat (map addrs ts)"

definition same_outside :: "heap \<Rightarrow> heap \<Rightarrow> nat set \<Rightarrow> bool" where
  "same_outside h h' A \<longleftrightarrow> (\<forall>x. x \<notin> A \<longrightarrow> cells h' x = cells h x)"

lemma stored_frame:
  "(\<And>x. x \<in> set (addrs t) \<Longrightarrow> cells h' x = cells h x) \<Longrightarrow> stored h' par prv nx t = stored h par prv nx t"
  "(\<And>x. x \<in> set (concat (map addrs ts)) \<Longrightarrow> cells h' x = cells h x) \<Longrightarrow>
    siblings h' par prv nx ts = siblings h par prv nx ts"
  by (induction h par prv nx t and h par prv nx ts rule: stored_siblings.induct) simp_all

lemma siblings_keep:
  "siblings h par prv nx ts \<Longrightarrow> (\<And>x. x \<in> set (concat (map addrs ts)) \<Longrightarrow> cells h' x = cells h x) \<Longrightarrow>
    siblings h' par prv nx ts"
  using stored_frame(2) by blast

declare stored.simps [simp del]

lemma loc_in: "loc t \<in> set (addrs t)"
  by (cases t) simp

lemma siblings_append:
  "siblings h par prv nx (xs @ ys) \<longleftrightarrow> siblings h par prv (first_or ys nx) xs \<and> siblings h par (last_or xs prv) nx ys"
proof (induction xs arbitrary: prv)
  case (Cons x xs)
  have "last_or (x # xs) prv = last_or xs (Some (loc x))" by (simp add: last_or_def)
  moreover have "first_or (xs @ ys) nx = first_or xs (first_or ys nx)" by (simp add: first_or_def)
  ultimately show ?case using Cons.IH [of "Some (loc x)"] by simp
qed (simp add: last_or_def)

lemma or_simps [simp]:
  "first_or [] p = p" "first_or (t # ts) p = Some (loc t)" "last_or [] p = p" "last_or (ts @ [t]) p = Some (loc t)"
  "last_or [t] p = Some (loc t)"
  by (simp_all add: first_or_def last_or_def)

text \<open>A root whose links are changed.\<close>

definition root :: "heap \<Rightarrow> shape \<Rightarrow> node \<Rightarrow> bool" where
  "root h t n \<longleftrightarrow> cells h (loc t) = Some n \<and> holds_kind n (kind t) (kids t) \<and> siblings h (Some (loc t)) None None (kids t)"

lemma stored_root:
  "stored h par prv nx t \<longleftrightarrow> (\<exists>n. root h t n \<and> linked n par prv nx (skey t))"
  by (cases t) (auto simp: root_def stored.simps split: option.splits)

lemma stored_relink:
  assumes "root h t n" "distinct (addrs t)"
    and "cells h' (loc t) = Some n'" "linked n' par prv nx k" "holds_kind n' (kind t) (kids t)"
    and "\<And>x. x \<in> set (addrs t) \<Longrightarrow> x \<noteq> loc t \<Longrightarrow> cells h' x = cells h x"
  shows "stored h' par prv nx (Shape (loc t) k (kind t) (kids t))"
proof -
  obtain a ky c ts where t: "t = Shape a ky c ts" by (cases t)
  have "siblings h' (Some a) None None ts = siblings h (Some a) None None ts"
    using assms(2,6) t by (intro stored_frame(2)) auto
  with assms(1,3-5) t show ?thesis by (simp add: root_def stored.simps)
qed

lemma linked_update [simp]:
  "holds_kind (n\<lparr>parent := p\<rparr>) c ts = holds_kind n c ts" "holds_kind (n\<lparr>prev := p\<rparr>) c ts = holds_kind n c ts"
  "holds_kind (n\<lparr>nxt := p\<rparr>) c ts = holds_kind n c ts" "holds_kind (n\<lparr>node_key := k\<rparr>) c ts = holds_kind n c ts"
  "linked (n\<lparr>head := p\<rparr>) = linked n" "linked (n\<lparr>tail := p\<rparr>) = linked n"
  by (simp_all add: holds_kind_def linked_def fun_eq_iff split: scalar.split)

lemma holds_children:
  "holds_kind n c ts \<Longrightarrow> container c \<Longrightarrow> holds_kind (n\<lparr>head := first_or us None, tail := last_or us None\<rparr>) c us"
  by (auto simp: holds_kind_def container_def)

lemma stored_children:
  assumes "root h t n" "container (kind t)" "linked n par prv nx (skey t)"
    and "cells h' (loc t) = Some (n\<lparr>head := first_or us None, tail := last_or us None\<rparr>)"
    and "siblings h' (Some (loc t)) None None us"
  shows "stored h' par prv nx (Shape (loc t) (skey t) (kind t) us)"
  using assms holds_children by (auto simp: root_def stored.simps)

text \<open>One link of a node changed.\<close>

lemma stored_set_next:
  assumes "stored h par prv nx t" "distinct (addrs t)" "cells h (loc t) = Some n" "cells h' (loc t) = Some (n\<lparr>nxt := nx'\<rparr>)"
    and "\<And>x. x \<in> set (addrs t) \<Longrightarrow> x \<noteq> loc t \<Longrightarrow> cells h' x = cells h x"
  shows "stored h' par prv nx' t"
proof -
  have r: "root h t n" "linked n par prv nx (skey t)" using assms(1,3) by (auto simp: stored_root root_def)
  have "stored h' par prv nx' (Shape (loc t) (skey t) (kind t) (kids t))"
    by (rule stored_relink [OF r(1) assms(2,4)]) (use r assms(5) in \<open>auto simp: linked_def root_def\<close>)
  then show ?thesis by simp
qed

lemma stored_set_prev:
  assumes "stored h par prv nx t" "distinct (addrs t)" "cells h (loc t) = Some n" "cells h' (loc t) = Some (n\<lparr>prev := prv'\<rparr>)"
    and "\<And>x. x \<in> set (addrs t) \<Longrightarrow> x \<noteq> loc t \<Longrightarrow> cells h' x = cells h x"
  shows "stored h' par prv' nx t"
proof -
  have r: "root h t n" "linked n par prv nx (skey t)" using assms(1,3) by (auto simp: stored_root root_def)
  have "stored h' par prv' nx (Shape (loc t) (skey t) (kind t) (kids t))"
    by (rule stored_relink [OF r(1) assms(2,4)]) (use r assms(5) in \<open>auto simp: linked_def root_def\<close>)
  then show ?thesis by simp
qed

section \<open>Appending a child\<close>

lemma append_node_ok:
  assumes "root h t n" "container (kind t)" "root h u m" "distinct (addrs t @ addrs u)"
  shows "\<exists>h'. append_node (Some (loc t)) (Some (loc u)) h = Some h' \<and>
    (\<forall>par prv nx. linked n par prv nx (skey t) \<longrightarrow> stored h' par prv nx
      (Shape (loc t) (skey t) (kind t) (kids t @ [Shape (loc u) (node_key m) (kind u) (kids u)]))) \<and>
    same_outside h h' (set (addrs t) \<union> {loc u}) \<and> brk h' = brk h"
proof -
  obtain a k c ts where t: "t = Shape a k c ts" by (cases t)
  have n: "cells h a = Some n" "holds_kind n c ts" "siblings h (Some a) None None ts"
    using assms(1) by (simp_all add: root_def t)
  have m: "cells h (loc u) = Some m" using assms(3) by (simp add: root_def)
  have ab: "a \<noteq> loc u" "a \<notin> set (addrs u)" using assms(4) loc_in [of u] by (auto simp: t)
  have ht: "head n = first_or ts None" "tail n = last_or ts None" using n(2) assms(2) by (simp_all add: holds_kind_def t)
  let ?m = "m\<lparr>parent := Some a, prev := tail n, nxt := None\<rparr>"
  let ?u = "Shape (loc u) (node_key m) (kind u) (kids u)"
  let ?n = "n\<lparr>head := first_or (ts @ [?u]) None, tail := last_or (ts @ [?u]) None\<rparr>"
  have child: "stored h' (Some a) (tail n) None ?u"
    if "cells h' (loc u) = Some ?m" "\<And>x. x \<in> set (addrs u) \<Longrightarrow> x \<noteq> loc u \<Longrightarrow> cells h' x = cells h x" for h'
    using assms(3,4) that by (intro stored_relink [where h = h]) (auto simp: linked_def root_def)
  have "\<exists>h'. append_node (Some a) (Some (loc u)) h = Some h' \<and> cells h' a = Some ?n \<and>
      siblings h' (Some a) None None (ts @ [?u]) \<and> same_outside h h' (set (addrs t) \<union> {loc u}) \<and> brk h' = brk h"
  proof (cases ts rule: rev_cases)
    case Nil
    let ?h = "h\<lparr>cells := (cells h)(loc u \<mapsto> ?m, a \<mapsto> ?n)\<rparr>"
    have "append_node (Some a) (Some (loc u)) h = Some ?h"
      using n(1) m ab ht Nil by (simp add: append_node_def modify_def cell_def)
    moreover have "stored ?h (Some a) (tail n) None ?u" by (rule child) (use ab in auto)
    then have "siblings ?h (Some a) None None (ts @ [?u])" using ht Nil by simp
    ultimately show ?thesis by (simp add: same_outside_def t)
  next
    case (snoc xs l)
    have sib: "siblings h (Some a) None (Some (loc l)) xs" "stored h (Some a) (last_or xs None) None l"
      using n(3) by (simp_all add: snoc siblings_append)
    then obtain nl where l: "root h l nl" "linked nl (Some a) (last_or xs None) None (skey l)" by (auto simp: stored_root)
    have al: "a \<noteq> loc l" "loc l \<noteq> loc u" "a \<notin> set (addrs l)" "loc l \<notin> set (addrs u)" "loc u \<notin> set (addrs l)" "distinct (addrs l)"
      "loc l \<notin> set (concat (map addrs xs))" "a \<notin> set (concat (map addrs xs))" "loc u \<notin> set (concat (map addrs xs))"
      using assms(4) loc_in [of l] loc_in [of u] by (auto simp: t snoc)
    let ?h = "h\<lparr>cells := (cells h)(loc u \<mapsto> ?m, loc l \<mapsto> nl\<lparr>nxt := Some (loc u)\<rparr>, a \<mapsto> ?n)\<rparr>"
    have nn: "n\<lparr>tail := Some (loc u)\<rparr> = ?n" using ht by (cases n) (simp add: snoc first_or_def last_or_def hd_append)
    have "append_node (Some a) (Some (loc u)) h = Some ?h"
      using n(1) m ab ht l(1) al by (simp add: append_node_def modify_def cell_def root_def snoc nn [unfolded snoc])
    moreover have sib': "siblings ?h (Some a) None (Some (loc l)) xs"
      by (rule siblings_keep [OF sib(1)]) (use al in auto)
    have "stored ?h (Some a) (last_or xs None) (Some (loc u)) (Shape (loc l) (skey l) (kind l) (kids l))"
      by (rule stored_relink [OF l(1) al(6)]) (use l al in \<open>auto simp: linked_def root_def\<close>)
    then have l': "stored ?h (Some a) (last_or xs None) (Some (loc u)) l" by simp
    have "stored ?h (Some a) (tail n) None ?u" by (rule child) (use al ab in auto)
    then have "stored ?h (Some a) (Some (loc l)) None ?u" using ht(2) by (simp add: snoc)
    with sib' l' have "siblings ?h (Some a) None None (xs @ [l, ?u])" by (simp add: siblings_append)
    then have "siblings ?h (Some a) None None (ts @ [?u])" by (simp add: snoc)
    moreover have "same_outside h ?h (set (addrs t) \<union> {loc u})" using loc_in [of l] by (auto simp: same_outside_def t snoc)
    ultimately show ?thesis using al ab by auto
  qed
  with assms(1,2) show ?thesis by (auto simp: t intro!: stored_children [where t = t, unfolded t, simplified])
qed

section \<open>Prepending a child\<close>

lemma prepend_node_ok:
  assumes "root h t n" "container (kind t)" "root h u m" "distinct (addrs t @ addrs u)"
  shows "\<exists>h'. prepend_node (Some (loc t)) (Some (loc u)) h = Some h' \<and>
    (\<forall>par prv nx. linked n par prv nx (skey t) \<longrightarrow> stored h' par prv nx
      (Shape (loc t) (skey t) (kind t) (Shape (loc u) (node_key m) (kind u) (kids u) # kids t))) \<and>
    same_outside h h' (set (addrs t) \<union> {loc u}) \<and> brk h' = brk h"
proof -
  obtain a k c ts where t: "t = Shape a k c ts" by (cases t)
  have n: "cells h a = Some n" "holds_kind n c ts" "siblings h (Some a) None None ts"
    using assms(1) by (simp_all add: root_def t)
  have m: "cells h (loc u) = Some m" using assms(3) by (simp add: root_def)
  have ab: "a \<noteq> loc u" "a \<notin> set (addrs u)" using assms(4) loc_in [of u] by (auto simp: t)
  have ht: "head n = first_or ts None" "tail n = last_or ts None" using n(2) assms(2) by (simp_all add: holds_kind_def t)
  let ?m = "m\<lparr>parent := Some a, prev := None, nxt := head n\<rparr>"
  let ?u = "Shape (loc u) (node_key m) (kind u) (kids u)"
  let ?n = "n\<lparr>head := first_or (?u # ts) None, tail := last_or (?u # ts) None\<rparr>"
  have child: "stored h' (Some a) None (head n) ?u"
    if "cells h' (loc u) = Some ?m" "\<And>x. x \<in> set (addrs u) \<Longrightarrow> x \<noteq> loc u \<Longrightarrow> cells h' x = cells h x" for h'
    using assms(3,4) that by (intro stored_relink [where h = h]) (auto simp: linked_def root_def)
  have "\<exists>h'. prepend_node (Some a) (Some (loc u)) h = Some h' \<and> cells h' a = Some ?n \<and>
      siblings h' (Some a) None None (?u # ts) \<and> same_outside h h' (set (addrs t) \<union> {loc u}) \<and> brk h' = brk h"
  proof (cases ts)
    case Nil
    let ?n' = "n\<lparr>tail := Some (loc u), head := Some (loc u)\<rparr>"
    let ?h = "h\<lparr>cells := (cells h)(loc u \<mapsto> ?m, a \<mapsto> ?n')\<rparr>"
    have "prepend_node (Some a) (Some (loc u)) h = Some ?h"
      using n(1) m ab ht Nil by (simp add: prepend_node_def modify_def cell_def)
    moreover have "cells ?h a = Some ?n" by (simp add: Nil)
    moreover have "stored ?h (Some a) None (head n) ?u" by (rule child) (use ab in auto)
    then have "siblings ?h (Some a) None None (?u # ts)" using ht Nil by simp
    moreover have "same_outside h ?h (set (addrs t) \<union> {loc u})" by (simp add: same_outside_def t)
    ultimately show ?thesis by (intro exI [of _ ?h]) simp
  next
    case (Cons l xs)
    have sib: "stored h (Some a) None (first_or xs None) l" "siblings h (Some a) (Some (loc l)) None xs"
      using n(3) by (simp_all add: Cons)
    then obtain nl where l: "cells h (loc l) = Some nl" by (auto simp: stored_root root_def)
    have al: "a \<noteq> loc l" "loc l \<noteq> loc u" "a \<notin> set (addrs l)" "loc l \<notin> set (addrs u)" "loc u \<notin> set (addrs l)" "distinct (addrs l)"
      "loc l \<notin> set (concat (map addrs xs))" "a \<notin> set (concat (map addrs xs))" "loc u \<notin> set (concat (map addrs xs))"
      using assms(4) loc_in [of l] loc_in [of u] by (auto simp: t Cons)
    let ?h = "h\<lparr>cells := (cells h)(loc u \<mapsto> ?m, loc l \<mapsto> nl\<lparr>prev := Some (loc u)\<rparr>, a \<mapsto> n\<lparr>head := Some (loc u)\<rparr>)\<rparr>"
    have nn: "n\<lparr>head := Some (loc u)\<rparr> = ?n" using ht by (cases n) (simp add: Cons last_or_def)
    have "prepend_node (Some a) (Some (loc u)) h = Some ?h"
      using n(1) m ab ht l al by (simp add: prepend_node_def modify_def cell_def Cons)
    moreover have "cells ?h a = Some ?n" unfolding nn [symmetric] by simp
    moreover have "siblings ?h (Some a) (Some (loc l)) None xs"
      by (rule siblings_keep [OF sib(2)]) (use al in auto)
    moreover have "stored ?h (Some a) (Some (loc u)) (first_or xs None) l"
      by (rule stored_set_prev [OF sib(1) al(6) l]) (use al in auto)
    moreover have "stored ?h (Some a) None (head n) ?u" by (rule child) (use al ab in auto)
    then have "stored ?h (Some a) None (Some (loc l)) ?u" using ht(1) by (simp add: Cons)
    moreover have "same_outside h ?h (set (addrs t) \<union> {loc u})" using loc_in [of l] by (auto simp: same_outside_def t Cons)
    ultimately show ?thesis by (intro exI [of _ ?h]) (simp add: Cons)
  qed
  with assms(1,2) show ?thesis by (auto simp: t intro!: stored_children [where t = t, unfolded t, simplified])
qed

section \<open>Removing a child\<close>

definition unlinked :: "shape \<Rightarrow> shape" where
  "unlinked u = Shape (loc u) None (kind u) (kids u)"

lemma siblings_keep_last:
  assumes "siblings h par prv (Some b) xs" "distinct (concat (map addrs xs))"
    and "\<And>x. x \<in> set (concat (map addrs xs)) \<Longrightarrow> xs = [] \<or> x \<noteq> loc (last xs) \<Longrightarrow> cells h' x = cells h x"
    and "xs \<noteq> [] \<Longrightarrow> cells h' (loc (last xs)) = map_option (\<lambda>n. n\<lparr>nxt := nx'\<rparr>) (cells h (loc (last xs)))"
  shows "siblings h' par prv nx' xs"
proof (cases xs rule: rev_cases)
  case (snoc ys l)
  have sib: "siblings h par prv (Some (loc l)) ys" "stored h par (last_or ys prv) (Some b) l"
    using assms(1) by (simp_all add: snoc siblings_append)
  then obtain nl where l: "cells h (loc l) = Some nl" by (auto simp: stored_root root_def)
  have d: "distinct (addrs l)" "loc l \<notin> set (concat (map addrs ys))" using assms(2) loc_in [of l] by (auto simp: snoc)
  have "siblings h' par prv (Some (loc l)) ys" by (rule siblings_keep [OF sib(1)]) (use assms(3) d in \<open>auto simp: snoc\<close>)
  moreover have "stored h' par (last_or ys prv) nx' l"
    by (rule stored_set_next [OF sib(2) d(1) l]) (use assms(3,4) l in \<open>auto simp: snoc\<close>)
  ultimately show ?thesis by (simp add: snoc siblings_append)
qed simp

lemma siblings_keep_first:
  assumes "siblings h par (Some b) nx ys" "distinct (concat (map addrs ys))"
    and "\<And>x. x \<in> set (concat (map addrs ys)) \<Longrightarrow> ys = [] \<or> x \<noteq> loc (hd ys) \<Longrightarrow> cells h' x = cells h x"
    and "ys \<noteq> [] \<Longrightarrow> cells h' (loc (hd ys)) = map_option (\<lambda>n. n\<lparr>prev := prv'\<rparr>) (cells h (loc (hd ys)))"
  shows "siblings h' par prv' nx ys"
proof (cases ys)
  case (Cons l xs)
  have sib: "stored h par (Some b) (first_or xs nx) l" "siblings h par (Some (loc l)) nx xs"
    using assms(1) by (simp_all add: Cons)
  then obtain nl where l: "cells h (loc l) = Some nl" by (auto simp: stored_root root_def)
  have d: "distinct (addrs l)" "loc l \<notin> set (concat (map addrs xs))" using assms(2) loc_in [of l] by (auto simp: Cons)
  have "siblings h' par (Some (loc l)) nx xs" by (rule siblings_keep [OF sib(2)]) (use assms(3) d in \<open>auto simp: Cons\<close>)
  moreover have "stored h' par prv' (first_or xs nx) l"
    by (rule stored_set_prev [OF sib(1) d(1) l]) (use assms(3,4) l in \<open>auto simp: Cons\<close>)
  ultimately show ?thesis by (simp add: Cons)
qed simp

text \<open>What the unlinking writes: the neighbours and the children pointers of the parent, then the node.\<close>

lemma remove_cells:
  assumes "cells h a = Some n" "cells h b = Some m" "a \<noteq> b" "parent m = Some a"
    and "prev m = None \<Longrightarrow> l = a" "\<And>x. prev m = Some x \<Longrightarrow> l = x \<and> l \<noteq> a \<and> l \<noteq> b" "cells h l = Some nl"
    and "nxt m = None \<Longrightarrow> y = a" "\<And>x. nxt m = Some x \<Longrightarrow> y = x \<and> y \<noteq> a \<and> y \<noteq> b \<and> y \<noteq> l" "cells h y = Some ny"
    and "N = (if prev m = None then n\<lparr>head := nxt m\<rparr> else n)" "N' = (if nxt m = None then N\<lparr>tail := prev m\<rparr> else N)"
  shows "\<exists>h'. json_remove_from_parent (Some b) h = Some h' \<and> brk h' = brk h \<and> cells h' a = Some N' \<and>
    cells h' b = Some (m\<lparr>parent := None, prev := None, nxt := None, node_key := None\<rparr>) \<and>
    (l \<noteq> a \<longrightarrow> cells h' l = Some (nl\<lparr>nxt := nxt m\<rparr>)) \<and> (y \<noteq> a \<longrightarrow> cells h' y = Some (ny\<lparr>prev := prev m\<rparr>)) \<and>
    (\<forall>x. x \<noteq> a \<longrightarrow> x \<noteq> b \<longrightarrow> x \<noteq> l \<longrightarrow> x \<noteq> y \<longrightarrow> cells h' x = cells h x)"
proof (cases "prev m")
  case None
  then have l: "l = a" "nl = n" using assms(1,5,7) by auto
  show ?thesis
  proof (cases "nxt m")
    case y: None
    with assms None l show ?thesis by (simp add: json_remove_from_parent_def modify_def cell_def)
  next
    case (Some x)
    with assms(9) l have "y = x" "y \<noteq> a" "y \<noteq> b" by auto
    with assms(1-4,10-) None Some l show ?thesis by (simp add: json_remove_from_parent_def modify_def cell_def)
  qed
next
  case (Some x)
  with assms(6) have l: "l = x" "l \<noteq> a" "l \<noteq> b" by auto
  show ?thesis
  proof (cases "nxt m")
    case y: None
    with assms(1-4,7,8,10-) Some l show ?thesis by (simp add: json_remove_from_parent_def modify_def cell_def)
  next
    case y: (Some z)
    with assms(9) l have "y = z" "y \<noteq> a" "y \<noteq> b" "y \<noteq> l" by auto
    with assms(1-4,7,10-) Some l y show ?thesis by (simp add: json_remove_from_parent_def modify_def cell_def)
  qed
qed

lemma remove_ok:
  assumes "root h t n" "container (kind t)" "kids t = xs @ u # ys" "distinct (addrs t)"
  shows "\<exists>h'. json_remove_from_parent (Some (loc u)) h = Some h' \<and>
    (\<forall>par prv nx. linked n par prv nx (skey t) \<longrightarrow> stored h' par prv nx (Shape (loc t) (skey t) (kind t) (xs @ ys))) \<and>
    stored h' None None None (unlinked u) \<and>
    same_outside h h' (set (addrs t)) \<and> brk h' = brk h"
proof -
  obtain a k c ts where t: "t = Shape a k c ts" by (cases t)
  have ts: "ts = xs @ u # ys" using assms(3) by (simp add: t)
  have n: "cells h a = Some n" "holds_kind n c ts" "siblings h (Some a) None None ts"
    using assms(1) by (simp_all add: root_def t)
  have ht: "head n = first_or ts None" "tail n = last_or ts None" using n(2) assms(2) by (simp_all add: holds_kind_def t)
  have sib: "siblings h (Some a) None (Some (loc u)) xs" "stored h (Some a) (last_or xs None) (first_or ys None) u"
    "siblings h (Some a) (Some (loc u)) None ys"
    using n(3) by (simp_all add: ts siblings_append)
  then obtain m where m: "root h u m" "linked m (Some a) (last_or xs None) (first_or ys None) (skey u)" by (auto simp: stored_root)
  let ?m = "m\<lparr>parent := None, prev := None, nxt := None, node_key := None\<rparr>"
  let ?n = "n\<lparr>head := first_or (xs @ ys) None, tail := last_or (xs @ ys) None\<rparr>"
  have d: "distinct (addrs u)" "a \<notin> set (addrs u)" "distinct (concat (map addrs xs))" "distinct (concat (map addrs ys))"
    "a \<notin> set (concat (map addrs xs))" "a \<notin> set (concat (map addrs ys))"
    "set (addrs u) \<inter> set (concat (map addrs xs)) = {}" "set (addrs u) \<inter> set (concat (map addrs ys)) = {}"
    "set (concat (map addrs xs)) \<inter> set (concat (map addrs ys)) = {}"
    using assms(4) by (auto simp: t ts)
  have lx: "xs \<noteq> [] \<Longrightarrow> loc (last xs) \<in> set (concat (map addrs xs)) \<and> (\<exists>l. cells h (loc (last xs)) = Some l)"
    using sib(1) loc_in by (cases xs rule: rev_cases) (auto simp: siblings_append stored_root root_def)
  have fy: "ys \<noteq> [] \<Longrightarrow> loc (hd ys) \<in> set (concat (map addrs ys)) \<and> (\<exists>l. cells h (loc (hd ys)) = Some l)"
    using sib(3) loc_in by (cases ys) (auto simp: stored_root root_def)
  define l where "l = (if xs = [] then a else loc (last xs))"
  define y where "y = (if ys = [] then a else loc (hd ys))"
  have "\<exists>nl. cells h l = Some nl" "\<exists>ny. cells h y = Some ny" using lx fy n(1) by (simp_all add: l_def y_def)
  then obtain nl ny where nl: "cells h l = Some nl" and ny: "cells h y = Some ny" by blast
  have um: "cells h (loc u) = Some m" "parent m = Some a" "prev m = last_or xs None" "nxt m = first_or ys None" "a \<noteq> loc u"
    using m d(2) loc_in [of u] by (auto simp: root_def linked_def)
  have ulx: "loc (last xs) \<noteq> a \<and> loc (last xs) \<noteq> loc u" if "xs \<noteq> []"
    using conjunct1 [OF lx [OF that]] d(5,7) loc_in [of u] by (metis disjoint_iff)
  have uly: "loc (hd ys) \<noteq> a \<and> loc (hd ys) \<noteq> loc u" if "ys \<noteq> []"
    using conjunct1 [OF fy [OF that]] d(6,8) loc_in [of u] by (metis disjoint_iff)
  have ulxy: "loc (hd ys) \<noteq> loc (last xs)" if "xs \<noteq> []" "ys \<noteq> []"
    using conjunct1 [OF lx [OF that(1)]] conjunct1 [OF fy [OF that(2)]] d(9) by (metis disjoint_iff)
  note ul = ulx uly ulxy
  define N where "N = (if prev m = None then n\<lparr>head := nxt m\<rparr> else n)"
  define N' where "N' = (if nxt m = None then N\<lparr>tail := prev m\<rparr> else N)"
  have N': "N' = ?n"
    using ht by (cases n) (auto simp: N'_def N_def um(3,4) ts first_or_def last_or_def)
  have "prev m = None \<Longrightarrow> l = a" "prev m = Some x \<Longrightarrow> l = x \<and> l \<noteq> a \<and> l \<noteq> loc u"
    "nxt m = None \<Longrightarrow> y = a" "nxt m = Some x \<Longrightarrow> y = x \<and> y \<noteq> a \<and> y \<noteq> loc u \<and> y \<noteq> l" for x
    using um(3,4) ul by (auto simp: l_def y_def first_or_def last_or_def split: if_splits)
  from remove_cells [OF n(1) um(1,5,2) this(1,2) nl this(3,4) ny N_def N'_def]
  obtain h' where h0: "json_remove_from_parent (Some (loc u)) h = Some h'" "brk h' = brk h" "cells h' a = Some N'"
    "cells h' (loc u) = Some ?m" "l \<noteq> a \<longrightarrow> cells h' l = Some (nl\<lparr>nxt := nxt m\<rparr>)" "y \<noteq> a \<longrightarrow> cells h' y = Some (ny\<lparr>prev := prev m\<rparr>)"
    "\<forall>x. x \<noteq> a \<longrightarrow> x \<noteq> loc u \<longrightarrow> x \<noteq> l \<longrightarrow> x \<noteq> y \<longrightarrow> cells h' x = cells h x" by blast
  note h1 = h0(1,2,4) h0(3) [unfolded N']
  have h4: "cells h' (loc (last xs)) = map_option (\<lambda>n. n\<lparr>nxt := first_or ys None\<rparr>) (cells h (loc (last xs)))" if "xs \<noteq> []"
    using h0(5) nl ulx [OF that] that um(4) by (simp add: l_def)
  have h5: "cells h' (loc (hd ys)) = map_option (\<lambda>n. n\<lparr>prev := last_or xs None\<rparr>) (cells h (loc (hd ys)))" if "ys \<noteq> []"
    using h0(6) ny uly [OF that] that um(3) by (simp add: y_def)
  have h6: "cells h' x = cells h x"
    if "x \<noteq> a" "x \<noteq> loc u" "xs = [] \<or> x \<noteq> loc (last xs)" "ys = [] \<or> x \<noteq> loc (hd ys)" for x
  proof -
    have "x \<noteq> l" "x \<noteq> y" using that by (auto simp: l_def y_def)
    with h0(7) that(1,2) show ?thesis by blast
  qed
  have apart: "x \<noteq> a" "x \<noteq> loc u" "ys = [] \<or> x \<noteq> loc (hd ys)" if "x \<in> set (concat (map addrs xs))" for x
    using that d(5,7,9) loc_in [of u] fy by (metis disjoint_iff)+
  have apart': "x \<noteq> a" "x \<noteq> loc u" "xs = [] \<or> x \<noteq> loc (last xs)" if "x \<in> set (concat (map addrs ys))" for x
    using that d(6,8,9) loc_in [of u] lx by (metis disjoint_iff)+
  have apart'': "x \<noteq> a" "xs = [] \<or> x \<noteq> loc (last xs)" "ys = [] \<or> x \<noteq> loc (hd ys)" if "x \<in> set (addrs u)" for x
    using that d(2,7,8) lx fy by (metis disjoint_iff)+
  have "siblings h' (Some a) None (first_or ys None) xs"
    by (rule siblings_keep_last [OF sib(1) d(3) _ h4], rule h6) (use apart in auto)
  moreover have "siblings h' (Some a) (last_or xs None) None ys"
    by (rule siblings_keep_first [OF sib(3) d(4) _ h5], rule h6) (use apart' in auto)
  ultimately have "siblings h' (Some a) None None (xs @ ys)" by (simp add: siblings_append)
  with assms(1,2) h1(4) have "\<forall>par prv nx. linked n par prv nx (skey t) \<longrightarrow> stored h' par prv nx (Shape (loc t) (skey t) (kind t) (xs @ ys))"
    by (auto simp: t intro!: stored_children [where t = t, unfolded t, simplified])
  moreover have "stored h' None None None (unlinked u)"
    unfolding unlinked_def
    by (rule stored_relink [OF m(1) d(1) h1(3)]) (use m apart'' h6 in \<open>auto simp: linked_def root_def\<close>)
  moreover have "same_outside h h' (set (addrs t))"
    using h6 lx fy loc_in [of u] by (auto simp: same_outside_def t ts)
  ultimately show ?thesis using h1(1,2) by blast
qed

end
