(* ===== verification/JsonNodes.thy ===== *)
theory JsonNodes
  imports JsonShape
begin

text \<open>
  Deleting trees in memory: deleting frees exactly the nodes of a tree, with fuel for twice as many calls as
  there are nodes. (The searches are in \<open>JsonMemory\<close>, next to the trees they are compared with.)
\<close>

section \<open>Deleting\<close>

definition erase :: "nat list \<Rightarrow> heap \<Rightarrow> heap" where
  "erase as h = h\<lparr>cells := (\<lambda>x. if x \<in> set as then None else cells h x)\<rparr>"

lemma erase_simps [simp]: "cells (erase as h) x = (if x \<in> set as then None else cells h x)" "brk (erase as h) = brk h"
  by (simp_all add: erase_def)

text \<open>Deleting a linked node is unlinking it and deleting it.\<close>

lemma delete_unlinked:
  assumes "json_remove_from_parent (Some a) h = Some h1" "stored h1 None None None (Shape a k c ts)"
  shows "json_delete f (Some a) h = json_delete f (Some a) h1"
proof (cases f)
  case (Suc f)
  have "json_remove_from_parent (Some a) h1 = Some h1"
    using assms(2) by (auto simp: json_remove_from_parent_def cell_def stored.simps linked_def split: option.splits)
  with assms(1) Suc show ?thesis by simp
qed simp

text \<open>The children, deleted from the first to the last.\<close>

lemma delete_children_ok:
  assumes del: "\<And>u h f. u \<in> set ts \<Longrightarrow> stored h None None None (unlinked u) \<Longrightarrow> 2 * length (addrs u) \<le> f \<Longrightarrow>
      json_delete f (Some (loc u)) h = Some (erase (addrs u) h)"
    and "stored h par prv nx (Shape a k c ts)" "container c" "distinct (addrs (Shape a k c ts))"
    and "2 * length (concat (map addrs ts)) < f"
  shows "\<exists>h'. delete_children f (first_or ts None) h = Some h' \<and> cells h' a \<noteq> None \<and> brk h' = brk h \<and>
    (\<forall>x. x \<noteq> a \<longrightarrow> cells h' x = cells (erase (concat (map addrs ts)) h) x)"
  using assms
proof (induction ts arbitrary: h par prv nx f)
  case Nil
  then obtain f' where "f = Suc f'" by (cases f) auto
  with Nil(2) show ?case by (intro exI [of _ h]) (auto simp: stored.simps split: option.splits)
next
  case (Cons u us)
  obtain f' where f: "f = Suc f'" using Cons.prems(5) by (cases f) auto
  let ?t = "Shape a k c (u # us)"
  obtain n where n: "root h ?t n" "linked n par prv nx k" using Cons.prems(2) by (auto simp: stored_root)
  from remove_ok [OF n(1), of "[]" u us] Cons.prems(3,4) n(2) obtain h1
    where h1: "json_remove_from_parent (Some (loc u)) h = Some h1" "stored h1 par prv nx (Shape a k c us)"
      "stored h1 None None None (unlinked u)" "same_outside h h1 (set (addrs ?t))" "brk h1 = brk h"
    by fastforce
  have lu: "0 < length (addrs u)" by (cases u) simp
  have d1: "json_delete f' (Some (loc u)) h = Some (erase (addrs u) h1)"
    using delete_unlinked [OF h1(1) h1(3) [unfolded unlinked_def]] Cons.prems(1) [OF _ h1(3), of f'] Cons.prems(5) f by simp
  obtain c0 where c0: "cells h (loc u) = Some c0" "nxt c0 = first_or us None"
    using n(1) by (auto simp: root_def stored_root linked_def)
  let ?h2 = "erase (addrs u) h1"
  have "stored ?h2 par prv nx (Shape a k c us)"
    using h1(2) Cons.prems(4) by (subst stored_frame(1) [where h = h1]) auto
  moreover have "distinct (addrs (Shape a k c us))" "2 * length (concat (map addrs us)) < f'"
    using Cons.prems(4,5) f lu by (auto simp del: length_greater_0_conv)
  ultimately have "\<exists>h'. delete_children f' (first_or us None) ?h2 = Some h' \<and> cells h' a \<noteq> None \<and> brk h' = brk ?h2 \<and>
      (\<forall>x. x \<noteq> a \<longrightarrow> cells h' x = cells (erase (concat (map addrs us)) ?h2) x)"
    using Cons.prems(1,3) by (intro Cons.IH) auto
  then obtain h3
    where h3: "delete_children f' (first_or us None) ?h2 = Some h3" "cells h3 a \<noteq> None" "brk h3 = brk ?h2"
      "\<forall>x. x \<noteq> a \<longrightarrow> cells h3 x = cells (erase (concat (map addrs us)) ?h2) x"
    by blast
  have "delete_children f (first_or (u # us) None) h = Some h3"
    using f c0 d1 h3(1) by (simp add: cell_def)
  moreover have "\<forall>x. x \<noteq> a \<longrightarrow> cells h3 x = cells (erase (concat (map addrs (u # us))) h) x"
    using h3(4) h1(4) by (auto simp: same_outside_def)
  ultimately show ?case using h3(2,3) h1(5) by auto
qed

lemma delete_ok:
  "stored h None None None (Shape (loc t) k (kind t) (kids t)) \<Longrightarrow> distinct (addrs t) \<Longrightarrow> 2 * length (addrs t) \<le> f \<Longrightarrow>
    json_delete f (Some (loc t)) h = Some (erase (addrs t) h)"
proof (induction t arbitrary: h k f)
  case (Shape a k0 c ts)
  obtain f' where f: "f = Suc f'" using Shape.prems(3) by (cases f) auto
  obtain n where n: "cells h a = Some n" "parent n = None" "tag n = kind_tag c" "container c \<Longrightarrow> head n = first_or ts None"
    "\<not> container c \<Longrightarrow> ts = []"
    using Shape.prems(1) by (auto simp: stored.simps linked_def holds_kind_def split: option.splits if_splits)
  have rm: "json_remove_from_parent (Some a) h = Some h" using n by (simp add: json_remove_from_parent_def cell_def)
  have cont: "container c \<longleftrightarrow> tag n = JSON_ARRAY \<or> tag n = JSON_OBJECT"
    using n(3) by (cases c) (auto simp: container_def json_tags)
  show ?case
  proof (cases "container c")
    case False
    then show ?thesis
      using f rm n cont by (simp add: cell_def free_cell_def erase_def fun_upd_def)
  next
    case True
    have "\<exists>h'. delete_children f' (first_or ts None) h = Some h' \<and> cells h' a \<noteq> None \<and> brk h' = brk h \<and>
        (\<forall>x. x \<noteq> a \<longrightarrow> cells h' x = cells (erase (concat (map addrs ts)) h) x)"
    proof (rule delete_children_ok [OF _ Shape.prems(1) [simplified] True])
      fix u h f assume u: "u \<in> set ts" "stored h None None None (unlinked u)" "2 * length (addrs u) \<le> f"
      have "distinct (addrs u)" using Shape.prems(2) u(1) by (auto simp: distinct_concat_iff)
      with Shape.IH [OF u(1)] u(2,3) show "json_delete f (Some (loc u)) h = Some (erase (addrs u) h)"
        by (simp add: unlinked_def)
    qed (use Shape.prems(2,3) f in auto)
    then obtain h' where h': "delete_children f' (first_or ts None) h = Some h'" "cells h' a \<noteq> None" "brk h' = brk h"
      "\<forall>x. x \<noteq> a \<longrightarrow> cells h' x = cells (erase (concat (map addrs ts)) h) x" by blast
    have "json_delete f (Some a) h = free_cell (Some a) h'"
      using f rm n True cont h'(1) by (simp add: cell_def)
    also have "\<dots> = Some (erase (addrs (Shape a k0 c ts)) h)"
      using h'(2-4) by (auto simp: free_cell_def erase_def fun_eq_iff)
    finally show ?thesis by simp
  qed
qed

end
