(* ===== verification/JsonCheck.thy ===== *)
theory JsonCheck
  imports JsonNodes
begin

text \<open>
  \<open>json_check\<close>: with fuel for twice as many calls as there are nodes it accepts every tree in memory with valid
  strings and keys where they belong, and whatever it accepts is such a tree.
\<close>

section \<open>Valid trees are accepted\<close>

definition valid_text :: "byte list \<Rightarrow> bool" where
  "valid_text s \<longleftrightarrow> nul_free s \<and> valid_utf8 s"

fun valid_shape :: "shape \<Rightarrow> bool" where
  "valid_shape (Shape a k c ts) \<longleftrightarrow>
    (case k of None \<Rightarrow> True | Some s \<Rightarrow> valid_text s) \<and>
    (case c of SString s \<Rightarrow> valid_text s | _ \<Rightarrow> True) \<and>
    (if c = SArray then list_all (\<lambda>t. skey t = None) ts else c = SObject \<longrightarrow> list_all (\<lambda>t. skey t \<noteq> None) ts) \<and>
    list_all valid_shape ts"

lemma valid_text_validate: "valid_text s \<Longrightarrow> utf8_validate (s @ [0]) = Some True"
  by (simp add: valid_text_def utf8_validate_iff)

lemma distinct_locs: "distinct (concat (map addrs ts)) \<Longrightarrow> distinct (map loc ts)"
proof (induction ts)
  case (Cons t ts)
  have "loc t \<notin> loc ` set ts"
  proof
    assume "loc t \<in> loc ` set ts"
    then obtain u where "u \<in> set ts" "loc t \<in> set (addrs u)" using loc_in by (metis imageE)
    with loc_in [of t] Cons.prems show False by auto
  qed
  with Cons show ?case by simp
qed simp

definition keys_fit :: "node \<Rightarrow> shape list \<Rightarrow> bool" where
  "keys_fit n ts \<longleftrightarrow> list_all (\<lambda>t. (tag n = JSON_ARRAY \<longrightarrow> skey t = None) \<and> (tag n = JSON_OBJECT \<longrightarrow> skey t \<noteq> None)) ts"

lemma check_children_ok:
  assumes chk: "\<And>u f par prv nx. u \<in> set ys \<Longrightarrow> stored h par prv nx u \<Longrightarrow> 2 * length (addrs u) \<le> f \<Longrightarrow>
      json_check f (Some (loc u)) h = Some (Inr ())"
    and "siblings h (Some a) (last_or xs None) None ys" "head n = first_or (xs @ ys) None" "tail n = last_or (xs @ ys) None"
    and "keys_fit n ys" "a \<notin> set (map loc ys)" "distinct (map loc (xs @ ys))"
    and "2 * length (concat (map addrs ys)) < f"
  shows "check_children f (Some a) n (first_or ys None) (last_or xs None) h = Some (Inr ())"
  using assms
proof (induction ys arbitrary: xs f)
  case Nil
  then obtain f' where "f = Suc f'" by (cases f) auto
  with Nil show ?case by simp
next
  case (Cons u us)
  obtain f' where f: "f = Suc f'" using Cons.prems(8) by (cases f) auto
  have lu: "0 < length (addrs u)" by (cases u) simp
  obtain c where c: "cells h (loc u) = Some c" "linked c (Some a) (last_or xs None) (first_or us None) (skey u)"
    using Cons.prems(2) by (auto simp: stored_root root_def)
  have hd: "nxt c \<noteq> head n" "nxt c \<noteq> Some (loc u)"
    using c(2) Cons.prems(3,7) by (cases us; cases xs; auto simp: linked_def first_or_def)+
  have bk: "(if nxt c \<noteq> None then do { x \<leftarrow> cell h (nxt c); Some (prev x) } else Some (Some (loc u))) = Some (Some (loc u))"
    using c(2) Cons.prems(2) by (cases us) (auto simp: linked_def stored_root root_def cell_def)
  have k: "\<not> (tag n = JSON_ARRAY \<and> node_key c \<noteq> None)" "\<not> (tag n = JSON_OBJECT \<and> node_key c = None)"
    using c(2) Cons.prems(5) by (auto simp: keys_fit_def linked_def)
  have r: "json_check f' (Some (loc u)) h = Some (Inr ())"
    using Cons.prems(1) [of u] Cons.prems(2,8) f by auto
  have rec: "check_children f' (Some a) n (first_or us None) (last_or (xs @ [u]) None) h = Some (Inr ())"
    using Cons.prems f lu by (intro Cons.IH) (auto simp: keys_fit_def simp del: length_greater_0_conv)
  have "check_children f (Some a) n (Some (loc u)) (last_or xs None) h =
      check_children f' (Some a) n (nxt c) (Some (loc u)) h"
    using f c hd bk k r Cons.prems(6) by (auto simp: cell_def linked_def)
  with rec c(2) show ?case by (simp add: linked_def)
qed

lemma check_ok:
  "stored h par prv nx t \<Longrightarrow> valid_shape t \<Longrightarrow> distinct (addrs t) \<Longrightarrow> 2 * length (addrs t) \<le> f \<Longrightarrow>
    json_check f (Some (loc t)) h = Some (Inr ())"
proof (induction t arbitrary: par prv nx f)
  case (Shape a k c ts)
  obtain f' where f: "f = Suc f'" using Shape.prems(4) by (cases f) auto
  obtain n where n: "cells h a = Some n" "linked n par prv nx k" "holds_kind n c ts" "siblings h (Some a) None None ts"
    using Shape.prems(1) by (auto simp: stored.simps split: option.splits)
  have key: "(case node_key n of None \<Rightarrow> Some True | Some k \<Rightarrow> utf8_validate (k @ [0])) = Some True"
    using n(2) Shape.prems(2) by (auto simp: linked_def valid_text_validate split: option.splits)
  have tg: "tag n = kind_tag c" "tag_is_valid (tag n)"
    using n(3) by (cases c; auto simp: holds_kind_def tag_is_valid_def json_tags)+
  show ?case
  proof (cases "container c")
    case False
    with f n key tg Shape.prems(2) show ?thesis
      by (cases c) (auto simp: cell_def json_tags container_def holds_kind_def valid_text_validate)
  next
    case True
    have ht: "head n = first_or ts None" "tail n = last_or ts None" using n(3) True by (simp_all add: holds_kind_def)
    have cont: "tag n = JSON_ARRAY \<or> tag n = JSON_OBJECT" "tag n \<noteq> JSON_STRING"
      using True tg(1) by (auto simp: container_def json_tags)
    show ?thesis
    proof (cases ts)
      case Nil
      with f n key tg cont ht show ?thesis by (simp add: cell_def)
    next
      case (Cons u us)
      have "check_children f' (Some a) n (first_or ts None) (last_or [] None) h = Some (Inr ())"
      proof (rule check_children_ok)
        fix u f par prv nx assume u: "u \<in> set ts" "stored h par prv nx u" "2 * length (addrs u) \<le> f"
        have "distinct (addrs u)" using Shape.prems(3) u(1) by (auto simp: distinct_concat_iff)
        with Shape.IH [OF u(1,2) _ this u(3)] Shape.prems(2) u(1) show "json_check f (Some (loc u)) h = Some (Inr ())"
          by (auto simp: list_all_iff)
      next
        show "keys_fit n ts"
          using Shape.prems(2) tg(1) True by (auto simp: keys_fit_def json_tags container_def list_all_iff)
        show "a \<notin> set (map loc ts)" using Shape.prems(3) loc_in by auto
        have "distinct (map loc ts)" using Shape.prems(3) by (intro distinct_locs) simp
        then show "distinct (map loc ([] @ ts))" by simp
      qed (use n ht Shape.prems(4) f in auto)
      moreover obtain m where "cells h (loc u) = Some m" "prev m = None"
        using n(4) Cons by (auto simp: stored_root root_def linked_def)
      ultimately show ?thesis using f n key tg cont ht by (simp add: cell_def Cons last_or_def)
    qed
  qed
qed

section \<open>Whatever is accepted is a tree\<close>

text \<open>The strings of a heap are C strings.\<close>

definition texts_ok :: "heap \<Rightarrow> bool" where
  "texts_ok h \<longleftrightarrow> (\<forall>a n s. cells h a = Some n \<longrightarrow> node_key n = Some s \<or> string_val n = Some s \<longrightarrow> nul_free s)"

lemma texts_validate:
  assumes "texts_ok h" "cells h a = Some n" "node_key n = Some s \<or> string_val n = Some s" "utf8_validate (s @ [0]) = Some True"
  shows "valid_text s"
proof -
  have "nul_free s" using assms(1-3) by (auto simp: texts_ok_def)
  with assms(4) utf8_validate_iff [of s "[]"] show ?thesis by (simp add: valid_text_def)
qed

text \<open>A node that is no container.\<close>

lemma check_leaf:
  assumes "texts_ok h" "cells h a = Some n" "json_check (Suc f) (Some a) h = Some (Inr ())" "tag n \<noteq> JSON_ARRAY" "tag n \<noteq> JSON_OBJECT"
  shows "\<exists>t. loc t = a \<and> stored h (parent n) (prev n) (nxt n) t \<and> valid_shape t"
proof -
  have v: "case node_key n of None \<Rightarrow> True | Some s \<Rightarrow> valid_text s" "tag_is_valid (tag n)"
    "tag n = JSON_STRING \<Longrightarrow> \<exists>s. string_val n = Some s \<and> valid_text s"
    using assms(3) texts_validate [OF assms(1,2)]
    by (auto simp: cell_def assms(2) bind_eq_Some_conv split: if_splits option.splits)
  let ?S = "\<lambda>c. Shape a (node_key n) c []"
  have ok: ?thesis if "holds_kind n c []" "case c of SString s \<Rightarrow> valid_text s | _ \<Rightarrow> True" for c
    using assms(2) v(1) that by (intro exI [of _ "?S c"]) (auto simp: stored.simps linked_def split: if_splits)
  from v(2) assms(4,5) have "tag n = JSON_NULL \<or> tag n = JSON_BOOL \<or> tag n = JSON_STRING \<or> tag n = JSON_NUMBER"
    by (auto simp: tag_is_valid_def json_tags)
  then show ?thesis
  proof (elim disjE)
    assume "tag n = JSON_NULL"
    then show ?thesis by (intro ok [of SNull]) (simp_all add: holds_kind_def container_def)
  next
    assume "tag n = JSON_BOOL"
    then show ?thesis by (intro ok [of "SBool (bool_val n)"]) (simp_all add: holds_kind_def container_def)
  next
    assume "tag n = JSON_STRING"
    with v(3) obtain s where "string_val n = Some s" "valid_text s" by blast
    with \<open>tag n = JSON_STRING\<close> show ?thesis by (intro ok [of "SString s"]) (simp_all add: holds_kind_def container_def)
  next
    assume "tag n = JSON_NUMBER"
    then show ?thesis by (intro ok [of "SNumber (number_val n)"]) (simp_all add: holds_kind_def container_def)
  qed
qed

lemma not_Inl: "(\<forall>x. r \<noteq> Inl x) \<longleftrightarrow> r = Inr ()"
  by (cases r) auto

definition children_tree :: "heap \<Rightarrow> nat \<Rightarrow> node \<Rightarrow> ptr \<Rightarrow> ptr \<Rightarrow> shape list \<Rightarrow> bool" where
  "children_tree h a n child lst ts \<longleftrightarrow> child = first_or ts None \<and> siblings h (Some a) lst None ts \<and>
    tail n = last_or ts lst \<and> keys_fit n ts \<and> list_all valid_shape ts"

lemma check_sound:
  assumes "texts_ok h"
  shows "(\<forall>a n. json_check f (Some a) h = Some (Inr ()) \<longrightarrow> cells h a = Some n \<longrightarrow>
      (\<exists>t. loc t = a \<and> stored h (parent n) (prev n) (nxt n) t \<and> valid_shape t)) \<and>
    (\<forall>a n child lst. check_children f (Some a) n child lst h = Some (Inr ()) \<longrightarrow>
      (\<forall>x c. child = Some x \<longrightarrow> cells h x = Some c \<longrightarrow> prev c = lst) \<longrightarrow> (\<exists>ts. children_tree h a n child lst ts))"
proof (induction f)
  case (Suc f)
  note IH1 = conjunct1 [OF Suc.IH, rule_format] and IH2 = conjunct2 [OF Suc.IH, rule_format]
  have "\<exists>t. loc t = a \<and> stored h (parent n) (prev n) (nxt n) t \<and> valid_shape t"
    if chk: "json_check (Suc f) (Some a) h = Some (Inr ())" and n: "cells h a = Some n" for a n
  proof (cases "tag n = JSON_ARRAY \<or> tag n = JSON_OBJECT")
    case False
    then show ?thesis using check_leaf [OF assms n chk] by blast
  next
    case True
    then obtain c where c: "container c" "tag n = kind_tag c" "c = SArray \<or> c = SObject"
      by (metis container_def kind_tag.simps(5,6))
    have v: "case node_key n of None \<Rightarrow> True | Some s \<Rightarrow> valid_text s"
      using chk texts_validate [OF assms n] by (auto simp: cell_def n bind_eq_Some_conv split: if_splits option.splits)
    have ok: ?thesis if "siblings h (Some a) None None ts" "head n = first_or ts None" "tail n = last_or ts None"
        "keys_fit n ts" "list_all valid_shape ts" for ts
      using that c v n
      by (intro exI [of _ "Shape a (node_key n) c ts"])
        (auto simp: stored.simps linked_def holds_kind_def keys_fit_def json_tags list_all_iff container_def)
    show ?thesis
    proof (cases "head n = None \<or> tail n = None")
      case empty: True
      with chk True n have "head n = None" "tail n = None"
        by (auto simp: cell_def bind_eq_Some_conv json_tags split: if_splits)
      then show ?thesis by (intro ok [of "[]"]) (simp_all add: keys_fit_def)
    next
      case False
      with chk True n obtain x where hd: "cell h (head n) = Some x" "prev x = None" 
        "check_children f (Some a) n (head n) None h = Some (Inr ())"
        by (auto simp: cell_def bind_eq_Some_conv json_tags split: if_splits)
      have "\<exists>ts. children_tree h a n (head n) None ts"
        by (rule IH2 [OF hd(3)]) (use hd(1,2) in \<open>auto simp: cell_def\<close>)
      then obtain ts where "children_tree h a n (head n) None ts" by blast
      then show ?thesis by (intro ok [of ts]) (auto simp: children_tree_def)
    qed
  qed
  moreover have "\<exists>ts. children_tree h a n child lst ts"
    if chk: "check_children (Suc f) (Some a) n child lst h = Some (Inr ())"
      and prev: "\<forall>x c. child = Some x \<longrightarrow> cells h x = Some c \<longrightarrow> prev c = lst" for a n child lst
  proof (cases child)
    case None
    with chk show ?thesis by (intro exI [of _ "[]"]) (auto simp: children_tree_def keys_fit_def split: if_splits)
  next
    case (Some x)
    with chk obtain c where c: "cells h x = Some c" "parent c = Some a"
      "nxt c \<noteq> None \<longrightarrow> (\<exists>y. cell h (nxt c) = Some y \<and> prev y = Some x)"
      "\<not> (tag n = JSON_ARRAY \<and> node_key c \<noteq> None)" "\<not> (tag n = JSON_OBJECT \<and> node_key c = None)"
      "json_check f (Some x) h = Some (Inr ())" "check_children f (Some a) n (nxt c) (Some x) h = Some (Inr ())"
      by (auto simp: cell_def bind_eq_Some_conv not_Inl split: if_splits sum.splits)
    from IH1 [OF c(6,1)] obtain t where t: "loc t = x" "stored h (Some a) lst (nxt c) t" "valid_shape t"
      using prev Some c(1,2) by auto
    have "\<exists>ts. children_tree h a n (nxt c) (Some x) ts"
      by (rule IH2 [OF c(7)]) (use c(3) in \<open>auto simp: cell_def\<close>)
    then obtain ts where ts: "children_tree h a n (nxt c) (Some x) ts" by blast
    have "skey t = node_key c" using t(1,2) c(1) by (auto simp: stored_root root_def linked_def)
    with ts t c(4,5) Some have "children_tree h a n child lst (t # ts)"
      by (auto simp: children_tree_def keys_fit_def last_or_def)
    then show ?thesis by blast
  qed
  ultimately show ?case by blast
qed simp

end
