(* ===== verification/JsonUnique.thy ===== *)
theory JsonUnique
  imports JsonShape
begin

text \<open>
  No sharing: the pointers of the nodes determine the tree below an address, and no address occurs twice in
  a tree in memory. So "distinct addresses" never has to be assumed of a tree that is stored.
\<close>

section \<open>One tree per address\<close>

lemma holds_kind_unique: "holds_kind n c ts \<Longrightarrow> holds_kind n c' ts' \<Longrightarrow> c = c'"
  by (cases c; cases c') (simp_all add: holds_kind_def json_tags)

definition fixes_tree :: "heap \<Rightarrow> shape \<Rightarrow> bool" where
  "fixes_tree h t \<longleftrightarrow> (\<forall>par prv nx par' prv' nx' t'. stored h par prv nx t \<longrightarrow> stored h par' prv' nx' t' \<longrightarrow>
    loc t' = loc t \<longrightarrow> t' = t)"

lemma first_or_next:
  assumes "stored h par prv (first_or us None) u" "stored h par' prv' (first_or vs None) u"
  shows "first_or us None = first_or vs None"
proof -
  obtain n where n: "cells h (loc u) = Some n" "nxt n = first_or us None"
    using assms(1) by (auto simp: stored_root root_def linked_def)
  obtain m where m: "cells h (loc u) = Some m" "nxt m = first_or vs None"
    using assms(2) by (auto simp: stored_root root_def linked_def)
  from n m show ?thesis by simp
qed

lemma siblings_fix:
  assumes "list_all (fixes_tree h) us" "siblings h p q None us" "siblings h p' q' None us'"
    and "first_or us None = first_or us' None"
  shows "us' = us"
  using assms
proof (induction us arbitrary: us' q q')
  case Nil
  then show ?case by (cases us') simp_all
next
  case (Cons u us)
  then obtain v vs where v: "us' = v # vs" "loc v = loc u" by (cases us') auto
  have su: "stored h p q (first_or us None) u" "siblings h p (Some (loc u)) None us" using Cons.prems(2) by simp_all
  have sv: "stored h p' q' (first_or vs None) v" "siblings h p' (Some (loc v)) None vs" using Cons.prems(3) v by simp_all
  have fx: "fixes_tree h u" "list_all (fixes_tree h) us" using Cons.prems(1) by simp_all
  have uv: "v = u" using fx(1) su(1) sv(1) v(2) unfolding fixes_tree_def by blast
  have "first_or us None = first_or vs None" by (rule first_or_next [OF su(1) sv(1) [unfolded uv]])
  from Cons.IH [OF fx(2) su(2) sv(2) this] uv v(1) show ?case by simp
qed

lemma stored_fixes: "fixes_tree h t"
proof (induction t)
  case (Shape a k c ts)
  have all: "list_all (fixes_tree h) ts" using Shape.IH by (simp add: list_all_iff)
  have "t' = Shape a k c ts"
    if t: "stored h par prv nx (Shape a k c ts)" "stored h par' prv' nx' t'" "loc t' = a" for par prv nx par' prv' nx' t'
  proof -
    obtain k' c' ts' where t': "t' = Shape a k' c' ts'" using t(3) by (cases t') auto
    obtain n where n: "cells h a = Some n" "node_key n = k" "holds_kind n c ts" "siblings h (Some a) None None ts"
      using t(1) by (auto simp: stored.simps linked_def split: option.splits)
    have n': "node_key n = k'" "holds_kind n c' ts'" "siblings h (Some a) None None ts'"
      using t(2) n(1) t' by (auto simp: stored.simps linked_def)
    have c: "c = c'" using holds_kind_unique [OF n(3) n'(2)] .
    have "ts' = ts"
    proof (cases "container c")
      case True
      then have "first_or ts None = first_or ts' None" using n(3) n'(2) c by (simp add: holds_kind_def)
      from siblings_fix [OF all n(4) n'(3) this] show ?thesis .
    qed (use n(3) n'(2) c in \<open>simp add: holds_kind_def\<close>)
    with c n(2) n'(1) t' show ?thesis by simp
  qed
  then show ?case unfolding fixes_tree_def by simp
qed

lemma stored_unique: "stored h par prv nx t \<Longrightarrow> stored h par' prv' nx' t' \<Longrightarrow> loc t' = loc t \<Longrightarrow> t' = t"
  using stored_fixes [of h t] unfolding fixes_tree_def by blast

lemma siblings_unique:
  "siblings h p q None us \<Longrightarrow> siblings h p' q' None us' \<Longrightarrow> first_or us None = first_or us' None \<Longrightarrow> us' = us"
  by (rule siblings_fix) (simp_all add: list_all_iff stored_fixes)

fun subs :: "shape \<Rightarrow> shape list" where
  "subs (Shape a k c ts) = Shape a k c ts # concat (map subs ts)"

lemma subs_self: "t \<in> set (subs t)"
  by (cases t) simp

lemma subs_hd: "hd (map loc (subs t)) = loc t"
  by (cases t) simp

lemma addrs_subs: "addrs t = map loc (subs t)"
  by (induction t) (simp add: map_concat cong: map_cong)

lemma size_kid: "t \<in> set ts \<Longrightarrow> size t < size (Shape a k c ts)"
  using size_list_estimation' [of t ts _ size] by (simp add: less_Suc_eq_le)

lemma subs_size: "s \<in> set (subs t) \<Longrightarrow> s = t \<or> size s < size t"
proof (induction t)
  case (Shape a k c ts)
  then show ?case using size_kid [of _ ts a k c] by fastforce
qed

lemma sibling_stored: "siblings h par prv nx ts \<Longrightarrow> t \<in> set ts \<Longrightarrow> \<exists>prv nx. stored h par prv nx t"
  by (induction ts arbitrary: prv) auto

lemma subs_stored: "stored h par prv nx t \<Longrightarrow> s \<in> set (subs t) \<Longrightarrow> \<exists>par prv nx. stored h par prv nx s"
proof (induction t arbitrary: par prv nx)
  case (Shape a k c ts)
  then have "siblings h (Some a) None None ts" by (auto simp: stored.simps)
  with Shape sibling_stored show ?case by fastforce
qed

lemma subs_parent:
  "stored h par prv nx t \<Longrightarrow> s \<in> set (subs t) \<Longrightarrow> s \<noteq> t \<Longrightarrow>
    \<exists>u \<in> set (subs t). size s < size u \<and> (\<exists>prv nx. stored h (Some (loc u)) prv nx s)"
proof (induction t arbitrary: par prv nx)
  case (Shape a k c ts)
  then obtain t where t: "t \<in> set ts" "s \<in> set (subs t)" by auto
  have sib: "siblings h (Some a) None None ts" using Shape.prems(1) by (auto simp: stored.simps)
  from sibling_stored [OF this t(1)] obtain p q where st: "stored h (Some a) p q t" by blast
  show ?case
  proof (cases "s = t")
    case True
    with st size_kid [OF t(1), of a k c] show ?thesis by auto
  next
    case False
    with Shape.IH [OF t(1) st t(2)] t(1) show ?thesis by auto
  qed
qed


section \<open>No address twice\<close>

text \<open>A node is among the children of one parent only, once.\<close>

lemma siblings_suffix: "siblings h p q nx (xs @ ys) \<Longrightarrow> \<exists>q. siblings h p q nx ys"
  by (auto simp: siblings_append)

lemma siblings_distinct:
  assumes "siblings h p q None ts"
  shows "distinct (map loc ts)"
proof (rule ccontr)
  assume "\<not> distinct (map loc ts)"
  then obtain xs ys zs x where "map loc ts = xs @ [x] @ ys @ [x] @ zs" using not_distinct_decomp by blast
  then obtain as b cs d es where ts: "ts = as @ (b # cs) @ (d # es)" and "loc b = loc d"
    by (auto simp: map_eq_append_conv append_eq_map_conv map_eq_Cons_conv Cons_eq_map_conv)
  obtain q1 where 1: "siblings h p q1 None ((b # cs) @ (d # es))" using siblings_suffix assms ts by blast
  obtain q2 where 2: "siblings h p q2 None (d # es)" using siblings_suffix [OF 1] by blast
  have "d # es = (b # cs) @ (d # es)"
    by (rule siblings_unique [OF 1 2]) (simp add: \<open>loc b = loc d\<close>)
  then have "length (d # es) = length ((b # cs) @ (d # es))" by (rule arg_cong)
  then show False by simp
qed

lemma stored_node: "stored h par prv nx t \<Longrightarrow> \<exists>n. cells h (loc t) = Some n \<and> parent n = par"
  by (auto simp: stored_root root_def linked_def)

text \<open>Two trees with the same parent, which is in neither of them, share no node.\<close>

lemma shared_below:
  assumes "stored h par p q t" "stored h par p' q' u"
    and "\<And>w. w \<in> set (subs t) \<Longrightarrow> par \<noteq> Some (loc w)" "\<And>w. w \<in> set (subs u) \<Longrightarrow> par \<noteq> Some (loc w)"
    and "s \<in> set (subs t)" "s \<in> set (subs u)"
  shows "t = u"
  using assms(5,6)
proof (induction "size t - size s" arbitrary: s rule: less_induct)
  case less
  obtain ps n1 n2 where s: "stored h ps n1 n2 s" using subs_stored [OF assms(1) less.prems(1)] by blast
  obtain n where n: "cells h (loc s) = Some n" "parent n = ps" using stored_node [OF s] by blast
  have below: "\<exists>w \<in> set (subs v). par = Some (loc w)" if vs: "stored h par x y v" "stored h par x' y' s" "s \<in> set (subs v)" "s \<noteq> v"
    for v x y x' y'
  proof -
    obtain w i j where w: "w \<in> set (subs v)" "stored h (Some (loc w)) i j s" using subs_parent [OF vs(1,3,4)] by blast
    with stored_node [OF w(2)] stored_node [OF vs(2)] show ?thesis by auto
  qed
  show ?case
  proof (cases "s = t \<or> s = u")
    case True
    show ?thesis
    proof (rule ccontr)
      assume tu: "t \<noteq> u"
      show False
      proof (cases "s = t")
        case True
        have "\<exists>w \<in> set (subs u). par = Some (loc w)"
          by (rule below [OF assms(2) assms(1) [folded True] less.prems(2)]) (use tu True in simp)
        with assms(4) show False by blast
      next
        case False
        with \<open>s = t \<or> s = u\<close> have su: "s = u" by blast
        have "\<exists>w \<in> set (subs t). par = Some (loc w)"
          by (rule below [OF assms(1) assms(2) [folded su] less.prems(1) False])
        with assms(3) show False by blast
      qed
    qed
  next
    case False
    then obtain v x y where v: "v \<in> set (subs t)" "size s < size v" "stored h (Some (loc v)) x y s"
      using subs_parent [OF assms(1) less.prems(1)] by auto
    from False obtain w x' y' where w: "w \<in> set (subs u)" "stored h (Some (loc w)) x' y' s"
      using subs_parent [OF assms(2) less.prems(2)] by auto
    have "loc v = loc w" using stored_node [OF v(3)] stored_node [OF w(2)] by auto
    moreover obtain a1 a2 a3 where "stored h a1 a2 a3 v" using subs_stored [OF assms(1) v(1)] by blast
    moreover obtain b1 b2 b3 where "stored h b1 b2 b3 w" using subs_stored [OF assms(2) w(1)] by blast
    ultimately have "v = w" using stored_unique by metis
    moreover have "size t - size v < size t - size s" using v(2) subs_size [OF v(1)] by auto
    ultimately show ?thesis using less.hyps [of v] v(1) w(1) by simp
  qed
qed

lemma trees_disjoint:
  assumes "stored h par p q t" "stored h par p' q' u" "t \<noteq> u"
    and "\<And>a. par = Some a \<Longrightarrow> a \<notin> set (addrs t) \<and> a \<notin> set (addrs u)"
  shows "set (addrs t) \<inter> set (addrs u) = {}"
proof (rule ccontr)
  assume "set (addrs t) \<inter> set (addrs u) \<noteq> {}"
  then obtain s r where s: "s \<in> set (subs t)" "r \<in> set (subs u)" "loc s = loc r" by (auto simp: addrs_subs)
  have "s = r" using subs_stored [OF assms(1) s(1)] subs_stored [OF assms(2) s(2)] s(3) stored_unique by metis
  with shared_below [OF assms(1,2) _ _ s(1)] s(2) assms(3,4) show False by (force simp: addrs_subs)
qed

lemma stored_distinct: "stored h par prv nx t \<Longrightarrow> distinct (addrs t)"
proof (induction t arbitrary: par prv nx)
  case (Shape a k c ts)
  have sib: "siblings h (Some a) None None ts" using Shape.prems by (simp add: stored.simps)
  have each: "distinct (addrs t)" if "t \<in> set ts" for t
    using Shape.IH [OF that] sibling_stored [OF sib that] by blast
  have below: "a \<notin> set (addrs t)" if t: "t \<in> set ts" for t
  proof
    assume "a \<in> set (addrs t)"
    then obtain s where s: "s \<in> set (subs t)" "loc s = a" by (auto simp: addrs_subs)
    obtain x y where "stored h (Some a) x y t" using sibling_stored [OF sib t] by blast
    then obtain p q r where "stored h p q r s" using subs_stored s(1) by blast
    from stored_unique [OF Shape.prems this] s(2) have "s = Shape a k c ts" by simp
    with subs_size [OF s(1)] size_kid [OF t, of a k c] show False by auto
  qed
  have dl: "distinct (map loc ts)" by (rule siblings_distinct [OF sib])
  have "set (addrs t) \<inter> set (addrs u) = {}" if tu: "t \<in> set ts" "u \<in> set ts" "t \<noteq> u" for t u
  proof -
    obtain x y x' y' where st: "stored h (Some a) x y t" "stored h (Some a) x' y' u"
      using sibling_stored [OF sib tu(1)] sibling_stored [OF sib tu(2)] by blast
    show ?thesis by (rule trees_disjoint [OF st tu(3)]) (use below tu in auto)
  qed
  moreover have "distinct (map addrs ts)"
  proof (rule distinct_map [THEN iffD2, OF conjI])
    show "distinct ts" using dl by (simp add: distinct_map)
    show "inj_on addrs (set ts)"
    proof (rule inj_onI)
      fix t u assume tu: "t \<in> set ts" "u \<in> set ts" "addrs t = addrs u"
      have "hd (addrs t) = loc t" "hd (addrs u) = loc u" by (simp_all add: addrs_subs subs_hd)
      with tu(3) have "loc t = loc u" by simp
      with tu(1,2) dl show "t = u" by (auto simp: distinct_map dest: inj_onD)
    qed
  qed
  ultimately have "distinct (concat (map addrs ts))" using each by (intro distinct_concat) auto
  with below show ?case by auto
qed

end
