(* ===== verification/JsonForest.thy ===== *)
theory JsonForest
  imports JsonUnique JsonCheck
begin

text \<open>
  A client of the JSON library: the calls it can make on nodes, what they do to the trees it holds, and the
  proof that the pointer operations of \<open>JsonHeap\<close> do just that to the heap.
\<close>

section \<open>The calls\<close>

datatype call =
    Mknull | Mkbool bool | Mkstring "byte list" | Mknumber double | Mkarray | Mkobject
  | Append_element nat nat | Prepend_element nat nat
  | Append_member nat "byte list" nat | Prepend_member nat "byte list" nat
  | Remove nat | Delete nat

text \<open>The fuel of a deletion is twice the number of addresses ever allocated.\<close>

fun run_call :: "call \<Rightarrow> heap \<Rightarrow> heap option option" where
  "run_call Mknull h = Some (Some (fst (json_mknull h)))"
| "run_call (Mkbool b) h = map_option (Some \<circ> fst) (json_mkbool b h)"
| "run_call (Mkstring p) h = map_option (Some \<circ> fst) (json_mkstring p h)"
| "run_call (Mknumber d) h = map_option (Some \<circ> fst) (json_mknumber d h)"
| "run_call Mkarray h = Some (Some (fst (json_mkarray h)))"
| "run_call Mkobject h = Some (Some (fst (json_mkobject h)))"
| "run_call (Append_element a e) h = json_append_element (Some a) (Some e) h"
| "run_call (Prepend_element a e) h = json_prepend_element (Some a) (Some e) h"
| "run_call (Append_member a k e) h = json_append_member (Some a) k (Some e) h"
| "run_call (Prepend_member a k e) h = json_prepend_member (Some a) k (Some e) h"
| "run_call (Remove a) h = map_option Some (json_remove_from_parent (Some a) h)"
| "run_call (Delete a) h = map_option Some (json_delete (2 * brk h) (Some a) h)"

section \<open>Their effect on trees\<close>

text \<open>The subtree at an address replaced.\<close>

fun update_at :: "nat \<Rightarrow> (shape \<Rightarrow> shape) \<Rightarrow> shape \<Rightarrow> shape" where
  "update_at a f (Shape b k c ts) = (if b = a then f (Shape b k c ts) else Shape b k c (map (update_at a f) ts))"

definition with_kids :: "(shape list \<Rightarrow> shape list) \<Rightarrow> shape \<Rightarrow> shape" where
  "with_kids g t = Shape (loc t) (skey t) (kind t) (g (kids t))"

definition with_key :: "byte list option \<Rightarrow> shape \<Rightarrow> shape" where
  "with_key k t = Shape (loc t) k (kind t) (kids t)"

definition nodes :: "shape list \<Rightarrow> shape list" where
  "nodes F = concat (map subs F)"

definition node_at :: "nat \<Rightarrow> shape list \<Rightarrow> shape option" where
  "node_at a F = find (\<lambda>s. loc s = a) (nodes F)"

definition parent_of :: "nat \<Rightarrow> shape list \<Rightarrow> shape option" where
  "parent_of a F = find (\<lambda>s. a \<in> set (map loc (kids s))) (nodes F)"

definition without :: "nat \<Rightarrow> shape list \<Rightarrow> shape list" where
  "without a F = filter (\<lambda>t. loc t \<noteq> a) F"

text \<open>A root moved below a node of another tree.\<close>

definition attach :: "nat \<Rightarrow> nat \<Rightarrow> (shape \<Rightarrow> shape list \<Rightarrow> shape list) \<Rightarrow> shape list \<Rightarrow> shape list" where
  "attach a e g F = (case node_at e F of None \<Rightarrow> F | Some u \<Rightarrow> map (update_at a (with_kids (g u))) (without e F))"

definition detach :: "nat \<Rightarrow> shape list \<Rightarrow> shape list" where
  "detach a F = (case (parent_of a F, node_at a F) of
     (Some s, Some u) \<Rightarrow> map (update_at (loc s) (with_kids (without a))) F @ [with_key None u]
   | _ \<Rightarrow> F)"

fun apply_call :: "call \<Rightarrow> nat \<Rightarrow> shape list \<Rightarrow> shape list" where
  "apply_call Mknull new F = F @ [Shape new None SNull []]"
| "apply_call (Mkbool b) new F = F @ [Shape new None (SBool b) []]"
| "apply_call (Mkstring p) new F = F @ [Shape new None (SString (the (cstr p))) []]"
| "apply_call (Mknumber d) new F = F @ [Shape new None (SNumber d) []]"
| "apply_call Mkarray new F = F @ [Shape new None SArray []]"
| "apply_call Mkobject new F = F @ [Shape new None SObject []]"
| "apply_call (Append_element a e) new F = attach a e (\<lambda>u ts. ts @ [u]) F"
| "apply_call (Prepend_element a e) new F = attach a e (\<lambda>u ts. u # ts) F"
| "apply_call (Append_member a k e) new F = attach a e (\<lambda>u ts. ts @ [with_key (cstr k) u]) F"
| "apply_call (Prepend_member a k e) new F = attach a e (\<lambda>u ts. with_key (cstr k) u # ts) F"
| "apply_call (Remove a) new F = detach a F"
| "apply_call (Delete a) new F = without a (detach a F)"

text \<open>What the header asks of the caller: a parent of the right kind, a child without a parent that is
  not the tree of the parent itself, and strings in UTF-8.\<close>

definition attachable :: "scalar \<Rightarrow> nat \<Rightarrow> nat \<Rightarrow> shape list \<Rightarrow> bool" where
  "attachable c a e F \<longleftrightarrow> e \<in> set (map loc F) \<and>
    (case node_at a (without e F) of None \<Rightarrow> False | Some s \<Rightarrow> kind s = c)"

definition good_string :: "byte list \<Rightarrow> bool" where
  "good_string p \<longleftrightarrow> (case cstr p of None \<Rightarrow> False | Some s \<Rightarrow> valid_utf8 s)"

fun allowed :: "call \<Rightarrow> shape list \<Rightarrow> bool" where
  "allowed (Mkstring p) F = good_string p"
| "allowed (Append_element a e) F = attachable SArray a e F"
| "allowed (Prepend_element a e) F = attachable SArray a e F"
| "allowed (Append_member a k e) F = (good_string k \<and> attachable SObject a e F)"
| "allowed (Prepend_member a k e) F = (good_string k \<and> attachable SObject a e F)"
| "allowed (Remove a) F = (node_at a F \<noteq> None)"
| "allowed (Delete a) F = (node_at a F \<noteq> None)"
| "allowed _ F = True"

section \<open>A heap of trees\<close>

text \<open>Every live node is in one of the client's trees.\<close>

definition forest :: "heap \<Rightarrow> shape list \<Rightarrow> bool" where
  "forest h F \<longleftrightarrow> list_all (\<lambda>t. stored h None None None t \<and> skey t = None) F \<and> distinct (map loc F) \<and>
    (\<forall>a. cells h a \<noteq> None \<longleftrightarrow> a \<in> set (map loc (nodes F))) \<and> (\<forall>a. cells h a \<noteq> None \<longrightarrow> a < brk h)"

lemma nodes_simps [simp]: "nodes [] = []" "nodes (t # F) = subs t @ nodes F" "nodes (F @ G) = nodes F @ nodes G"
  by (simp_all add: nodes_def)

lemma update_at_loc: "(\<And>t. loc t = a \<Longrightarrow> loc (f t) = a) \<Longrightarrow> loc (update_at a f t) = loc t"
  by (cases t) simp

lemma update_at_skey: "(\<And>t. skey (f t) = skey t) \<Longrightarrow> skey (update_at a f t) = skey t"
  by (cases t) simp

lemma update_at_outside: "a \<notin> set (addrs t) \<Longrightarrow> update_at a f t = t"
  by (induction t) (auto intro: map_idI)

lemma subs_addrs: "s \<in> set (subs t) \<Longrightarrow> set (addrs s) \<subseteq> set (addrs t)"
proof (induction t)
  case (Shape a k c ts)
  show ?case
  proof (cases "s = Shape a k c ts")
    case False
    with Shape.prems obtain t where t: "t \<in> set ts" "s \<in> set (subs t)" by auto
    from Shape.IH [OF this] t(1) show ?thesis by auto
  qed simp
qed

lemma siblings_map:
  assumes "siblings h par prv nx ts" "\<And>t. loc (g t) = loc t"
    and "\<And>t prv nx. t \<in> set ts \<Longrightarrow> stored h par prv nx t \<Longrightarrow> stored h' par prv nx (g t)"
  shows "siblings h' par prv nx (map g ts)"
  using assms(1,3)
proof (induction ts arbitrary: prv)
  case (Cons t ts)
  have "first_or (map g ts) nx = first_or ts nx" by (cases ts) (simp_all add: assms(2))
  with Cons show ?case by (simp add: assms(2))
qed simp

lemma holds_kind_map: "holds_kind n c ts \<Longrightarrow> (\<And>t. loc (g t) = loc t) \<Longrightarrow> holds_kind n c (map g ts)"
  by (cases "ts = []") (auto simp: holds_kind_def first_or_def last_or_def hd_map last_map)

lemma stored_update:
  assumes "stored h par prv nx t" "s \<in> set (subs t)" "\<And>t. loc t = loc s \<Longrightarrow> loc (f t) = loc s"
    and "\<And>par prv nx. stored h par prv nx s \<Longrightarrow> stored h' par prv nx (f s)"
    and "\<And>x. x \<in> set (addrs t) \<Longrightarrow> x \<notin> set (addrs s) \<Longrightarrow> cells h' x = cells h x"
  shows "stored h' par prv nx (update_at (loc s) f t)"
  using assms(1,2,5)
proof (induction t arbitrary: par prv nx)
  case (Shape a k c ts)
  show ?case
  proof (cases "a = loc s")
    case True
    then have "Shape a k c ts = s" using subs_stored [OF Shape.prems(1,2)] stored_unique Shape.prems(1) by (metis shape.sel(1))
    with True assms(4) Shape.prems(1) show ?thesis by (cases s) auto
  next
    case False
    obtain n where n: "cells h a = Some n" "linked n par prv nx k" "holds_kind n c ts" "siblings h (Some a) None None ts"
      using Shape.prems(1) by (auto simp: stored.simps split: option.splits)
    have d: "distinct (addrs (Shape a k c ts))" by (rule stored_distinct [OF Shape.prems(1)])
    obtain t0 where t0: "t0 \<in> set ts" "s \<in> set (subs t0)" using Shape.prems(2) False by auto
    have sub: "set (addrs s) \<subseteq> set (addrs t0)" by (rule subs_addrs [OF t0(2)])
    have locs: "loc (update_at (loc s) f t) = loc t" for t using assms(3) by (rule update_at_loc)
    have "siblings h' (Some a) None None (map (update_at (loc s) f) ts)"
    proof (rule siblings_map [OF n(4) locs])
      fix t prv nx assume t: "t \<in> set ts" "stored h (Some a) prv nx t"
      show "stored h' (Some a) prv nx (update_at (loc s) f t)"
      proof (cases "s \<in> set (subs t)")
        case True
        show ?thesis by (rule Shape.IH [OF t True]) (use Shape.prems(3) t(1) in auto)
      next
        case False
        with t0 have "t \<noteq> t0" by blast
        obtain x y where st: "stored h (Some a) x y t0" using sibling_stored [OF n(4) t0(1)] by blast
        have "set (addrs t) \<inter> set (addrs t0) = {}"
          by (rule trees_disjoint [OF t(2) st \<open>t \<noteq> t0\<close>]) (use d t(1) t0(1) in auto)
        then have out: "x \<notin> set (addrs s)" if "x \<in> set (addrs t)" for x using sub that by blast
        have "loc s \<notin> set (addrs t)" using out loc_in by blast
        moreover have "stored h' (Some a) prv nx t"
          using t out Shape.prems(3) by (subst stored_frame(1) [where h = h]) auto
        ultimately show ?thesis by (simp add: update_at_outside)
      qed
    qed
    moreover have "a \<notin> set (addrs s)" using sub d t0(1) by auto
    then have "cells h' a = Some n" using n(1) Shape.prems(3) by simp
    ultimately show ?thesis using False n(2) holds_kind_map [OF n(3) locs] by (simp add: stored.simps)
  qed
qed

section \<open>The trees of a forest\<close>

definition trees :: "heap \<Rightarrow> shape list \<Rightarrow> bool" where
  "trees h F \<longleftrightarrow> (\<forall>t \<in> set F. stored h None None None t \<and> skey t = None) \<and> distinct (map loc F)"

definition space :: "shape list \<Rightarrow> nat set" where
  "space F = (\<Union>t \<in> set F. set (addrs t))"

lemma space_simps [simp]: "space [] = {}" "space (t # F) = set (addrs t) \<union> space F" "space (F @ G) = space F \<union> space G"
  by (auto simp: space_def)

lemma space_nodes: "set (map loc (nodes F)) = space F"
  by (induction F) (simp_all add: addrs_subs)

lemma forest_iff:
  "forest h F \<longleftrightarrow> trees h F \<and> (\<forall>a. cells h a \<noteq> None \<longleftrightarrow> a \<in> space F) \<and> (\<forall>a \<in> space F. a < brk h)"
  unfolding forest_def trees_def list_all_iff space_nodes by blast

lemma union_update:
  assumes "t0 \<in> T" "\<And>t. t \<in> T \<Longrightarrow> A' t = (if t = t0 then A t0 - S \<union> N else A t)"
    and "\<And>t. t \<in> T \<Longrightarrow> t \<noteq> t0 \<Longrightarrow> A t \<inter> S = {}"
  shows "(\<Union>t \<in> T. A' t) = (\<Union>t \<in> T. A t) - S \<union> N"
proof -
  have set_eq: "Q \<inter> S = {} \<Longrightarrow> (P - S \<union> N) \<union> Q = (P \<union> Q) - S \<union> N" for P Q by blast
  have T: "T = insert t0 (T - {t0})" using assms(1) by blast
  have "(\<Union>t \<in> T - {t0}. A' t) = (\<Union>t \<in> T - {t0}. A t)" using assms(2) by simp
  moreover have "(\<Union>t \<in> T - {t0}. A t) \<inter> S = {}" using assms(3) by blast
  moreover have "A' t0 = A t0 - S \<union> N" using assms(1,2) by simp
  ultimately have "A' t0 \<union> (\<Union>t \<in> T - {t0}. A' t) = (A t0 \<union> (\<Union>t \<in> T - {t0}. A t)) - S \<union> N"
    using set_eq by simp
  then have "(\<Union>t \<in> insert t0 (T - {t0}). A' t) = (\<Union>t \<in> insert t0 (T - {t0}). A t) - S \<union> N" by (simp only: UN_insert)
  then show ?thesis by (simp only: T [symmetric])
qed

lemma addrs_update:
  "stored h par prv nx t \<Longrightarrow> s \<in> set (subs t) \<Longrightarrow>
    set (addrs (update_at (loc s) f t)) = set (addrs t) - set (addrs s) \<union> set (addrs (f s))"
proof (induction t arbitrary: par prv nx)
  case (Shape a k c ts)
  show ?case
  proof (cases "a = loc s")
    case True
    then have "Shape a k c ts = s" using subs_stored [OF Shape.prems] stored_unique Shape.prems(1) by (metis shape.sel(1))
    with True show ?thesis by (cases s) auto
  next
    case False
    have sib: "siblings h (Some a) None None ts" using Shape.prems(1) by (simp add: stored.simps)
    have d: "distinct (addrs (Shape a k c ts))" by (rule stored_distinct [OF Shape.prems(1)])
    obtain t0 where t0: "t0 \<in> set ts" "s \<in> set (subs t0)" using Shape.prems(2) False by auto
    obtain x y where st0: "stored h (Some a) x y t0" using sibling_stored [OF sib t0(1)] by blast
    have sub: "set (addrs s) \<subseteq> set (addrs t0)" by (rule subs_addrs [OF t0(2)])
    have na: "a \<notin> set (addrs s)" using sub d t0(1) by auto
    have each: "set (addrs (update_at (loc s) f t)) = (if t = t0 then set (addrs t0) - set (addrs s) \<union> set (addrs (f s)) else set (addrs t))"
      and apart: "t \<noteq> t0 \<Longrightarrow> set (addrs t) \<inter> set (addrs s) = {}" if t: "t \<in> set ts" for t
    proof -
      obtain x' y' where st: "stored h (Some a) x' y' t" using sibling_stored [OF sib t] by blast
      have "set (addrs t) \<inter> set (addrs t0) = {}" if "t \<noteq> t0"
        by (rule trees_disjoint [OF st st0 that]) (use d t t0(1) in auto)
      then show "t \<noteq> t0 \<Longrightarrow> set (addrs t) \<inter> set (addrs s) = {}" using sub by blast
      then have "t \<noteq> t0 \<Longrightarrow> update_at (loc s) f t = t" using loc_in [of s] by (intro update_at_outside) blast
      with Shape.IH [OF t0(1) st0 t0(2)]
      show "set (addrs (update_at (loc s) f t)) = (if t = t0 then set (addrs t0) - set (addrs s) \<union> set (addrs (f s)) else set (addrs t))"
        by simp
    qed
    have "(\<Union>t \<in> set ts. set (addrs (update_at (loc s) f t))) = (\<Union>t \<in> set ts. set (addrs t)) - set (addrs s) \<union> set (addrs (f s))"
      by (rule union_update [OF t0(1) each apart])
    with False na show ?thesis by auto
  qed
qed

lemma nodes_in: "s \<in> set (nodes F) \<longleftrightarrow> (\<exists>t \<in> set F. s \<in> set (subs t))"
  by (simp add: nodes_def)

lemma trees_stored: "trees h F \<Longrightarrow> t \<in> set F \<Longrightarrow> stored h None None None t"
  by (simp add: trees_def)

lemma nodes_stored: "trees h F \<Longrightarrow> s \<in> set (nodes F) \<Longrightarrow> \<exists>par prv nx. stored h par prv nx s"
  using subs_stored trees_stored by (metis nodes_in)

lemma nodes_space: "s \<in> set (nodes F) \<Longrightarrow> set (addrs s) \<subseteq> space F"
  using subs_addrs by (force simp: nodes_in space_def)

lemma nodes_unique: "trees h F \<Longrightarrow> s \<in> set (nodes F) \<Longrightarrow> s' \<in> set (nodes F) \<Longrightarrow> loc s = loc s' \<Longrightarrow> s = s'"
  using nodes_stored stored_unique by metis

lemma node_at_iff:
  assumes "trees h F"
  shows "node_at a F = Some s \<longleftrightarrow> s \<in> set (nodes F) \<and> loc s = a"
proof
  assume "node_at a F = Some s"
  then show "s \<in> set (nodes F) \<and> loc s = a" by (auto simp: node_at_def find_Some_iff)
next
  assume s: "s \<in> set (nodes F) \<and> loc s = a"
  then obtain s' where s': "node_at a F = Some s'"
    unfolding node_at_def by (cases "find (\<lambda>s. loc s = a) (nodes F)") (auto simp: find_None_iff)
  then have "s' \<in> set (nodes F)" "loc s' = a" by (auto simp: node_at_def find_Some_iff)
  with s s' nodes_unique [OF assms] show "node_at a F = Some s" by blast
qed

lemma node_at_root: "trees h F \<Longrightarrow> u \<in> set F \<Longrightarrow> node_at (loc u) F = Some u"
  using subs_self by (auto simp: node_at_iff nodes_in)

lemma roots_disjoint: "trees h F \<Longrightarrow> t \<in> set F \<Longrightarrow> u \<in> set F \<Longrightarrow> t \<noteq> u \<Longrightarrow> set (addrs t) \<inter> set (addrs u) = {}"
  using trees_stored by (intro trees_disjoint) auto

lemma trees_without: "trees h F \<Longrightarrow> trees h (without e F)"
  by (auto simp: trees_def without_def distinct_map inj_on_def)

lemma space_without:
  assumes "trees h F" "u \<in> set F"
  shows "space (without (loc u) F) = space F - set (addrs u)"
proof -
  have "t = u" if "t \<in> set F" "loc t = loc u" for t
    using assms that by (auto simp: trees_def distinct_map dest: inj_onD)
  then have "set (without (loc u) F) = set F - {u}" by (auto simp: without_def)
  with roots_disjoint [OF assms(1)] assms(2) show ?thesis unfolding space_def by blast
qed

lemma trees_update:
  assumes "trees h F" "s \<in> set (nodes F)" "\<And>t. loc t = loc s \<Longrightarrow> loc (f t) = loc s" "\<And>t. skey (f t) = skey t"
    and "\<And>par prv nx. stored h par prv nx s \<Longrightarrow> stored h' par prv nx (f s)"
    and "\<And>x. x \<in> space F \<Longrightarrow> x \<notin> set (addrs s) \<Longrightarrow> cells h' x = cells h x"
  shows "trees h' (map (update_at (loc s) f) F) \<and>
    space (map (update_at (loc s) f) F) = space F - set (addrs s) \<union> set (addrs (f s))"
proof -
  obtain t0 where t0: "t0 \<in> set F" "s \<in> set (subs t0)" using assms(2) by (auto simp: nodes_in)
  have sub: "set (addrs s) \<subseteq> set (addrs t0)" by (rule subs_addrs [OF t0(2)])
  have apart: "set (addrs t) \<inter> set (addrs s) = {}" "update_at (loc s) f t = t" if "t \<in> set F" "t \<noteq> t0" for t
  proof -
    show "set (addrs t) \<inter> set (addrs s) = {}" using roots_disjoint [OF assms(1) that(1) t0(1) that(2)] sub by blast
    then show "update_at (loc s) f t = t" using loc_in [of s] by (intro update_at_outside) blast
  qed
  have new: "set (addrs (update_at (loc s) f t0)) = set (addrs t0) - set (addrs s) \<union> set (addrs (f s))"
    by (rule addrs_update [OF trees_stored [OF assms(1) t0(1)] t0(2)])
  have st: "stored h' None None None (update_at (loc s) f t)" if t: "t \<in> set F" for t
  proof (cases "t = t0")
    case True
    show ?thesis unfolding True
      by (rule stored_update [where f = f, OF trees_stored [OF assms(1) t0(1)] t0(2) assms(3,5)])
        (use assms(6) t0(1) in \<open>auto simp: space_def\<close>)
  next
    case False
    have "stored h' None None None t"
      using trees_stored [OF assms(1) t] assms(6) apart(1) [OF t False] t
      by (subst stored_frame(1) [where h = h]) (auto simp: space_def)
    with apart(2) [OF t False] show ?thesis by simp
  qed
  have "map loc (map (update_at (loc s) f) F) = map loc F" using assms(3) by (simp add: update_at_loc)
  then have 1: "trees h' (map (update_at (loc s) f) F)"
    using assms(1,4) st by (simp add: trees_def update_at_skey del: map_map)
  have "space (map (update_at (loc s) f) F) = (\<Union>t \<in> set F. set (addrs (update_at (loc s) f t)))"
    by (simp add: space_def)
  also have "\<dots> = space F - set (addrs s) \<union> set (addrs (f s))"
    unfolding space_def by (rule union_update [OF t0(1) _ apart(1)]) (use new apart(2) in auto)
  finally show ?thesis using 1 by blast
qed

section \<open>Attaching\<close>

lemma stored_alive: "stored h par prv nx t \<Longrightarrow> x \<in> set (addrs t) \<Longrightarrow> cells h x \<noteq> None"
  using subs_stored stored_node by (fastforce simp: addrs_subs)

lemma with_kids_simps [simp]:
  "loc (with_kids g t) = loc t" "skey (with_kids g t) = skey t" "kind (with_kids g t) = kind t" "kids (with_kids g t) = g (kids t)"
  "loc (with_key k t) = loc t" "skey (with_key k t) = k" "kind (with_key k t) = kind t" "kids (with_key k t) = kids t"
  "addrs (with_key k t) = addrs t"
  by (cases t; simp add: with_kids_def with_key_def)+

lemma addrs_shape: "set (addrs t) = insert (loc t) (space (kids t))"
  by (cases t) (simp add: space_def)

lemma trees_alive: "trees h F \<Longrightarrow> x \<in> space F \<Longrightarrow> cells h x \<noteq> None"
  unfolding trees_def space_def using stored_alive by blast

lemma forest_attach:
  assumes "forest h F" "u \<in> set F" "s \<in> set (nodes (without (loc u) F))"
    and "\<And>par prv nx. stored h par prv nx s \<Longrightarrow> stored h' par prv nx (with_kids (g u) s)"
    and "same_outside h h' (set (addrs s) \<union> {loc u})" "brk h' = brk h"
    and "space (g u (kids s)) = space (kids s) \<union> set (addrs u)"
  shows "forest h' (attach (loc s) (loc u) g F)"
proof -
  let ?G = "without (loc u) F" and ?f = "with_kids (g u)"
  let ?G' = "map (update_at (loc s) ?f) ?G"
  have T: "trees h F" and live: "\<And>a. cells h a \<noteq> None \<longleftrightarrow> a \<in> space F" and low: "\<And>a. a \<in> space F \<Longrightarrow> a < brk h"
    using assms(1) by (simp_all add: forest_iff)
  have sG: "space ?G = space F - set (addrs u)" by (rule space_without [OF T assms(2)])
  have s: "set (addrs s) \<subseteq> space ?G" by (rule nodes_space [OF assms(3)])
  have "trees h' ?G' \<and> space ?G' = space ?G - set (addrs s) \<union> set (addrs (?f s))"
  proof (rule trees_update [OF trees_without [OF T] assms(3)])
    fix x assume "x \<in> space ?G" "x \<notin> set (addrs s)"
    moreover from this have "x \<noteq> loc u" using sG loc_in [of u] by auto
    ultimately show "cells h' x = cells h x" using assms(5) by (simp add: same_outside_def)
  qed (simp_all add: assms(4))
  moreover have "set (addrs (?f s)) = set (addrs s) \<union> set (addrs u)" by (auto simp: addrs_shape assms(7))
  ultimately have G': "trees h' ?G'" "space ?G' = space F"
    using s sG nodes_space [of u F] assms(2) by (auto simp: space_def)
  have "cells h' x \<noteq> None \<longleftrightarrow> x \<in> space F" for x
  proof
    assume "x \<in> space F"
    then show "cells h' x \<noteq> None" using trees_alive [OF G'(1)] G'(2) by blast
  next
    assume x: "cells h' x \<noteq> None"
    show "x \<in> space F"
    proof (rule ccontr)
      assume n: "x \<notin> space F"
      then have "x \<notin> set (addrs s) \<union> {loc u}" using s sG assms(2) loc_in [of u] by (auto simp: space_def)
      with assms(5) have "cells h' x = cells h x" by (simp add: same_outside_def)
      with x n live show False by simp
    qed
  qed
  with G' low assms(6) have "forest h' ?G'" by (simp add: forest_iff)
  with node_at_root [OF T assms(2)] show ?thesis by (simp add: attach_def)
qed

text \<open>The two nodes of an allowed call.\<close>

lemma attachable_nodes:
  assumes "forest h F" "attachable c a e F"
  obtains u s n m where "u \<in> set F" "loc u = e" "s \<in> set (nodes (without e F))" "loc s = a" "kind s = c"
    "root h s n" "root h u m" "parent m = None" "node_key m = None" "distinct (addrs s @ addrs u)"
proof -
  have T: "trees h F" using assms(1) by (simp add: forest_iff)
  from assms(2) obtain u s where u: "u \<in> set F" "loc u = e" and s: "node_at a (without e F) = Some s" "kind s = c"
    by (auto simp: attachable_def split: option.splits)
  have sn: "s \<in> set (nodes (without e F))" "loc s = a" using s(1) node_at_iff [OF trees_without [OF T]] by auto
  obtain par prv nx where ss: "stored h par prv nx s" using nodes_stored [OF trees_without [OF T] sn(1)] by blast
  then obtain n where n: "root h s n" by (auto simp: stored_root)
  have us: "stored h None None None u" "skey u = None" using T u(1) by (simp_all add: trees_def)
  then obtain m where m: "root h u m" "parent m = None" "node_key m = None" by (auto simp: stored_root linked_def)
  have "set (addrs s) \<inter> set (addrs u) = {}" using nodes_space [OF sn(1)] space_without [OF T u(1)] u(2) by auto
  then have "distinct (addrs s @ addrs u)" using stored_distinct [OF ss] stored_distinct [OF us(1)] by simp
  with that u sn s(2) n m show ?thesis by blast
qed

lemma root_linked: "stored h par prv nx s \<Longrightarrow> root h s n \<Longrightarrow> linked n par prv nx (skey s)"
  by (auto simp: stored_root root_def)

lemma asserts_ok:
  assumes "root h s n" "root h u m" "parent m = None"
  shows "asserts (kind_tag (kind s)) (Some (loc s)) (Some (loc u)) h = Some True"
  using assms by (simp add: asserts_def root_def cell_def holds_kind_def)

lemma root_frame:
  assumes "root h t n" "cells h' (loc t) = Some n'" "holds_kind n' (kind t) (kids t)"
    and "\<And>x. x \<in> space (kids t) \<Longrightarrow> cells h' x = cells h x"
  shows "root h' t n'"
proof -
  have "siblings h (Some (loc t)) None None (kids t)" using assms(1) by (simp add: root_def)
  then have "siblings h' (Some (loc t)) None None (kids t)"
    by (rule siblings_keep) (use assms(4) in \<open>simp add: space_def\<close>)
  with assms(2,3) show ?thesis by (simp add: root_def)
qed

lemma distinct_root: "distinct (addrs t) \<Longrightarrow> loc t \<notin> space (kids t)"
  by (cases t) (simp add: space_def)

lemma root_update:
  assumes "root h t n" "distinct (addrs t)" "cells h' (loc t) = Some n'" "holds_kind n' (kind t) (kids t)"
    and "\<And>x. x \<in> set (addrs t) \<Longrightarrow> x \<noteq> loc t \<Longrightarrow> cells h' x = cells h x"
  shows "root h' t n'"
  by (rule root_frame [OF assms(1,3,4)], rule assms(5)) (use distinct_root [OF assms(2)] in \<open>auto simp: addrs_shape\<close>)

text \<open>Appending and prepending: one contract.\<close>

locale child_link =
  fixes link :: "ptr \<Rightarrow> ptr \<Rightarrow> heap \<Rightarrow> heap option" and place :: "shape \<Rightarrow> shape list \<Rightarrow> shape list"
  assumes link_ok: "root h s n \<Longrightarrow> container (kind s) \<Longrightarrow> root h u m \<Longrightarrow> distinct (addrs s @ addrs u) \<Longrightarrow>
      \<exists>h'. link (Some (loc s)) (Some (loc u)) h = Some h' \<and>
        (\<forall>par prv nx. linked n par prv nx (skey s) \<longrightarrow> stored h' par prv nx (with_kids (place (with_key (node_key m) u)) s)) \<and>
        same_outside h h' (set (addrs s) \<union> {loc u}) \<and> brk h' = brk h"
    and place_set: "set (place u ts) = insert u (set ts)"
begin

text \<open>The child has its key already.\<close>

lemma link_forest:
  assumes "forest h F" "u \<in> set F" "s \<in> set (nodes (without (loc u) F))" "container (kind s)"
    and "root h s n" "root h u m" "distinct (addrs s @ addrs u)"
    and "h1 = h\<lparr>cells := (cells h)(loc u \<mapsto> m\<lparr>node_key := k\<rparr>)\<rparr>"
  shows "\<exists>h'. link (Some (loc s)) (Some (loc u)) h1 = Some h' \<and>
    forest h' (attach (loc s) (loc u) (\<lambda>u. place (with_key k u)) F) \<and> brk h' = brk h"
proof -
  have lu: "loc u \<notin> set (addrs s)" using assms(7) loc_in [of u] by auto
  have kinds: "holds_kind m (kind u) (kids u)" "holds_kind n (kind s) (kids s)" "cells h (loc s) = Some n"
    using assms(5,6) by (simp_all add: root_def)
  have u1: "root h1 u (m\<lparr>node_key := k\<rparr>)"
    by (rule root_update [OF assms(6)]) (use assms(7,8) kinds(1) in simp_all)
  have sl: "x \<noteq> loc u" if "x \<in> set (addrs s)" for x using lu that by blast
  have s1: "root h1 s n"
    by (rule root_update [OF assms(5)]) (use assms(7,8) kinds(2,3) sl [OF loc_in] sl in simp_all)
  from link_ok [OF s1 assms(4) u1 assms(7)] obtain h'
    where h': "link (Some (loc s)) (Some (loc u)) h1 = Some h'" "same_outside h1 h' (set (addrs s) \<union> {loc u})" "brk h' = brk h1"
      "\<And>par prv nx. linked n par prv nx (skey s) \<Longrightarrow> stored h' par prv nx (with_kids (place (with_key k u)) s)"
    by auto
  have "forest h' (attach (loc s) (loc u) (\<lambda>u. place (with_key k u)) F)"
  proof (rule forest_attach [OF assms(1-3)])
    show "same_outside h h' (set (addrs s) \<union> {loc u})" using h'(2) assms(8) by (auto simp: same_outside_def)
    show "brk h' = brk h" using h'(3) assms(8) by simp
    show "space (place (with_key k u) (kids s)) = space (kids s) \<union> set (addrs u)" by (simp add: space_def place_set Un_commute)
  qed (simp add: h'(4) root_linked [OF _ assms(5)])
  with h'(1,3) assms(8) show ?thesis by simp
qed

end

lemma child_same: "Shape (loc u) k (kind u) (kids u) = with_key k u" "Shape (loc s) (skey s) (kind s) (g (kids s)) = with_kids g s"
  by (simp_all add: with_key_def with_kids_def)

interpretation at_end: child_link append_node "\<lambda>u ts. ts @ [u]"
  by unfold_locales (use append_node_ok in \<open>simp_all add: with_key_def with_kids_def\<close>)

interpretation at_front: child_link prepend_node "\<lambda>u ts. u # ts"
  by unfold_locales (use prepend_node_ok in \<open>simp_all add: with_key_def with_kids_def\<close>)

lemma attach_key:
  assumes "forest h F" "attachable c a e F"
  shows "attach a e (\<lambda>u. g (with_key None u)) F = attach a e g F"
proof -
  have T: "trees h F" using assms(1) by (simp add: forest_iff)
  obtain u where u: "u \<in> set F" "loc u = e" using assms(2) by (auto simp: attachable_def)
  moreover have "with_key None u = u" using T u(1) by (cases u) (auto simp: trees_def with_key_def)
  ultimately show ?thesis using node_at_root [OF T u(1)] by (simp add: attach_def)
qed

text \<open>The exported operations: the assertions hold, and the child is in its place.\<close>

lemma key_unchanged: "root h u m \<Longrightarrow> node_key m = k \<Longrightarrow> h = h\<lparr>cells := (cells h)(loc u \<mapsto> m\<lparr>node_key := k\<rparr>)\<rparr>"
  by (auto simp: root_def fun_upd_idem)

lemma append_element_forest:
  assumes "forest h F" "attachable SArray a e F"
  shows "\<exists>h'. run_call (Append_element a e) h = Some (Some h') \<and> forest h' (apply_call (Append_element a e) new F) \<and> brk h' = brk h"
proof (rule attachable_nodes [OF assms])
  fix u s n m
  assume us: "u \<in> set F" "loc u = e" "s \<in> set (nodes (without e F))" "loc s = a" "kind s = SArray"
    "root h s n" "root h u m" "parent m = None" "node_key m = None" "distinct (addrs s @ addrs u)"
  have "container (kind s)" using us(5) by (simp add: container_def)
  from at_end.link_forest [OF assms(1) us(1) us(3) [folded us(2)] this us(6,7,10) key_unchanged [OF us(7,9)]]
    asserts_ok [OF us(6-8)] attach_key [OF assms, of "\<lambda>u ts. ts @ [u]"] us(2,4,5)
  show ?thesis by (auto simp: json_append_element_def)
qed

lemma prepend_element_forest:
  assumes "forest h F" "attachable SArray a e F"
  shows "\<exists>h'. run_call (Prepend_element a e) h = Some (Some h') \<and> forest h' (apply_call (Prepend_element a e) new F) \<and> brk h' = brk h"
proof (rule attachable_nodes [OF assms])
  fix u s n m
  assume us: "u \<in> set F" "loc u = e" "s \<in> set (nodes (without e F))" "loc s = a" "kind s = SArray"
    "root h s n" "root h u m" "parent m = None" "node_key m = None" "distinct (addrs s @ addrs u)"
  have "container (kind s)" using us(5) by (simp add: container_def)
  from at_front.link_forest [OF assms(1) us(1) us(3) [folded us(2)] this us(6,7,10) key_unchanged [OF us(7,9)]]
    asserts_ok [OF us(6-8)] attach_key [OF assms, of "\<lambda>u ts. u # ts"] us(2,4,5)
  show ?thesis by (auto simp: json_prepend_element_def)
qed

lemma append_member_forest:
  assumes "forest h F" "attachable SObject a e F" "cstr p = Some k"
  shows "\<exists>h'. run_call (Append_member a p e) h = Some (Some h') \<and> forest h' (apply_call (Append_member a p e) new F) \<and> brk h' = brk h"
proof (rule attachable_nodes [OF assms(1,2)])
  fix u s n m
  assume us: "u \<in> set F" "loc u = e" "s \<in> set (nodes (without e F))" "loc s = a" "kind s = SObject"
    "root h s n" "root h u m" "parent m = None" "node_key m = None" "distinct (addrs s @ addrs u)"
  have "container (kind s)" using us(5) by (simp add: container_def)
  from at_end.link_forest [OF assms(1) us(1) us(3) [folded us(2)] this us(6,7,10) refl, of "Some k"]
    asserts_ok [OF us(6-8)] us(2,4,5,7) assms(3)
  show ?thesis by (auto simp: json_append_member_def append_member_def modify_def root_def)
qed

lemma prepend_member_forest:
  assumes "forest h F" "attachable SObject a e F" "cstr p = Some k"
  shows "\<exists>h'. run_call (Prepend_member a p e) h = Some (Some h') \<and> forest h' (apply_call (Prepend_member a p e) new F) \<and> brk h' = brk h"
proof (rule attachable_nodes [OF assms(1,2)])
  fix u s n m
  assume us: "u \<in> set F" "loc u = e" "s \<in> set (nodes (without e F))" "loc s = a" "kind s = SObject"
    "root h s n" "root h u m" "parent m = None" "node_key m = None" "distinct (addrs s @ addrs u)"
  have "container (kind s)" using us(5) by (simp add: container_def)
  from at_front.link_forest [OF assms(1) us(1) us(3) [folded us(2)] this us(6,7,10) refl, of "Some k"]
    asserts_ok [OF us(6-8)] us(2,4,5,7) assms(3)
  show ?thesis by (auto simp: json_prepend_member_def modify_def root_def)
qed

section \<open>Creating nodes\<close>

lemma forest_new:
  assumes "forest h F" "cells h' = (cells h)(brk h \<mapsto> n)" "brk h' = Suc (brk h)"
    and "linked n None None None None" "holds_kind n c []"
  shows "forest h' (F @ [Shape (brk h) None c []])"
proof -
  have T: "trees h F" and live: "\<And>a. cells h a \<noteq> None \<longleftrightarrow> a \<in> space F" and low: "\<And>a. a \<in> space F \<Longrightarrow> a < brk h"
    using assms(1) by (simp_all add: forest_iff)
  have "stored h' None None None t" if "t \<in> set F" for t
  proof (subst stored_frame(1) [where h = h])
    show "stored h None None None t" by (rule trees_stored [OF T that])
    fix x assume "x \<in> set (addrs t)"
    with that have "x < brk h" by (intro low) (auto simp: space_def)
    then show "cells h' x = cells h x" by (simp add: assms(2))
  qed
  moreover have "stored h' None None None (Shape (brk h) None c [])"
    using assms(2,4,5) by (simp add: stored.simps)
  moreover have "brk h \<notin> loc ` set F" using low loc_in by (fastforce simp: space_def)
  ultimately have "trees h' (F @ [Shape (brk h) None c []])" using T by (auto simp: trees_def)
  moreover have "cells h' a \<noteq> None \<longleftrightarrow> a \<in> space (F @ [Shape (brk h) None c []])" for a
    using live [of a] by (auto simp: assms(2))
  moreover have "a < brk h'" if "a \<in> space (F @ [Shape (brk h) None c []])" for a
    using that low [of a] assms(3) by auto
  ultimately show ?thesis by (simp add: forest_iff)
qed

lemmas mk_defs = json_mknull_def json_mkbool_def json_mkstring_def mkstring_def json_mknumber_def json_mkarray_def json_mkobject_def
  mknode_def modify_def zero_node_def

lemma mknull_forest: "forest h F \<Longrightarrow> \<exists>h'. run_call Mknull h = Some (Some h') \<and> forest h' (apply_call Mknull (brk h) F)"
  by (force simp: mk_defs linked_def holds_kind_def container_def intro: forest_new)

lemma mkbool_forest: "forest h F \<Longrightarrow> \<exists>h'. run_call (Mkbool b) h = Some (Some h') \<and> forest h' (apply_call (Mkbool b) (brk h) F)"
  by (force simp: mk_defs linked_def holds_kind_def container_def intro: forest_new)

lemma mkstring_forest:
  "forest h F \<Longrightarrow> cstr p = Some s \<Longrightarrow> \<exists>h'. run_call (Mkstring p) h = Some (Some h') \<and> forest h' (apply_call (Mkstring p) (brk h) F)"
  by (force simp: mk_defs linked_def holds_kind_def container_def intro: forest_new)

lemma mknumber_forest: "forest h F \<Longrightarrow> \<exists>h'. run_call (Mknumber d) h = Some (Some h') \<and> forest h' (apply_call (Mknumber d) (brk h) F)"
  by (force simp: mk_defs linked_def holds_kind_def container_def intro: forest_new)

lemma mkarray_forest: "forest h F \<Longrightarrow> \<exists>h'. run_call Mkarray h = Some (Some h') \<and> forest h' (apply_call Mkarray (brk h) F)"
  by (force simp: mk_defs linked_def holds_kind_def container_def intro: forest_new)

lemma mkobject_forest: "forest h F \<Longrightarrow> \<exists>h'. run_call Mkobject h = Some (Some h') \<and> forest h' (apply_call Mkobject (brk h) F)"
  by (force simp: mk_defs linked_def holds_kind_def container_def intro: forest_new)

section \<open>Removing and deleting\<close>

lemma forest_keep:
  assumes "forest h F" "trees h' F'" "space F' = space F" "same_outside h h' (space F)" "brk h' = brk h"
  shows "forest h' F'"
proof -
  have live: "\<And>a. cells h a \<noteq> None \<longleftrightarrow> a \<in> space F" and low: "\<And>a. a \<in> space F \<Longrightarrow> a < brk h"
    using assms(1) by (simp_all add: forest_iff)
  have "cells h' x \<noteq> None \<longleftrightarrow> x \<in> space F" for x
    using trees_alive [OF assms(2)] assms(3,4) live [of x] by (cases "x \<in> space F") (auto simp: same_outside_def)
  with assms(2,3,5) low show ?thesis by (simp add: forest_iff)
qed

lemma kid_of: "s \<in> set (subs t) \<Longrightarrow> s \<noteq> t \<Longrightarrow> \<exists>w \<in> set (subs t). s \<in> set (kids w)"
proof (induction t)
  case (Shape a k c ts)
  then obtain t where t: "t \<in> set ts" "s \<in> set (subs t)" by auto
  show ?case
  proof (cases "s = t")
    case True
    with t(1) show ?thesis by auto
  next
    case False
    with Shape.IH [OF t] t(1) show ?thesis by auto
  qed
qed

lemma kid_in: "u \<in> set (kids w) \<Longrightarrow> u \<in> set (subs w)"
  using subs_self [of u] by (cases w) auto

lemma subs_trans: "s \<in> set (subs t) \<Longrightarrow> u \<in> set (subs s) \<Longrightarrow> u \<in> set (subs t)"
  by (induction t) auto

lemma nodes_kid: "w \<in> set (nodes F) \<Longrightarrow> u \<in> set (kids w) \<Longrightarrow> u \<in> set (nodes F)"
  using kid_in subs_trans by (metis nodes_in)

lemma kid_stored:
  assumes "stored h par prv nx w" "u \<in> set (kids w)"
  shows "\<exists>prv nx. stored h (Some (loc w)) prv nx u"
  using assms sibling_stored by (fastforce simp: stored_root root_def)

lemma parent_of_Some: "parent_of a F = Some w \<Longrightarrow> w \<in> set (nodes F) \<and> (\<exists>u \<in> set (kids w). loc u = a)"
  by (auto simp: parent_of_def find_Some_iff)

lemma parent_of_None:
  assumes "parent_of a F = None" "s \<in> set (nodes F)" "loc s = a"
  shows "s \<in> set F"
proof (rule ccontr)
  assume n: "s \<notin> set F"
  obtain t where t: "t \<in> set F" "s \<in> set (subs t)" using assms(2) by (auto simp: nodes_in)
  with n kid_of [OF t(2)] obtain w where "w \<in> set (subs t)" "s \<in> set (kids w)" by metis
  with assms(1,3) t(1) show False by (auto simp: parent_of_def find_None_iff nodes_in)
qed

lemma remove_root: "stored h None prv nx u \<Longrightarrow> json_remove_from_parent (Some (loc u)) h = Some h"
  by (auto simp: json_remove_from_parent_def cell_def stored_root root_def linked_def)

lemma without_kid:
  assumes "distinct (map loc (xs @ u # ys))"
  shows "without (loc u) (xs @ u # ys) = xs @ ys"
proof -
  have "filter (\<lambda>t. loc t \<noteq> loc u) xs = xs" "filter (\<lambda>t. loc t \<noteq> loc u) ys = ys"
    using assms by (auto simp: filter_id_conv image_iff)
  then show ?thesis by (simp add: without_def)
qed

lemma detach_ok:
  assumes "forest h F" "node_at a F = Some u"
  shows "\<exists>h'. json_remove_from_parent (Some a) h = Some h' \<and> forest h' (detach a F) \<and> brk h' = brk h \<and>
    with_key None u \<in> set (detach a F)"
proof -
  have T: "trees h F" using assms(1) by (simp add: forest_iff)
  have u: "u \<in> set (nodes F)" "loc u = a" using assms(2) node_at_iff [OF T] by auto
  show ?thesis
  proof (cases "parent_of a F")
    case None
    from parent_of_None [OF this u] have "u \<in> set F" .
    moreover from this have "stored h None None None u" "with_key None u = u"
      using T by (auto simp: trees_def with_key_def) (metis shape.collapse)
    ultimately show ?thesis using remove_root [of h None None u] assms(1) u(2) None by (simp add: detach_def)
  next
    case (Some w)
    then obtain u' where w: "w \<in> set (nodes F)" "u' \<in> set (kids w)" "loc u' = a" using parent_of_Some by blast
    have "u' = u" using nodes_unique [OF T nodes_kid [OF w(1,2)] u(1)] w(3) u(2) by simp
    with w(2) obtain xs ys where kw: "kids w = xs @ u # ys" by (meson split_list)
    obtain par prv nx where sw: "stored h par prv nx w" using nodes_stored [OF T w(1)] by blast
    then obtain n where n: "root h w n" by (auto simp: stored_root)
    have c: "container (kind w)" using n kw by (auto simp: root_def holds_kind_def split: if_splits)
    have d: "distinct (addrs w)" by (rule stored_distinct [OF sw])
    from remove_ok [OF n c kw d] obtain h'
      where h': "json_remove_from_parent (Some a) h = Some h'" "same_outside h h' (set (addrs w))" "brk h' = brk h"
        "stored h' None None None (unlinked u)"
        "\<And>par prv nx. linked n par prv nx (skey w) \<Longrightarrow> stored h' par prv nx (Shape (loc w) (skey w) (kind w) (xs @ ys))"
      using u(2) by blast
    have dk: "distinct (concat (map addrs (kids w)))" using d by (cases w) simp
    have "distinct (map loc (kids w))" by (rule distinct_locs [OF dk])
    then have wk: "without a (kids w) = xs @ ys" using without_kid [of xs u ys] kw u(2) by simp
    let ?f = "with_kids (without a)"
    have fw: "?f w = Shape (loc w) (skey w) (kind w) (xs @ ys)" by (simp add: with_kids_def wk)
    have F': "trees h' (map (update_at (loc w) ?f) F) \<and>
        space (map (update_at (loc w) ?f) F) = space F - set (addrs w) \<union> set (addrs (?f w))"
    proof (rule trees_update [OF T w(1)])
      fix par prv nx assume "stored h par prv nx w"
      then show "stored h' par prv nx (?f w)" unfolding fw by (intro h'(5) root_linked [OF _ n])
    next
      fix x assume "x \<notin> set (addrs w)"
      with h'(2) show "cells h' x = cells h x" by (simp add: same_outside_def)
    qed simp_all
    have sp: "set (addrs w) = set (addrs (?f w)) \<union> set (addrs u)" 
      unfolding addrs_shape [of w] addrs_shape [of "?f w"] by (auto simp: wk) (auto simp: kw)
    obtain x y where "stored h (Some (loc w)) x y u" using kid_stored [OF sw, of u] kw by auto
    then obtain m where m: "cells h a = Some m" "parent m = Some (loc w)" using stored_node u(2) by blast
    have notroot: "a \<noteq> loc t" if "t \<in> set F" for t
      using stored_node [OF trees_stored [OF T that]] m by auto
    have ku: "unlinked u = with_key None u" by (simp add: unlinked_def with_key_def)
    have "trees h' (map (update_at (loc w) ?f) F @ [with_key None u])"
      using conjunct1 [OF F'] h'(4) ku notroot u(2) unfolding trees_def by (auto simp: update_at_loc)
    moreover have "space (map (update_at (loc w) ?f) F @ [with_key None u]) = space F"
      using conjunct2 [OF F'] sp nodes_space [OF w(1)] by auto
    moreover have "same_outside h h' (space F)" using h'(2) nodes_space [OF w(1)] by (auto simp: same_outside_def)
    ultimately have "forest h' (map (update_at (loc w) ?f) F @ [with_key None u])" using h'(3) by (rule forest_keep [OF assms(1)])
    with h'(1,3) Some assms(2) show ?thesis by (simp add: detach_def)
  qed
qed

lemma forest_small:
  assumes "forest h F" "u \<in> set F"
  shows "length (addrs u) \<le> brk h"
proof -
  have T: "trees h F" and low: "\<And>a. a \<in> space F \<Longrightarrow> a < brk h" using assms(1) by (simp_all add: forest_iff)
  have "set (addrs u) \<subseteq> {..<brk h}" using low assms(2) by (auto simp: space_def)
  from card_mono [OF _ this] distinct_card [OF stored_distinct [OF trees_stored [OF T assms(2)]]] show ?thesis by simp
qed

lemma delete_forest:
  assumes "forest h F" "node_at a F = Some u"
  shows "\<exists>h'. run_call (Delete a) h = Some (Some h') \<and> forest h' (without a (detach a F)) \<and> brk h' = brk h"
proof -
  have T0: "trees h F" using assms(1) by (simp add: forest_iff)
  have u: "loc u = a" using assms(2) node_at_iff [OF T0] by auto
  let ?u = "with_key None u"
  obtain h1 where h1: "json_remove_from_parent (Some a) h = Some h1" "forest h1 (detach a F)" "brk h1 = brk h" "?u \<in> set (detach a F)"
    using detach_ok [OF assms] by blast
  have T: "trees h1 (detach a F)" and live: "\<And>x. cells h1 x \<noteq> None \<longleftrightarrow> x \<in> space (detach a F)"
    and low: "\<And>x. x \<in> space (detach a F) \<Longrightarrow> x < brk h1"
    using h1(2) by (simp_all add: forest_iff)
  have su: "stored h1 None None None ?u" by (rule trees_stored [OF T h1(4)])
  have "json_delete (2 * brk h) (Some a) h = json_delete (2 * brk h) (Some a) h1"
    by (rule delete_unlinked [OF h1(1)]) (use su u in \<open>simp add: with_key_def\<close>)
  also have "\<dots> = Some (erase (addrs u) h1)"
    using delete_ok [OF su [unfolded with_key_def]] stored_distinct [OF su] forest_small [OF h1(2,4)] h1(3) u by simp
  finally have del: "run_call (Delete a) h = Some (Some (erase (addrs u) h1))" by simp
  let ?G = "without a (detach a F)"
  have sp: "space ?G = space (detach a F) - set (addrs u)" using space_without [OF T h1(4)] u by simp
  have "stored (erase (addrs u) h1) None None None t" if t: "t \<in> set ?G" for t
  proof (subst stored_frame(1) [where h = h1])
    show "stored h1 None None None t" using t by (intro trees_stored [OF T]) (simp add: without_def)
    fix x assume "x \<in> set (addrs t)"
    with t sp show "cells (erase (addrs u) h1) x = cells h1 x" by (auto simp: space_def)
  qed
  then have "trees (erase (addrs u) h1) ?G" using trees_without [OF T, of a] by (simp add: trees_def)
  with live low sp have "forest (erase (addrs u) h1) ?G" by (auto simp: forest_iff)
  with del h1(3) show ?thesis by simp
qed

end
