(* ===== verification/Common.thy ===== *)
theory Common
  imports Prelude
begin

text \<open>
  What the modules of the daemon share (\<open>src/util/common.c\<close>): ending the process with a message, and
  mutexes. A module function that may end the process returns \<open>Inl\<close> of the abort or \<open>Inr\<close> of its
  result; nothing runs behind an abort, because \<open>error\<close> with a non-zero status does not return.
\<close>

section \<open>Ending the process\<close>

text \<open>The message of \<open>ST_abort\<close>; the source file and line it is called with are dropped, except where
  the caller passes something else there (\<open>load_from_file\<close> passes the configuration file).\<close>

datatype abort = Abort "byte list" | Abort_at "byte list" int "byte list"

type_synonym 'a proc = "abort + 'a"

definition ST_abort :: "byte list \<Rightarrow> 'a proc" where
  "ST_abort msg = Inl (Abort msg)"

definition ST_abort_at :: "byte list \<Rightarrow> int \<Rightarrow> byte list \<Rightarrow> 'a proc" where
  "ST_abort_at file line msg = Inl (Abort_at file line msg)"

fun run :: "'a proc \<Rightarrow> ('a \<Rightarrow> 'b proc) \<Rightarrow> 'b proc" where
  "run (Inl a) f = Inl a"
| "run (Inr x) f = f x"

lemma run_Inr_iff [c_simps]: "run r f = Inr y \<longleftrightarrow> (\<exists>x. r = Inr x \<and> f x = Inr y)"
  by (cases r) auto

lemma run_Inl_iff: "run r f = Inl a \<longleftrightarrow> r = Inl a \<or> (\<exists>x. r = Inr x \<and> f x = Inl a)"
  by (cases r) auto

lemma run_assoc: "run (run r f) g = run r (\<lambda>x. run (f x) g)"
  by (cases r) auto

lemma abort_not_Inr [simp]: "ST_abort msg \<noteq> Inr x" "ST_abort_at f l msg \<noteq> Inr x"
  by (simp_all add: ST_abort_def ST_abort_at_def)

section \<open>Mutexes\<close>

text \<open>
  The mutexes are default ones: the owner of a mutex is the thread that locked it, a thread that
  locks a mutex with an owner does not get on (for ever, when it is the owner itself), which is
  \<open>None\<close>; \<open>pthread_mutex_trylock\<close> returns instead.
\<close>

datatype thread = Main | Server

type_synonym mutex = "thread option"

definition ST_lock :: "thread \<Rightarrow> mutex \<Rightarrow> mutex option" where
  "ST_lock t l = (case l of None \<Rightarrow> Some (Some t) | Some _ \<Rightarrow> None)"

definition ST_unlock :: "mutex \<Rightarrow> mutex" where
  "ST_unlock l = None"

definition trylock :: "thread \<Rightarrow> mutex \<Rightarrow> bool \<times> mutex" where
  "trylock t l = (case l of None \<Rightarrow> (True, Some t) | Some _ \<Rightarrow> (False, l))"

lemma ST_lock_Some [c_simps]: "ST_lock t l = Some l' \<longleftrightarrow> l = None \<and> l' = Some t"
  by (auto simp: ST_lock_def split: option.splits)

end
