(* ===== verification/Configure.thy ===== *)
theory Configure
  imports Common NumText
begin

text \<open>
  The configuration of the daemon (\<open>src/util/configure.c\<close>). The file is read by libconfig, which is
  not part of the repository: its functions are the parameter \<open>lc\<close> of the operations, over an
  unknown type of parsed files and one of setting groups. What the code relies on is only that the
  functions return what they return.
\<close>

section \<open>libconfig and the C library\<close>

record ('f, 'g) libconfig =
  read_file :: "byte list \<Rightarrow> (int \<times> byte list) + 'f"
  lookup :: "'f \<Rightarrow> byte list \<Rightarrow> 'g option"
  lookup_int :: "'g \<Rightarrow> byte list \<Rightarrow> int option"
  lookup_bool :: "'g \<Rightarrow> byte list \<Rightarrow> int option"
  lookup_string :: "'g \<Rightarrow> byte list \<Rightarrow> byte list option"

text \<open>What the operating system answers to an allocation and to \<open>pthread_mutex_init\<close>, and the message
  of an error code.\<close>

record os =
  malloc_ok :: bool
  mutex_init :: int
  strerror :: "int \<Rightarrow> byte list"

section \<open>The code\<close>

record config =
  interval :: int
  notice_percent :: int
  warn_percent :: int
  crit_percent :: int
  http_enabled :: int
  http_port :: int
  http_bind_address :: "byte list"

text \<open>The static variables: the parsed file (\<open>None\<close> when it is destroyed) and its path.\<close>

record 'f conf_state =
  cfg :: "'f option"
  file_path :: "byte list"

text \<open>A chain of lookups joined by \<open>&&\<close>: each one that finds its setting stores it, the first one that
  does not ends the chain.\<close>

fun lookups :: "(config \<Rightarrow> config option) list \<Rightarrow> config \<Rightarrow> bool \<times> config" where
  "lookups [] c = (True, c)"
| "lookups (f # fs) c = (case f c of None \<Rightarrow> (False, c) | Some c' \<Rightarrow> lookups fs c')"

definition core_lookups :: "('f, 'g) libconfig \<Rightarrow> 'g \<Rightarrow> (config \<Rightarrow> config option) list" where
  "core_lookups lc g =
    [\<lambda>c. map_option (\<lambda>i. c\<lparr>interval := i\<rparr>) (lookup_int lc g (bytes ''check_interval_ms'')),
     \<lambda>c. map_option (\<lambda>i. c\<lparr>notice_percent := i\<rparr>) (lookup_int lc g (bytes ''free_percent_notice'')),
     \<lambda>c. map_option (\<lambda>i. c\<lparr>warn_percent := i\<rparr>) (lookup_int lc g (bytes ''free_percent_warn'')),
     \<lambda>c. map_option (\<lambda>i. c\<lparr>crit_percent := i\<rparr>) (lookup_int lc g (bytes ''free_percent_crit''))]"

definition server_lookups :: "('f, 'g) libconfig \<Rightarrow> 'g \<Rightarrow> (config \<Rightarrow> config option) list" where
  "server_lookups lc g =
    [\<lambda>c. map_option (\<lambda>i. c\<lparr>http_enabled := i\<rparr>) (lookup_bool lc g (bytes ''enabled'')),
     \<lambda>c. map_option (\<lambda>i. c\<lparr>http_port := i\<rparr>) (lookup_int lc g (bytes ''port'')),
     \<lambda>c. map_option (\<lambda>s. c\<lparr>http_bind_address := s\<rparr>) (lookup_string lc g (bytes ''bind_addr''))]"

definition load_group ::
  "('f, 'g) libconfig \<Rightarrow> 'f \<Rightarrow> byte list \<Rightarrow> ('g \<Rightarrow> (config \<Rightarrow> config option) list) \<Rightarrow> byte list \<Rightarrow> config \<Rightarrow> config proc" where
  "load_group lc f grp ls err c =
    (case lookup lc f grp of
       None \<Rightarrow> ST_abort err
     | Some g \<Rightarrow> (case lookups (ls g) c of (ok, c) \<Rightarrow> if ok then Inr c else ST_abort err))"

definition load_from_file :: "('f, 'g) libconfig \<Rightarrow> 'f conf_state \<Rightarrow> config \<Rightarrow> ('f conf_state \<times> config) proc" where
  "load_from_file lc st c =
    (case read_file lc (file_path st) of
       Inl (error_line, error_msg) \<Rightarrow> ST_abort_at (file_path st) error_line error_msg
     | Inr f \<Rightarrow>
         run (load_group lc f (bytes ''stored.core'') (core_lookups lc) (bytes ''stored.core value error'') c) (\<lambda>c.
         run (load_group lc f (bytes ''stored.server'') (server_lookups lc) (bytes ''stored.server value error'') c) (\<lambda>c.
         Inr (st\<lparr>cfg := Some f\<rparr>, c))))"

text \<open>The structure comes uninitialised from \<open>malloc\<close>: its contents are an argument.\<close>

definition ST_new_config ::
  "('f, 'g) libconfig \<Rightarrow> os \<Rightarrow> byte list \<Rightarrow> 'f conf_state \<Rightarrow> config \<Rightarrow> ('f conf_state \<times> config) proc" where
  "ST_new_config lc os conf_file_path st uninit =
    (let st = st\<lparr>file_path := conf_file_path\<rparr> in
     if \<not> malloc_ok os then ST_abort (bytes ''OOM error. Exiting!'')
     else if mutex_init os \<noteq> 0 then ST_abort (strerror os (mutex_init os))
     else load_from_file lc st uninit)"

text \<open>\<open>ST_reload_config\<close>, called by thread \<open>t\<close> on a configuration with mutex \<open>l\<close>: \<open>None\<close> when the lock is
  never obtained; otherwise the mutex is free again when the function returns.\<close>

definition ST_reload_config ::
  "('f, 'g) libconfig \<Rightarrow> thread \<Rightarrow> mutex \<Rightarrow> 'f conf_state \<Rightarrow> config \<Rightarrow> (mutex \<times> ('f conf_state \<times> config) proc) option" where
  "ST_reload_config lc t l st c =
    (case ST_lock t l of
       None \<Rightarrow> None
     | Some l \<Rightarrow>
         (case load_from_file lc st c of
            Inl a \<Rightarrow> Some (l, Inl a)
          | Inr r \<Rightarrow> Some (ST_unlock l, Inr r)))"

text \<open>A line of \<open>ST_print_config\<close>: a space, the name, a tab and the number.\<close>

definition print_setting :: "byte list \<Rightarrow> int \<Rightarrow> byte list" where
  "print_setting name i = bytes '' '' @ name @ bytes '' '' @ [0x09] @ bytes '' '' @ fmt_int i @ bytes '';'' @ [0x0A]"

definition ST_print_config :: "config \<Rightarrow> byte list" where
  "ST_print_config c =
    bytes ''config{'' @ [0x0A] @
    print_setting (bytes ''interval'') (interval c) @
    print_setting (bytes ''notice_percent'') (notice_percent c) @
    print_setting (bytes ''warn_percent'') (warn_percent c) @
    print_setting (bytes ''crit_percent'') (crit_percent c) @
    print_setting (bytes ''http_enabled'') (http_enabled c) @
    print_setting (bytes ''http_port'') (http_port c) @
    bytes '' http_bind_address '' @ http_bind_address c @ bytes '';'' @ [0x0A] @
    bytes ''}'' @ [0x0A]"

definition ST_destroy_config :: "'f conf_state \<Rightarrow> 'f conf_state" where
  "ST_destroy_config st = st\<lparr>cfg := None\<rparr>"

section \<open>What a configuration file says\<close>

text \<open>The settings of the two groups of a parsed file, when it has them all.\<close>

definition core_settings :: "('f, 'g) libconfig \<Rightarrow> 'f \<Rightarrow> (int \<times> int \<times> int \<times> int) option" where
  "core_settings lc f = do {
     g \<leftarrow> lookup lc f (bytes ''stored.core'');
     i \<leftarrow> lookup_int lc g (bytes ''check_interval_ms'');
     n \<leftarrow> lookup_int lc g (bytes ''free_percent_notice'');
     w \<leftarrow> lookup_int lc g (bytes ''free_percent_warn'');
     c \<leftarrow> lookup_int lc g (bytes ''free_percent_crit'');
     Some (i, n, w, c) }"

definition server_settings :: "('f, 'g) libconfig \<Rightarrow> 'f \<Rightarrow> (int \<times> int \<times> byte list) option" where
  "server_settings lc f = do {
     g \<leftarrow> lookup lc f (bytes ''stored.server'');
     e \<leftarrow> lookup_bool lc g (bytes ''enabled'');
     p \<leftarrow> lookup_int lc g (bytes ''port'');
     a \<leftarrow> lookup_string lc g (bytes ''bind_addr'');
     Some (e, p, a) }"

text \<open>What a file means: a message that ends the process, or a configuration.\<close>

definition configured :: "('f, 'g) libconfig \<Rightarrow> byte list \<Rightarrow> ('f \<times> config) proc" where
  "configured lc path =
    (case read_file lc path of
       Inl (line, msg) \<Rightarrow> Inl (Abort_at path line msg)
     | Inr f \<Rightarrow>
        (case core_settings lc f of
           None \<Rightarrow> Inl (Abort (bytes ''stored.core value error''))
         | Some (i, n, w, cr) \<Rightarrow>
            (case server_settings lc f of
               None \<Rightarrow> Inl (Abort (bytes ''stored.server value error''))
             | Some (e, p, a) \<Rightarrow>
                Inr (f, \<lparr>interval = i, notice_percent = n, warn_percent = w, crit_percent = cr,
                         http_enabled = e, http_port = p, http_bind_address = a\<rparr>))))"

lemma load_core:
  "load_group lc f (bytes ''stored.core'') (core_lookups lc) err c =
    (case core_settings lc f of
       None \<Rightarrow> ST_abort err
     | Some (i, n, w, cr) \<Rightarrow>
        Inr (c\<lparr>interval := i, notice_percent := n, warn_percent := w, crit_percent := cr\<rparr>))"
  by (simp add: load_group_def core_lookups_def core_settings_def del: bytes_Cons split: option.split)

lemma load_server:
  "load_group lc f (bytes ''stored.server'') (server_lookups lc) err c =
    (case server_settings lc f of
       None \<Rightarrow> ST_abort err
     | Some (e, p, a) \<Rightarrow> Inr (c\<lparr>http_enabled := e, http_port := p, http_bind_address := a\<rparr>))"
  by (simp add: load_group_def server_lookups_def server_settings_def del: bytes_Cons split: option.split)

lemma load_from_file_configured:
  "load_from_file lc st c = run (configured lc (file_path st)) (\<lambda>(f, c). Inr (st\<lparr>cfg := Some f\<rparr>, c))"
  unfolding load_from_file_def load_core load_server configured_def
  by (simp add: ST_abort_def ST_abort_at_def del: bytes_Cons split: sum.split option.split prod.split)

section \<open>What is printed\<close>

text \<open>The printed text says all there is: different configurations print differently.\<close>

lemma print_setting_inj:
  assumes "print_setting name i @ r = print_setting name j @ r'"
  shows "i = j \<and> r = r'"
proof -
  let ?P = "\<lambda>c. is_digit c \<or> c = (0x2D :: byte)"
  have not_P: "\<not> ?P 0x3B" by (simp add: is_digit_def)
  have w: "takeWhile ?P (fmt_int k @ 0x3B # xs) = fmt_int k" "dropWhile ?P (fmt_int k @ 0x3B # xs) = 0x3B # xs" for k xs
    using fmt_int_chars [of k] not_P by (simp_all add: list_all_iff takeWhile_append2 dropWhile_append2 del: de_Morgan_disj)
  from assms have "fmt_int i @ 0x3B # 0x0A # r = fmt_int j @ 0x3B # 0x0A # r'"
    by (simp only: print_setting_def append_assoc same_append_eq) simp
  then have "takeWhile ?P (fmt_int i @ 0x3B # 0x0A # r) = takeWhile ?P (fmt_int j @ 0x3B # 0x0A # r')"
    "dropWhile ?P (fmt_int i @ 0x3B # 0x0A # r) = dropWhile ?P (fmt_int j @ 0x3B # 0x0A # r')" by (rule arg_cong)+
  then show ?thesis unfolding w using fmt_int_inj by auto
qed

lemma print_config_inj:
  assumes "ST_print_config c = ST_print_config c'"
  shows "c = c'"
proof -
  note e = assms [unfolded ST_print_config_def same_append_eq]
  note n1 = print_setting_inj [OF e]
  note n2 = print_setting_inj [OF conjunct2 [OF n1]]
  note n3 = print_setting_inj [OF conjunct2 [OF n2]]
  note n4 = print_setting_inj [OF conjunct2 [OF n3]]
  note n5 = print_setting_inj [OF conjunct2 [OF n4]]
  note n6 = print_setting_inj [OF conjunct2 [OF n5]]
  from n1 n2 n3 n4 n5 n6 show ?thesis unfolding same_append_eq append_same_eq by (intro config.equality) (blast | simp)+
qed

section \<open>Properties\<close>

text \<open>C34: creating the configuration either ends the process with the message of the first thing that
  is wrong, or stores exactly the seven settings of the file, whatever the uninitialised memory of the
  structure held.\<close>

theorem new_config_from_file:
  assumes "malloc_ok os" "mutex_init os = 0"
  shows "ST_new_config lc os path st uninit =
    run (configured lc path) (\<lambda>(f, c). Inr (\<lparr>cfg = Some f, file_path = path\<rparr>, c))"
  using assms load_from_file_configured [of lc "st\<lparr>file_path := path\<rparr>"]
  by (cases st) (simp add: ST_new_config_def)

theorem new_config_from_file_witness:
  "ST_new_config
      \<lparr>read_file = (\<lambda>_. Inr ''conf''), lookup = (\<lambda>_ g. Some g), lookup_int = (\<lambda>g k. Some (int (length k))),
       lookup_bool = (\<lambda>_ _. Some 1), lookup_string = (\<lambda>g _. Some g)\<rparr>
      \<lparr>malloc_ok = True, mutex_init = 0, strerror = (\<lambda>_. [])\<rparr> (bytes ''/etc/stored.cfg'')
      \<lparr>cfg = None, file_path = []\<rparr>
      \<lparr>interval = 0, notice_percent = 0, warn_percent = 0, crit_percent = 0, http_enabled = 0,
       http_port = 0, http_bind_address = []\<rparr> =
    Inr (\<lparr>cfg = Some ''conf'', file_path = bytes ''/etc/stored.cfg''\<rparr>,
      \<lparr>interval = 17, notice_percent = 19, warn_percent = 17, crit_percent = 17, http_enabled = 1,
       http_port = 4, http_bind_address = bytes ''stored.server''\<rparr>)"
  by (subst new_config_from_file)
     (simp_all add: configured_def core_settings_def server_settings_def)

text \<open>A reload by a thread that obtains the lock replaces every setting by what the file says now and
  leaves the mutex free, or ends the process; by a thread that holds the lock already it never
  returns.\<close>

lemma reload_config_result:
  "ST_reload_config lc t l st c =
    (if l \<noteq> None then None else
      case configured lc (file_path st) of
        Inl a \<Rightarrow> Some (Some t, Inl a)
      | Inr (f, c') \<Rightarrow> Some (None, Inr (st\<lparr>cfg := Some f\<rparr>, c')))"
  by (cases l) (auto simp: ST_reload_config_def ST_lock_def ST_unlock_def load_from_file_configured
      split: sum.split)

end
