(* ===== verification/Logger.thy ===== *)
theory Logger
  imports Common NumText
begin

text \<open>
  The logger (\<open>src/util/logger.c\<close>): its two static variables, and what it writes. The sinks have the
  numbers the enumeration of \<open>logger.h\<close> gives them, because the code tests the number.
\<close>

section \<open>The code\<close>

definition ST_MSG_PLAIN :: int where "ST_MSG_PLAIN = 0"
definition ST_MSG_NOTICE :: int where "ST_MSG_NOTICE = 1"
definition ST_MSG_WARN :: int where "ST_MSG_WARN = 2"
definition ST_MSG_ERROR :: int where "ST_MSG_ERROR = 3"
definition ST_MSG_CRIT :: int where "ST_MSG_CRIT = 4"

datatype sink = ST_SYSLOG | ST_STDOUT

fun sink_number :: "sink \<Rightarrow> int" where
  "sink_number ST_SYSLOG = 0"
| "sink_number ST_STDOUT = 1"

record logger =
  daemon_name :: "byte list option"
  sink_type :: sink

text \<open>Static variables start as zero.\<close>

definition logger_start :: logger where
  "logger_start = \<lparr>daemon_name = None, sink_type = ST_SYSLOG\<rparr>"

datatype log_output = Openlog "byte list" | Stdout "byte list" | Syslog int "byte list" | Closelog

definition ST_logger_init :: "byte list \<Rightarrow> sink \<Rightarrow> logger \<Rightarrow> logger \<times> log_output list" where
  "ST_logger_init name type st =
    (st\<lparr>sink_type := type, daemon_name := Some name\<rparr>,
     if type = ST_SYSLOG then [Openlog name] else [])"

text \<open>The format \<open><%i> %s\<close> and a newline.\<close>

definition msg_fmt :: "int \<Rightarrow> byte list \<Rightarrow> byte list" where
  "msg_fmt type msg = [0x3C] @ fmt_int type @ [0x3E, 0x20] @ msg @ [0x0A]"

definition ST_logger_msg :: "logger \<Rightarrow> byte list \<Rightarrow> int \<Rightarrow> log_output list proc" where
  "ST_logger_msg st msg type =
    (if daemon_name st = None \<or> sink_number (sink_type st) = 0
     then ST_abort (bytes ''Logger uninitialized'')
     else case sink_type st of
       ST_STDOUT \<Rightarrow> Inr [Stdout (msg_fmt type msg)]
     | ST_SYSLOG \<Rightarrow> Inr [Syslog type msg])"

text \<open>The name is released and the pointer stays as it is.\<close>

definition ST_logger_destroy :: "logger \<Rightarrow> log_output list" where
  "ST_logger_destroy st = (if sink_type st = ST_SYSLOG then [Closelog] else [])"

text \<open>A sequence of messages.\<close>

fun log_all :: "logger \<Rightarrow> (byte list \<times> int) list \<Rightarrow> log_output list proc" where
  "log_all st [] = Inr []"
| "log_all st ((msg, type) # ms) =
    run (ST_logger_msg st msg type) (\<lambda>out. run (log_all st ms) (\<lambda>outs. Inr (out @ outs)))"

section \<open>Properties\<close>

text \<open>Once the logger is initialised for standard output, every sequence of messages is written there,
  in order, one line per message with its type in angle brackets, and none ends the process.\<close>

lemma log_stdout:
  "log_all (fst (ST_logger_init name ST_STDOUT st)) ms =
    Inr (map (\<lambda>(msg, type). Stdout (msg_fmt type msg)) ms)"
  by (induction ms) (auto simp: ST_logger_init_def ST_logger_msg_def)

text \<open>Once the logger is initialised for syslog, the first message ends the process: the number of
  that sink is zero, which the code takes for an uninitialised logger.\<close>

lemma log_syslog_aborts:
  "log_all (fst (ST_logger_init name ST_SYSLOG st)) ((msg, type) # ms) =
    Inl (Abort (bytes ''Logger uninitialized''))"
  by (simp add: ST_logger_init_def ST_logger_msg_def ST_abort_def)

end
