(* ===== verification/MtabChecker.thy ===== *)
theory MtabChecker
  imports Configure Logger JsonRoundtrip
begin

text \<open>
  The mount table check (\<open>src/mtab_checker.c\<close>). The mount table and the answers of \<open>statvfs\<close> are an
  input: for each mount point its directory and, when \<open>statvfs\<close> succeeds, the numbers it reports, at
  the width of the C structure. The percentage is computed as the code does it, in 64-bit words that
  wrap and then in doubles; a conversion of a double that \<open>int\<close> cannot hold is undefined in C and
  \<open>None\<close> here. The pointers and locks around the check are in \<open>Daemon\<close>.
\<close>

section \<open>The code\<close>

record statvfs =
  f_bsize :: u64
  f_blocks :: u64
  f_bfree :: u64
  f_bavail :: u64

type_synonym mounts = "(byte list \<times> statvfs option) list"

definition free_percent :: "statvfs \<Rightarrow> int option" where
  "free_percent s =
    dbl_to_int
      (dbl_mult
        (dbl_div (dbl_of_nat 100)
          (dbl_of_nat (unat ((f_blocks s - (f_bfree s - f_bavail s)) * f_bsize s))))
        (dbl_of_nat (unat (f_bavail s * f_bsize s))))"

record mtab_entries =
  json_entries :: json
  textural :: "byte list"

text \<open>The object of one mount point.\<close>

definition mount_entry :: "byte list \<Rightarrow> int \<Rightarrow> json" where
  "mount_entry mnt_dir percent =
    JObject [(bytes ''mount_point'', JString mnt_dir), (bytes ''free_space'', JNumber (dbl_of_int percent))]"

text \<open>The loop over the mount table: the elements appended and the messages logged.\<close>

fun check_mounts :: "int \<Rightarrow> mounts \<Rightarrow> (json list \<times> (byte list \<times> int) list) option" where
  "check_mounts notice_level [] = Some ([], [])"
| "check_mounts notice_level ((mnt_dir, None) # ms) = do {
     (es, logs) \<leftarrow> check_mounts notice_level ms;
     Some (es, (bytes ''statvfs error'', ST_MSG_WARN) # logs) }"
| "check_mounts notice_level ((mnt_dir, Some s) # ms) =
     (if 0 < f_blocks s then do {
        percent \<leftarrow> free_percent s;
        (es, logs) \<leftarrow> check_mounts notice_level ms;
        Some (if notice_level \<ge> percent then mount_entry mnt_dir percent # es else es, logs) }
      else check_mounts notice_level ms)"

text \<open>\<open>json_stringify\<close> returns a C string.\<close>

definition stringify_text :: "json \<Rightarrow> byte list option \<Rightarrow> byte list option" where
  "stringify_text v space = do { m \<leftarrow> json_stringify v space; cstr m }"

definition ST_check_mtab :: "int \<Rightarrow> mounts \<Rightarrow> (mtab_entries \<times> (byte list \<times> int) list) option" where
  "ST_check_mtab notice_level ms = do {
     (es, logs) \<leftarrow> check_mounts notice_level ms;
     text \<leftarrow> stringify_text (JArray es) (Some (bytes '' ''));
     Some (\<lparr>json_entries = JArray es, textural = text\<rparr>, logs) }"

text \<open>\<open>c\<close> is the pointer argument: \<open>None\<close> for \<open>NULL\<close>; \<open>setmntent_ok\<close> tells whether the table opens.\<close>

definition ST_init_mtab_checker :: "config option \<Rightarrow> bool \<Rightarrow> os \<Rightarrow> mtab_entries option proc" where
  "ST_init_mtab_checker c setmntent_ok os =
    (if c = None then ST_abort (bytes ''ST_CONFIG (c) NPE'')
     else if \<not> setmntent_ok then ST_abort (bytes ''Setmntent fail'')
     else if \<not> malloc_ok os then ST_abort (bytes ''OOM error. Exiting!'')
     else if mutex_init os \<noteq> 0 then ST_abort (strerror os (mutex_init os))
     else Inr (do {
       text \<leftarrow> stringify_text (JArray []) (Some []);
       Some \<lparr>json_entries = JArray [], textural = text\<rparr> }))"

section \<open>The percentage\<close>

text \<open>A file system reports at most its blocks as free, at most the free ones as available, and its size
  in bytes fits the word.\<close>

definition sane :: "statvfs \<Rightarrow> bool" where
  "sane s \<longleftrightarrow> 0 < f_blocks s \<and> 0 < f_bsize s \<and> f_bavail s \<le> f_bfree s \<and> f_bfree s \<le> f_blocks s \<and>
    0 < unat (f_blocks s) - (unat (f_bfree s) - unat (f_bavail s)) \<and>
    unat (f_blocks s) * unat (f_bsize s) < 2 ^ 64"

text \<open>The blocks that unprivileged users can have, used or not.\<close>

definition usable :: "statvfs \<Rightarrow> nat" where
  "usable s = unat (f_blocks s) - (unat (f_bfree s) - unat (f_bavail s))"

text \<open>A bound on the error of each rounding that is far coarser than the real one, and enough.\<close>

definition near :: "real \<Rightarrow> real \<Rightarrow> bool" where
  "near x y \<longleftrightarrow> 9999 / 10000 * y \<le> x \<and> x \<le> 10001 / 10000 * y"

lemma nearI: "\<bar>x - y\<bar> \<le> y / 10000 \<Longrightarrow> near x y"
  unfolding near_def by linarith

lemma rounded_near:
  assumes "0 < p" "0 < q" "2 powi (- 1022) \<le> real p / real q" "real p / real q < 2 powi 1023"
  shows "\<exists>m e. round_ratio s p q = Fin s m e \<and> near (real m * 2 powi e) (real p / real q)"
proof -
  obtain m e where r: "round_ratio s p q = Fin s m e" using round_ratio_finite [OF assms(2,4)] by blast
  have pos: "0 < real p / real q" using assms(1,2) by simp
  then have "real p / real q / 2 ^ 53 \<le> real p / real q / 10000" by (intro divide_left_mono) auto
  with round_ratio_rel_err [OF assms(1,2) r assms(3)]
  have "\<bar>real m * 2 powi e - real p / real q\<bar> \<le> real p / real q / 10000" by linarith
  then have "near (real m * 2 powi e) (real p / real q)" by (rule nearI)
  with r show ?thesis by blast
qed

lemma powi_minus: "(2::real) powi (- int k) = 1 / 2 ^ k"
  by (simp add: power_int_minus divide_inverse)

lemma powi_1022: "1 / 2 ^ 66 \<le> x \<Longrightarrow> 2 powi (- 1022) \<le> (x::real)"
proof -
  assume x: "1 / 2 ^ 66 \<le> x"
  have "(2::real) powi (- 1022) \<le> 2 powi (- int 66)" by (rule power_int_increasing) simp_all
  with x show ?thesis unfolding powi_minus by linarith
qed

lemma powi_1023: "x \<le> 2 ^ 66 \<Longrightarrow> (x::real) < 2 powi 1023"
proof -
  assume x: "x \<le> 2 ^ 66"
  have "(2::real) powi int 66 < 2 powi 1023" by (rule power_int_strict_increasing) simp_all
  with x show ?thesis unfolding power_int_of_nat by linarith
qed

lemma nat_near:
  assumes "0 < n" "n < 2 ^ 64"
  shows "\<exists>m e. dbl_of_nat n = Fin False m e \<and> near (real m * 2 powi e) (real n)"
proof -
  have "real n \<le> real (2 ^ 64)" using assms(2) by (simp only: of_nat_le_iff)
  then have "1 \<le> real n" "real n \<le> 2 ^ 66" using assms(1) by simp_all
  then have "2 powi (- 1022) \<le> real n / real 1" "real n / real 1 < 2 powi 1023"
    using powi_1022 [of "real n"] powi_1023 [of "real n"] by (simp_all del: power_numeral)
  from rounded_near [OF assms(1) _ this] show ?thesis by (simp add: dbl_of_nat_def)
qed

lemma near_pos: "near x y \<Longrightarrow> 0 < y \<Longrightarrow> 0 < x"
  unfolding near_def by linarith

lemma near_compose:
  assumes r: "near r (v * A')" and v: "near v (100 / D')" and A: "near A' A" and D: "near D' D"
    and pos: "0 < A" "0 < D" "A \<le> D"
  shows "\<bar>r - 100 * A / D\<bar> \<le> 1 / 10"
proof -
  define x where "x = 100 * A / D"
  have x: "0 \<le> x" "x \<le> 100" using pos by (simp_all add: x_def field_simps)
  have D': "0 < D'" and A': "0 < A'" using near_pos D A pos by blast+
  have "100 / D' \<le> 100 / (9999 / 10000 * D)"
    using D D' pos by (intro divide_left_mono) (auto simp: near_def)
  from mult_left_mono [OF this, of "10001 / 10000"]
  have vu: "v \<le> 10001 / 10000 * (100 / (9999 / 10000 * D))" using v unfolding near_def by linarith
  have "100 / (10001 / 10000 * D) \<le> 100 / D'"
    using D D' pos by (intro divide_left_mono) (auto simp: near_def)
  from mult_left_mono [OF this, of "9999 / 10000"]
  have vl: "9999 / 10000 * (100 / (10001 / 10000 * D)) \<le> v" using v unfolding near_def by linarith
  have v0: "0 \<le> v" using near_pos [OF v] D' by simp
  have "v * A' \<le> 10001 / 10000 * (100 / (9999 / 10000 * D)) * (10001 / 10000 * A)"
    using vu v0 A A' pos by (intro mult_mono) (auto simp: near_def)
  also have "\<dots> = 10001 * 10001 / (9999 * 10000) * x" by (simp add: x_def field_simps)
  finally have "v * A' \<le> 10001 * 10001 / (9999 * 10000) * x" .
  from mult_left_mono [OF this, of "10001 / 10000"]
  have "r \<le> 10001 / 10000 * (10001 * 10001 / (9999 * 10000) * x)" using r unfolding near_def by linarith
  then have u: "r \<le> 1001 / 1000 * x" using x by simp
  have "9999 / 10000 * (100 / (10001 / 10000 * D)) * (9999 / 10000 * A) \<le> v * A'"
    using vl v0 A A' pos by (intro mult_mono) (auto simp: near_def)
  moreover have "9999 / 10000 * (100 / (10001 / 10000 * D)) * (9999 / 10000 * A) = 9999 * 9999 / (10001 * 10000) * x"
    by (simp add: x_def field_simps)
  ultimately have "9999 * 9999 / (10001 * 10000) * x \<le> v * A'" by linarith
  from mult_left_mono [OF this, of "9999 / 10000"]
  have "9999 / 10000 * (9999 * 9999 / (10001 * 10000) * x) \<le> r" using r unfolding near_def by linarith
  then have l: "999 / 1000 * x \<le> r" using x by simp
  show ?thesis unfolding x_def [symmetric] using u l x by linarith
qed

lemma unat_usable:
  assumes "sane s"
  shows "unat ((f_blocks s - (f_bfree s - f_bavail s)) * f_bsize s) = usable s * unat (f_bsize s)"
    and "unat (f_bavail s * f_bsize s) = unat (f_bavail s) * unat (f_bsize s)"
    and "0 < usable s" "unat (f_bavail s) \<le> usable s" "0 < unat (f_bsize s)"
    and "usable s * unat (f_bsize s) < 2 ^ 64"
proof -
  have le: "unat (f_bavail s) \<le> unat (f_bfree s)" "unat (f_bfree s) \<le> unat (f_blocks s)"
    using assms by (auto simp: sane_def word_le_nat_alt)
  have sub: "unat (f_bfree s - f_bavail s) = unat (f_bfree s) - unat (f_bavail s)"
    using assms by (simp add: sane_def unat_sub)
  then have "unat (f_blocks s - (f_bfree s - f_bavail s)) = usable s"
    using le by (simp add: usable_def unat_sub word_le_nat_alt)
  moreover have "usable s \<le> unat (f_blocks s)" by (simp add: usable_def)
  then have lt: "usable s * unat (f_bsize s) < 2 ^ 64"
    using assms by (auto simp: sane_def intro: le_less_trans [OF mult_le_mono1])
  ultimately show "unat ((f_blocks s - (f_bfree s - f_bavail s)) * f_bsize s) = usable s * unat (f_bsize s)"
    by (simp add: unat_word_ariths)
  show ua: "unat (f_bavail s) \<le> usable s" using le by (simp add: usable_def)
  have "unat (f_bavail s) * unat (f_bsize s) < 2 ^ 64" using lt ua by (auto intro: le_less_trans [OF mult_le_mono1])
  then show "unat (f_bavail s * f_bsize s) = unat (f_bavail s) * unat (f_bsize s)" by (simp add: unat_word_ariths)
  show "0 < usable s" "0 < unat (f_bsize s)"
    using assms by (auto simp: sane_def usable_def word_less_nat_alt)
  show "usable s * unat (f_bsize s) < 2 ^ 64" by (rule lt)
qed

lemma near_mult_pos: "near x y \<Longrightarrow> 0 < y \<Longrightarrow> x \<le> 2 * y" "near x y \<Longrightarrow> 0 < y \<Longrightarrow> y / 2 \<le> x"
  unfolding near_def by linarith+

lemma hundred: "\<exists>m e. dbl_of_nat 100 = Fin False m e \<and> real m * 2 powi e = 100"
proof -
  obtain m e where "dbl_of_nat 100 = Fin False m e" using nat_near [of 100] by auto
  with dbl_of_nat_val [of 100] show ?thesis by auto
qed

lemma dbl_of_nat_0: "dbl_of_nat 0 = Fin False 0 (- 1074)"
  by (simp add: dbl_of_nat_def round_ratio_def)

text \<open>The computation in doubles, for any two byte counts.\<close>

lemma percent_near:
  assumes DA: "0 < D" "D < 2 ^ 64" "A \<le> D"
  shows "\<exists>r. dbl_to_int (dbl_mult (dbl_div (dbl_of_nat 100) (dbl_of_nat D)) (dbl_of_nat A)) = Some \<lfloor>r\<rfloor> \<and>
    0 \<le> r \<and> \<bar>r - 100 * real A / real D\<bar> \<le> 1 / 10"
proof -
  from hundred obtain m0 e0 where h: "dbl_of_nat 100 = Fin False m0 e0" "real m0 * 2 powi e0 = 100" by blast
  from nat_near [OF DA(1,2)] obtain m1 e1 where d: "dbl_of_nat D = Fin False m1 e1" "near (real m1 * 2 powi e1) (real D)" by blast
  define D' where "D' = real m1 * 2 powi e1"
  note nD = d(2) [folded D'_def]
  have D': "0 < D'" using near_pos [OF nD] DA by simp
  then have "m1 \<noteq> 0" unfolding D'_def by (cases m1) simp_all
  from dbl_div_fin [OF this, of False m0 e0 False e1] obtain p q where pq: "0 < q"
    "dbl_div (Fin False m0 e0) (Fin False m1 e1) = round_ratio False p q" "real p / real q = 100 / D'"
    using h by (auto simp: D'_def)
  have p0: "0 < p" using pq D' by (cases p) auto
  have "D \<le> 2 ^ 64" using DA by simp
  then have "real D \<le> real (2 ^ 64)" by (simp only: of_nat_le_iff)
  then have Dr: "1 \<le> real D" "real D \<le> 2 ^ 64" using DA by simp_all
  have D'b: "D' \<le> 2 ^ 65" "1 / 2 \<le> D'" using near_mult_pos [OF nD] Dr by simp_all
  have "100 / 2 ^ 65 \<le> 100 / D'" "100 / D' \<le> 100 / (1 / 2)"
    using D' D'b by (intro divide_left_mono; simp)+
  then have qb: "1 / 2 ^ 64 \<le> 100 / D'" "100 / D' \<le> 200" by simp_all
  then have "2 powi (- 1022) \<le> real p / real q" "real p / real q < 2 powi 1023"
    unfolding pq(3) by (intro powi_1022 powi_1023; simp)+
  from rounded_near [OF p0 pq(1) this] obtain m2 e2 where
    q: "round_ratio False p q = Fin False m2 e2" "near (real m2 * 2 powi e2) (100 / D')" unfolding pq(3) by blast
  define v where "v = real m2 * 2 powi e2"
  note nv = q(2) [folded v_def]
  have "0 < 100 / D'" using D' by simp
  note nv' = near_pos [OF nv this] near_mult_pos [OF nv this]
  have "(1::real) / 2 ^ 65 = 1 / 2 ^ 64 / 2" by simp
  also have "\<dots> \<le> 100 / D' / 2" by (rule divide_right_mono [OF qb(1)]) simp
  finally have v: "0 < v" "v \<le> 400" "1 / 2 ^ 65 \<le> v" using nv' qb by linarith+
  have quot: "dbl_div (dbl_of_nat 100) (dbl_of_nat D) = Fin False m2 e2" using h d pq q by simp
  show ?thesis
  proof (cases "A = 0")
    case True
    have "round_ratio False a b = Fin False 0 (- 1074)" if "real a / real b = 0" "0 < b" for a b
      using that by (simp add: round_ratio_def)
    moreover obtain a b where "0 < b" "dbl_mult (Fin False m2 e2) (Fin False 0 (- 1074)) = round_ratio (False \<noteq> False) a b"
      "real a / real b = 0" using dbl_mult_fin [of False m2 e2 False 0 "- 1074"] by auto
    ultimately have "dbl_mult (Fin False m2 e2) (dbl_of_nat A) = Fin False 0 (- 1074)"
      using True by (simp add: dbl_of_nat_0 del: dbl_mult.simps)
    with quot dbl_to_int_nonneg [of 0 "- 1074"] True show ?thesis by (intro exI [of _ 0]) simp
  next
    case False
    then have A: "0 < A" "A < 2 ^ 64" using DA by simp_all
    from nat_near [OF this] obtain m3 e3 where a: "dbl_of_nat A = Fin False m3 e3" "near (real m3 * 2 powi e3) (real A)" by blast
    define A' where "A' = real m3 * 2 powi e3"
    note nA = a(2) [folded A'_def]
    have Ar: "1 \<le> real A" "real A \<le> real D" using A DA by simp_all
    have A': "1 / 2 \<le> A'" "A' \<le> 2 * real D" using near_mult_pos [OF nA] Ar by simp_all
    from dbl_mult_fin [of False m2 e2 False m3 e3] obtain a b where ab: "0 < b"
      "dbl_mult (Fin False m2 e2) (Fin False m3 e3) = round_ratio False a b" "real a / real b = v * A'"
      by (auto simp: v_def A'_def)
    have pos: "0 < v * A'" using v(1) A'(1) by simp
    then have a0: "0 < a" using ab by (cases a) auto
    have "v * A' \<le> 2 * (100 / D') * (2 * real D)"
      using nv' A' v(1) D' by (intro mult_mono) auto
    also have "\<dots> = 400 * (real D / D')" by simp
    also have "real D / D' \<le> 2" using near_mult_pos(2) [OF nD] Dr D' by (simp add: field_simps)
    finally have hi: "v * A' \<le> 800" by simp
    have "1 / 2 ^ 65 * (1 / 2) \<le> v * A'" using v A' by (intro mult_mono) auto
    then have lo: "1 / 2 ^ 66 \<le> v * A'" by simp
    from rounded_near [OF a0 ab(1), of False] powi_1022 [OF lo] powi_1023 [of "v * A'"] hi obtain m4 e4 where
      r: "round_ratio False a b = Fin False m4 e4" "near (real m4 * 2 powi e4) (v * A')" unfolding ab(3) by auto
    let ?r = "real m4 * 2 powi e4"
    have near: "\<bar>?r - 100 * real A / real D\<bar> \<le> 1 / 10"
      by (rule near_compose [OF r(2) nv nA nD]) (use A DA in auto)
    have "100 * real A / real D \<le> 100" using Ar Dr by (simp add: field_simps)
    then have "?r \<le> 101" using near by linarith
    then have "?r < 2 ^ 31" by simp
    from dbl_to_int_nonneg [OF this] have "dbl_to_int (Fin False m4 e4) = Some \<lfloor>?r\<rfloor>" .
    moreover have "dbl_mult (dbl_div (dbl_of_nat 100) (dbl_of_nat D)) (dbl_of_nat A) = Fin False m4 e4"
      unfolding quot a(1) ab(2) r(1) ..
    moreover have "0 \<le> ?r" by simp
    ultimately show ?thesis using near by (intro exI [of _ ?r]) simp
  qed
qed

lemma percent_le: "0 < d \<Longrightarrow> a \<le> d \<Longrightarrow> real (100 * a) / real d \<le> 100"
  by (simp add: field_simps)

lemma cancel_size: "0 < d \<Longrightarrow> 0 < u \<Longrightarrow> 100 * real (a * u) / real (d * u) = real (100 * a) / real d"
  by simp

lemma free_percent_sane:
  assumes "sane s"
  shows "\<exists>p. free_percent s = Some p \<and> 0 \<le> p \<and> p \<le> 100 \<and>
    \<bar>p - int (100 * unat (f_bavail s) div usable s)\<bar> \<le> 1"
proof -
  note w = unat_usable [OF assms]
  let ?a = "unat (f_bavail s)" and ?u = "unat (f_bsize s)" and ?d = "usable s"
  have "0 < ?d * ?u" "?a * ?u \<le> ?d * ?u" using w by simp_all
  from percent_near [OF this(1) w(6) this(2)] obtain r where
    r: "free_percent s = Some \<lfloor>r\<rfloor>" "0 \<le> r" "\<bar>r - 100 * real (?a * ?u) / real (?d * ?u)\<bar> \<le> 1 / 10"
    unfolding free_percent_def w(1,2) by blast
  have x: "100 * real (?a * ?u) / real (?d * ?u) = real (100 * ?a) / real ?d"
    using w(3,5) by (rule cancel_size)
  have "real (100 * ?a) / real ?d \<le> 100" using w(3,4) by (rule percent_le)
  then have le: "\<lfloor>r\<rfloor> \<le> 100" using r(3) unfolding x by linarith
  have "int (100 * ?a div ?d) = \<lfloor>real (100 * ?a) / real ?d\<rfloor>" by (rule floor_divide_of_nat_eq [symmetric])
  then have "\<bar>\<lfloor>r\<rfloor> - int (100 * ?a div ?d)\<bar> \<le> 1" using r(3) unfolding x by linarith
  with r le show ?thesis by simp
qed

section \<open>Publishing\<close>

lemma dbl_of_int_nat: "0 \<le> p \<Longrightarrow> dbl_of_int p = dbl_of_nat (nat p)"
  by (simp add: dbl_of_int_def dbl_of_nat_def)

lemma stringify_text_ok:
  assumes "json_ok v" "case space of None \<Rightarrow> True | Some sp \<Rightarrow> valid_utf8 sp"
  shows "stringify_text v space = Some (stringified v space) \<and> valid_utf8 (stringified v space)"
proof -
  have "valid_utf8 (stringified v space)"
    using assms json_text_valid json_text_indented_valid by (auto simp: stringified_def split: option.splits)
  then show ?thesis
    using json_stringify_text [OF assms(1), of space] cstr_terminated [OF valid_utf8_nul_free, of _ "[]"]
    by (simp add: stringify_text_def)
qed

lemma valid_utf8_space: "valid_utf8 (bytes '' '')" "spaces (bytes '' '')"
  by (auto intro: valid_utf8_ascii simp: spaces_def is_space_def)

text \<open>The mount points of a table that a check lists, with their percentages, and the failures.\<close>

definition listed :: "int \<Rightarrow> byte list \<times> statvfs option \<Rightarrow> (byte list \<times> int) option" where
  "listed notice_level m = (case m of
      (d, Some s) \<Rightarrow> if 0 < f_blocks s then
          (case free_percent s of Some p \<Rightarrow> if p \<le> notice_level then Some (d, p) else None | None \<Rightarrow> None)
        else None
    | (d, None) \<Rightarrow> None)"

definition all_listed :: "int \<Rightarrow> mounts \<Rightarrow> (byte list \<times> int) list" where
  "all_listed notice_level ms = List.map_filter (listed notice_level) ms"

definition failed :: "mounts \<Rightarrow> mounts" where
  "failed ms = filter (\<lambda>m. snd m = None) ms"

definition sane_mounts :: "mounts \<Rightarrow> bool" where
  "sane_mounts ms \<longleftrightarrow> (\<forall>(d, st) \<in> set ms. nul_free d \<and> (\<forall>s. st = Some s \<and> 0 < f_blocks s \<longrightarrow> sane s))"

lemma check_mounts_sane:
  "sane_mounts ms \<Longrightarrow> check_mounts notice_level ms =
    Some (map (\<lambda>(d, p). mount_entry d p) (all_listed notice_level ms),
          map (\<lambda>_. (bytes ''statvfs error'', ST_MSG_WARN)) (failed ms))"
proof (induction notice_level ms rule: check_mounts.induct)
  case (3 notice_level d s ms)
  then have ms: "sane_mounts ms" by (simp add: sane_mounts_def)
  show ?case
  proof (cases "0 < f_blocks s")
    case True
    with "3.prems" have "sane s" by (auto simp: sane_mounts_def)
    from free_percent_sane [OF this] obtain p where p: "free_percent s = Some p" by blast
    from "3.IH"(1) [OF True p ms] True p show ?thesis
      by (auto simp: all_listed_def listed_def failed_def map_filter_simps)
  next
    case False
    with "3.IH"(2) ms show ?thesis by (simp add: all_listed_def listed_def failed_def map_filter_simps)
  qed
qed (auto simp: sane_mounts_def all_listed_def listed_def failed_def map_filter_simps)

lemma all_listed_range:
  assumes "sane_mounts ms" "(d, p) \<in> set (all_listed notice_level ms)"
  shows "nul_free d \<and> 0 \<le> p \<and> p \<le> 100 \<and> p \<le> notice_level \<and> d \<in> fst ` set ms"
proof -
  from assms(2) obtain s where s: "(d, Some s) \<in> set ms" "0 < f_blocks s" "free_percent s = Some p" "p \<le> notice_level"
    by (auto simp: all_listed_def map_filter_def listed_def split: option.splits if_splits)
  with assms(1) have "nul_free d" "sane s" by (auto simp: sane_mounts_def)
  from free_percent_sane [OF this(2)] s \<open>nul_free d\<close> show ?thesis by force
qed

lemma entries_ok:
  assumes "sane_mounts ms"
  shows "json_ok (JArray (map (\<lambda>(d, p). mount_entry d p) (all_listed notice_level ms)))"
proof -
  have "json_ok (mount_entry d p)" if "(d, p) \<in> set (all_listed notice_level ms)" for d p
    using all_listed_range [OF assms that] round_ratio_ok [of 1] by (simp add: mount_entry_def dbl_of_int_def)
  then show ?thesis by auto
qed

lemma entries_plain:
  assumes "sane_mounts ms" "\<forall>(d, st) \<in> set ms. valid_utf8 d \<and> 0x1F \<notin> set d"
  shows "plain (JArray (map (\<lambda>(d, p). mount_entry d p) (all_listed notice_level ms)))"
proof -
  have "plain (mount_entry d p)" if "(d, p) \<in> set (all_listed notice_level ms)" for d p
  proof -
    from all_listed_range [OF assms(1) that] have p: "0 \<le> p" "p \<le> 100" and d: "d \<in> fst ` set ms" by auto
    from d assms(2) have "valid_utf8 d" "0x1F \<notin> set d" by auto
    moreover have "\<exists>n < 10 ^ 15. dbl_of_int p = dbl_of_nat n"
      using p by (intro exI [of _ "nat p"]) (simp add: dbl_of_int_nat)
    ultimately show ?thesis using valid_utf8_ascii by (simp add: mount_entry_def)
  qed
  then show ?thesis by auto
qed

lemma check_mtab_ok:
  assumes "sane_mounts ms" "\<forall>(d, st) \<in> set ms. valid_utf8 d \<and> 0x1F \<notin> set d"
  shows "\<exists>me logs. ST_check_mtab notice_level ms = Some (me, logs) \<and>
    json_entries me = JArray (map (\<lambda>(d, p). mount_entry d p) (all_listed notice_level ms)) \<and>
    length logs = length (failed ms) \<and> set logs \<subseteq> {(bytes ''statvfs error'', ST_MSG_WARN)} \<and>
    json_decode (textural me @ [0]) = Some (Some (json_entries me))"
proof -
  let ?t = "JArray (map (\<lambda>(d, p). mount_entry d p) (all_listed notice_level ms))"
  have "stringify_text ?t (Some (bytes '' '')) = Some (stringified ?t (Some (bytes '' '')))"
    using stringify_text_ok [OF entries_ok [OF assms(1)], of "Some (bytes '' '')"] valid_utf8_space by simp
  moreover have "json_decode (stringified ?t (Some (bytes '' '')) @ [0]) = Some (Some ?t)"
    using json_decode_stringified [of ?t "Some (bytes '' '')"] plain_ok [OF entries_plain [OF assms]]
      plain_canon [OF entries_plain [OF assms]] valid_utf8_space by simp
  ultimately show ?thesis
    using check_mounts_sane [OF assms(1)] by (auto simp: ST_check_mtab_def simp del: bytes_Cons)
qed

section \<open>Properties\<close>



text \<open>Where every free block is reserved (all blocks free, none available) the code divides by zero and
  converts a NaN to an integer, which is undefined.\<close>

lemma free_percent_all_reserved:
  assumes "f_bfree s = f_blocks s" "f_bavail s = 0"
  shows "free_percent s = None"
  using assms hundred by (auto simp: free_percent_def dbl_of_nat_0 ratio_of_def round_ratio_def)



end
