(* ===== verification/CheckLoop.thy ===== *)
theory CheckLoop
  imports MtabChecker
begin

text \<open>
  The loop of the daemon (\<open>src/mtab_check_loop.c\<close>): what one turn of it does with the entries of the
  last check, and how turns follow each other. One turn reads the configuration, waits, reports the
  entries that the previous check left, and, when it gets the mutex of the server buffer, runs the
  next check and hands its text to the server. \<open>None\<close> is a crash: a read through \<open>NULL\<close>, a write
  outside the message buffer, a conversion that \<open>int\<close> cannot hold. The steps of a turn as seen by
  the other thread are in \<open>Daemon\<close>.
\<close>

section \<open>The code\<close>

text \<open>\<open>json_find_member\<close> and \<open>json_foreach\<close> on trees (their pointer versions are in \<open>JsonHeap\<close>).\<close>

fun find_key :: "(byte list \<times> json) list \<Rightarrow> byte list \<Rightarrow> json option" where
  "find_key [] name = None"
| "find_key ((k, v) # ms) name = (if k = name then Some v else find_key ms name)"

fun json_find_member :: "json \<Rightarrow> byte list \<Rightarrow> json option" where
  "json_find_member (JObject ms) name = find_key ms name"
| "json_find_member _ name = None"

fun json_children :: "json \<Rightarrow> json list" where
  "json_children (JArray xs) = xs"
| "json_children (JObject ms) = map snd ms"
| "json_children _ = []"

definition PATH_MAX :: nat where "PATH_MAX = 4096"
definition MSG_FMT_LEN :: nat where "MSG_FMT_LEN = 30"
definition MSG_LEN :: nat where "MSG_LEN = MSG_FMT_LEN + PATH_MAX"

text \<open>\<open>%s has %i percent space left.\<close>\<close>

definition space_msg :: "byte list \<Rightarrow> int \<Rightarrow> byte list" where
  "space_msg mount_point free = mount_point @ bytes '' has '' @ fmt_int free @ bytes '' percent space left.''"

record thresholds =
  notice :: int
  warn :: int
  crit :: int

definition severity :: "thresholds \<Rightarrow> int \<Rightarrow> int" where
  "severity th free_space =
    (if crit th \<ge> free_space then ST_MSG_CRIT
     else if warn th \<ge> free_space then ST_MSG_WARN
     else ST_MSG_NOTICE)"

text \<open>The body of \<open>json_foreach\<close>: the messages logged for one entry. The tags are read before the
  pointers are tested.\<close>

definition report_entry :: "thresholds \<Rightarrow> json \<Rightarrow> (byte list \<times> int) list option" where
  "report_entry th entry = do {
     fspace_elem \<leftarrow> json_find_member entry (bytes ''free_space'');
     case fspace_elem of
       JNumber d \<Rightarrow> do {
         m_point_elem \<leftarrow> json_find_member entry (bytes ''mount_point'');
         case m_point_elem of
           JString m_point \<Rightarrow> do {
             free_space \<leftarrow> dbl_to_int d;
             if notice th \<ge> free_space then do {
               msg_buf \<leftarrow> sprintf_buf MSG_LEN (space_msg m_point free_space);
               msg \<leftarrow> cstr msg_buf;
               Some [(msg, severity th free_space)] }
             else Some [] }
         | _ \<Rightarrow> Some [(bytes ''json_foreach: readout error'', ST_MSG_WARN)] }
     | _ \<Rightarrow> Some [(bytes ''json_foreach: readout error'', ST_MSG_WARN)] }"

fun report :: "thresholds \<Rightarrow> json list \<Rightarrow> (byte list \<times> int) list option" where
  "report th [] = Some []"
| "report th (e # es) = do {
     ms \<leftarrow> report_entry th e;
     ms' \<leftarrow> report th es;
     Some (ms @ ms') }"

text \<open>The state a turn works on: the entries of the checker and the text the server serves.\<close>

record loop_state =
  entries :: mtab_entries
  served :: "byte list"

definition thresholds_of :: "config \<Rightarrow> thresholds" where
  "thresholds_of c = \<lparr>notice = notice_percent c, warn = warn_percent c, crit = crit_percent c\<rparr>"

text \<open>A turn after \<open>poll\<close>: \<open>trylock_ok\<close> says whether the server mutex was free, and the configuration may
  have been reloaded between the two places that read it.\<close>

definition check_turn ::
  "config \<Rightarrow> config \<Rightarrow> bool \<Rightarrow> mounts \<Rightarrow> loop_state \<Rightarrow> (loop_state \<times> (byte list \<times> int) list) option" where
  "check_turn c c' trylock_ok ms st = do {
     msgs \<leftarrow> report (thresholds_of c) (json_children (json_entries (entries st)));
     if trylock_ok then do {
       (me, logs) \<leftarrow> ST_check_mtab (notice_percent c') ms;
       Some (\<lparr>entries = me, served = textural me\<rparr>, msgs @ logs) }
     else Some (st, msgs @ [(bytes ''srv_buff->mutex locked'', ST_MSG_NOTICE)]) }"

text \<open>What \<open>poll\<close> does: a signal starts the turn again, another error ends the process.\<close>

datatype poll_result = Ready | Interrupted | Failed

fun poll_branch :: "poll_result \<Rightarrow> bool proc" where
  "poll_branch Ready = Inr True"
| "poll_branch Interrupted = Inr False"
| "poll_branch Failed = ST_abort (bytes ''Unknown poll error.'')"

record turn_input =
  t_conf :: config
  t_conf_check :: config
  t_poll :: poll_result
  t_trylock :: bool
  t_mounts :: mounts

fun turns :: "turn_input list \<Rightarrow> loop_state \<Rightarrow> ((loop_state \<times> (byte list \<times> int) list) proc) option" where
  "turns [] st = Some (Inr (st, []))"
| "turns (i # is) st =
    (case poll_branch (t_poll i) of
       Inl a \<Rightarrow> Some (Inl a)
     | Inr go \<Rightarrow>
        if \<not> go then turns is st
        else do {
          (st, msgs) \<leftarrow> check_turn (t_conf i) (t_conf_check i) (t_trylock i) (t_mounts i) st;
          r \<leftarrow> turns is st;
          Some (run r (\<lambda>(st', msgs'). Inr (st', msgs @ msgs'))) })"

section \<open>Reports\<close>

lemma dbl_to_int_of_nat: "n < 2 ^ 31 \<Longrightarrow> dbl_to_int (dbl_of_nat n) = Some (int n)"
proof -
  assume n: "n < 2 ^ 31"
  have "\<exists>m e. dbl_of_nat n = Fin False m e"
    using nat_near [of n] n dbl_of_nat_0 by (cases "n = 0") auto
  then obtain m e where d: "dbl_of_nat n = Fin False m e" by blast
  have v: "real m * 2 powi e = real n" using dbl_of_nat_val [of n] n d by simp
  have "real n < real (2 ^ 31)" using n by (simp only: of_nat_less_iff)
  then have "real m * 2 powi e < 2 ^ 31" using v by simp
  from dbl_to_int_nonneg [OF this] v d show ?thesis by simp
qed

lemma dbl_to_int_percent: "0 \<le> p \<Longrightarrow> p \<le> 100 \<Longrightarrow> dbl_to_int (dbl_of_int p) = Some p"
  using dbl_to_int_of_nat [of "nat p"] by (simp add: dbl_of_int_nat)

lemma fmt_percent_length: "0 \<le> p \<Longrightarrow> p \<le> 100 \<Longrightarrow> length (fmt_int p) \<le> 3"
  using dec_short [of "nat p" 2] by (simp add: fmt_int_def nat_less_iff)

lemma digits_nul_free: "nul_free (dec n)"
  using dec_digits [of n] by (auto simp: nul_free_def is_digit_def)

lemma space_msg_nul_free: "nul_free d \<Longrightarrow> nul_free (space_msg d p)"
  by (simp add: space_msg_def fmt_int_def digits_nul_free)

text \<open>A listed mount point: a path and a percentage.\<close>

definition good_listing :: "byte list \<times> int \<Rightarrow> bool" where
  "good_listing m \<longleftrightarrow> (case m of (d, p) \<Rightarrow> nul_free d \<and> length d \<le> PATH_MAX \<and> 0 \<le> p \<and> p \<le> 100)"

definition messages :: "thresholds \<Rightarrow> (byte list \<times> int) list \<Rightarrow> (byte list \<times> int) list" where
  "messages th l = map (\<lambda>(d, p). (space_msg d p, severity th p)) (filter (\<lambda>(d, p). p \<le> notice th) l)"

lemma report_entry_listing:
  assumes "good_listing (d, p)"
  shows "report_entry th (mount_entry d p) =
    Some (if p \<le> notice th then [(space_msg d p, severity th p)] else [])"
proof -
  from assms have d: "nul_free d" "length d \<le> PATH_MAX" and p: "0 \<le> p" "p \<le> 100"
    by (auto simp: good_listing_def)
  have "length (space_msg d p) < MSG_LEN"
    using d(2) fmt_percent_length [OF p] by (simp add: space_msg_def MSG_LEN_def MSG_FMT_LEN_def)
  then have "sprintf_buf MSG_LEN (space_msg d p) = Some (space_msg d p @ [0])" by (simp add: sprintf_buf_def)
  moreover have "cstr (space_msg d p @ [0]) = Some (space_msg d p)"
    by (rule cstr_terminated [OF space_msg_nul_free [OF d(1)]])
  ultimately show ?thesis by (simp add: report_entry_def mount_entry_def dbl_to_int_percent [OF p])
qed

lemma report_listings:
  "list_all good_listing l \<Longrightarrow> report th (map (\<lambda>(d, p). mount_entry d p) l) = Some (messages th l)"
  by (induction l) (auto simp: messages_def report_entry_listing)

section \<open>The loop as a machine\<close>

definition good_mounts :: "mounts \<Rightarrow> bool" where
  "good_mounts ms \<longleftrightarrow> sane_mounts ms \<and>
    (\<forall>(d, st) \<in> set ms. length d \<le> PATH_MAX \<and> valid_utf8 d \<and> 0x1F \<notin> set d)"

lemma good_mounts_listed: "good_mounts ms \<Longrightarrow> list_all good_listing (all_listed n ms)"
proof -
  assume ms: "good_mounts ms"
  have "good_listing (d, p)" if "(d, p) \<in> set (all_listed n ms)" for d p
    using all_listed_range [of ms d p n] ms that by (fastforce simp: good_mounts_def good_listing_def)
  then show ?thesis by (auto simp: list_all_iff)
qed

definition loop_start :: loop_state where
  "loop_start = \<lparr>entries = \<lparr>json_entries = JArray [], textural = bytes ''[]''\<rparr>, served = bytes ''{}''\<rparr>"

definition loop_inv :: "loop_state \<Rightarrow> bool" where
  "loop_inv st \<longleftrightarrow>
    (\<exists>l. list_all good_listing l \<and> json_entries (entries st) = JArray (map (\<lambda>(d, p). mount_entry d p) l)) \<and>
    (served st = bytes ''{}'' \<or>
      served st = textural (entries st) \<and> json_decode (served st @ [0]) = Some (Some (json_entries (entries st))))"

definition loop_step :: "loop_state \<Rightarrow> loop_state \<Rightarrow> bool" where
  "loop_step st st' \<longleftrightarrow>
    (\<exists>c c' ok ms logs. good_mounts ms \<and> check_turn c c' ok ms st = Some (st', logs))"

lemma check_turn_result:
  assumes "good_mounts ms" "list_all good_listing l" "json_entries (entries st) = JArray (map (\<lambda>(d, p). mount_entry d p) l)"
  shows "\<exists>me logs. ST_check_mtab (notice_percent c') ms = Some (me, logs) \<and>
    json_entries me = JArray (map (\<lambda>(d, p). mount_entry d p) (all_listed (notice_percent c') ms)) \<and>
    json_decode (textural me @ [0]) = Some (Some (json_entries me)) \<and>
    check_turn c c' ok ms st =
      (if ok then Some (\<lparr>entries = me, served = textural me\<rparr>, messages (thresholds_of c) l @ logs)
       else Some (st, messages (thresholds_of c) l @ [(bytes ''srv_buff->mutex locked'', ST_MSG_NOTICE)]))"
proof -
  from assms(1) have "sane_mounts ms" "\<forall>(d, st) \<in> set ms. valid_utf8 d \<and> 0x1F \<notin> set d"
    by (auto simp: good_mounts_def)
  from check_mtab_ok [OF this, of "notice_percent c'"] obtain me logs where
    "ST_check_mtab (notice_percent c') ms = Some (me, logs)"
    "json_entries me = JArray (map (\<lambda>(d, p). mount_entry d p) (all_listed (notice_percent c') ms))"
    "json_decode (textural me @ [0]) = Some (Some (json_entries me))" by blast
  with assms(3) report_listings [OF assms(2)] show ?thesis
    by (intro exI [of _ me] exI [of _ logs]) (simp add: check_turn_def del: bytes_Cons)
qed

interpretation check_loop: invariant_machine "\<lambda>st. st = loop_start" loop_step loop_inv
proof unfold_locales
  fix st assume "st = loop_start"
  then show "loop_inv st"
    by (auto simp: loop_inv_def loop_start_def intro!: exI [of _ "[]"])
next
  fix st st' assume inv: "loop_inv st" and "loop_step st st'"
  then obtain c c' ok ms logs where ms: "good_mounts ms" and t: "check_turn c c' ok ms st = Some (st', logs)"
    by (auto simp: loop_step_def)
  from inv obtain l where l: "list_all good_listing l" "json_entries (entries st) = JArray (map (\<lambda>(d, p). mount_entry d p) l)"
    by (auto simp: loop_inv_def)
  from check_turn_result [OF ms l, of c' c ok] t inv good_mounts_listed [OF ms, of "notice_percent c'"]
  show "loop_inv st'"
    by (cases ok) (auto simp: loop_inv_def simp del: bytes_Cons)
qed

lemma empty_object_decodes: "json_decode (bytes ''{}'' @ [0]) = Some (Some (JObject []))"
  by code_simp

section \<open>Properties\<close>



text \<open>The text that the server hands out is a valid JSON document at every moment between turns: the
  empty object before the first check, afterwards the list of the last check.\<close>

lemma served_is_json:
  assumes "reach (\<lambda>st. st = loop_start) loop_step st"
  shows "json_decode (served st @ [0]) = Some (Some (JObject [])) \<or>
    json_decode (served st @ [0]) = Some (Some (json_entries (entries st)))"
  using check_loop.inv_reach [OF assms] empty_object_decodes by (auto simp: loop_inv_def simp del: bytes_Cons)



end
