(* ===== verification/JsonMemory.thy ===== *)
theory JsonMemory
  imports JsonForest CheckLoop
begin

text \<open>
  What the pointer operations of the JSON library mean: the calls of a client are refined by operations on
  trees, every heap a client reaches is well formed, \<open>json_check\<close> decides well-formedness, and the search
  for a member agrees with the one on the trees the check loop is modelled with.
\<close>

section \<open>Validity\<close>

definition fits :: "scalar \<Rightarrow> byte list option \<Rightarrow> bool" where
  "fits c k \<longleftrightarrow> (if c = SArray then k = None else c = SObject \<longrightarrow> k \<noteq> None)"

lemma valid_shape_iff:
  "valid_shape t \<longleftrightarrow> (case skey t of None \<Rightarrow> True | Some s \<Rightarrow> valid_text s) \<and> (case kind t of SString s \<Rightarrow> valid_text s | _ \<Rightarrow> True) \<and>
    (\<forall>u \<in> set (kids t). fits (kind t) (skey u) \<and> valid_shape u)"
  by (cases t) (auto simp: fits_def list_all_iff)

lemma valid_key: "valid_shape t \<Longrightarrow> (case k of None \<Rightarrow> True | Some s \<Rightarrow> valid_text s) \<Longrightarrow> valid_shape (with_key k t)"
  by (simp add: valid_shape_iff [of t] valid_shape_iff [of "with_key k t"])

lemma valid_kids:
  "valid_shape s \<Longrightarrow> (\<And>u. u \<in> set (g (kids s)) \<Longrightarrow> u \<in> set (kids s) \<or> fits (kind s) (skey u) \<and> valid_shape u) \<Longrightarrow>
    valid_shape (with_kids g s)"
  by (auto simp: valid_shape_iff [of s] valid_shape_iff [of "with_kids g s"])

lemma valid_subs: "valid_shape t \<Longrightarrow> s \<in> set (subs t) \<Longrightarrow> valid_shape s"
proof (induction t)
  case (Shape a k c ts)
  then show ?case by (cases "s = Shape a k c ts") (auto simp: list_all_iff)
qed

lemma valid_update:
  assumes "valid_shape t" "\<And>s. s \<in> set (subs t) \<Longrightarrow> loc s = a \<Longrightarrow> valid_shape (f s)" "\<And>t. skey (f t) = skey t"
  shows "valid_shape (update_at a f t)"
  using assms(1,2)
proof (induction t)
  case (Shape b k c ts)
  show ?case
  proof (cases "b = a")
    case False
    have "valid_shape (update_at a f t)" if "t \<in> set ts" for t
      using Shape.IH [OF that] Shape.prems that by (auto simp: list_all_iff)
    with False Shape.prems(1) show ?thesis by (auto simp: list_all_iff update_at_skey [of f] assms(3))
  qed (use Shape.prems(2) [of "Shape b k c ts"] in simp)
qed

lemma good_string_text: "good_string p \<Longrightarrow> \<exists>s. cstr p = Some s \<and> valid_text s"
  by (auto simp: good_string_def valid_text_def cstr_Some_nul_free split: option.splits)

lemma valid_attach:
  assumes "forest h F" "list_all valid_shape F" "attachable c a e F"
    and "\<And>u. u \<in> set F \<Longrightarrow> loc u = e \<Longrightarrow> valid_shape (p u) \<and> fits c (skey (p u))"
    and "\<And>u ts. set (g u ts) = insert (p u) (set ts)"
  shows "list_all valid_shape (attach a e g F)"
proof -
  have T: "trees h F" using assms(1) by (simp add: forest_iff)
  obtain u s where us: "u \<in> set F" "loc u = e" "s \<in> set (nodes (without e F))" "loc s = a" "kind s = c"
    by (rule attachable_nodes [OF assms(1,3)])
  have "valid_shape (update_at a (with_kids (g u)) t)" if t: "t \<in> set (without e F)" for t
  proof (rule valid_update)
    show "valid_shape t" using t assms(2) by (simp add: without_def list_all_iff)
    fix r assume r: "r \<in> set (subs t)" "loc r = a"
    then have "r \<in> set (nodes (without e F))" using t by (auto simp: nodes_in)
    from nodes_unique [OF trees_without [OF T] this us(3)] r(2) us(4) have "r = s" by simp
    have "valid_shape r" using valid_subs [OF _ r(1)] t assms(2) by (simp add: without_def list_all_iff)
    then show "valid_shape (with_kids (g u) r)"
    proof (rule valid_kids)
      fix v assume "v \<in> set (g u (kids r))"
      then consider "v = p u" | "v \<in> set (kids r)" unfolding assms(5) by blast
      then show "v \<in> set (kids r) \<or> fits (kind r) (skey v) \<and> valid_shape v"
        using assms(4) [OF us(1,2)] us(5) \<open>r = s\<close> by cases simp_all
    qed
  qed simp
  with node_at_root [OF T us(1)] us(2) show ?thesis by (auto simp: attach_def list_all_iff)
qed

lemma valid_detach:
  assumes "trees h F" "list_all valid_shape F"
  shows "list_all valid_shape (detach a F)"
proof (cases "parent_of a F")
  case (Some s)
  have sub: "valid_shape (update_at (loc s) (with_kids (without a)) t)" if "t \<in> set F" for t
  proof (rule valid_update)
    show "valid_shape t" using that assms(2) by (simp add: list_all_iff)
    fix r assume "r \<in> set (subs t)"
    have "valid_shape r" by (rule valid_subs [OF \<open>valid_shape t\<close> \<open>r \<in> _\<close>])
    then show "valid_shape (with_kids (without a) r)" by (rule valid_kids) (simp add: without_def)
  qed simp
  show ?thesis
  proof (cases "node_at a F")
    case (Some u)
    then have "u \<in> set (nodes F)" by (simp add: node_at_iff [OF assms(1)])
    then have "valid_shape u" using assms(2) valid_subs by (auto simp: nodes_in list_all_iff)
    then have "valid_shape (with_key None u)" by (intro valid_key) simp_all
    with sub Some \<open>parent_of a F = Some s\<close> show ?thesis by (auto simp: detach_def list_all_iff)
  qed (use assms(2) Some in \<open>simp add: detach_def\<close>)
qed (use assms(2) in \<open>simp add: detach_def\<close>)

lemma attachable_root: "attachable c a e F \<Longrightarrow> e \<in> set (map loc F)"
  by (simp add: attachable_def)

lemma call_ok:
  "forest h F \<Longrightarrow> list_all valid_shape F \<Longrightarrow> allowed c F \<Longrightarrow>
    \<exists>h'. run_call c h = Some (Some h') \<and> forest h' (apply_call c (brk h) F) \<and> list_all valid_shape (apply_call c (brk h) F)"
proof -
  assume F: "forest h F" and V: "list_all valid_shape F" and C: "allowed c F"
  have T: "trees h F" using F by (simp add: forest_iff)
  have roots: "valid_shape u" "skey u = None" if "u \<in> set F" for u
    using that V T by (auto simp: list_all_iff trees_def)
  have keyed: "valid_shape (with_key (cstr k) u) \<and> fits SObject (cstr k)" if "good_string k" "u \<in> set F" for k u
    using good_string_text [OF that(1)] roots(1) [OF that(2)] by (auto simp: fits_def intro: valid_key)
  show ?thesis
  proof (cases c)
    case Mknull
    with mknull_forest [OF F] V show ?thesis by simp
  next
    case (Mkbool b)
    with mkbool_forest [OF F] V show ?thesis by simp
  next
    case (Mkstring p)
    with C obtain s where "cstr p = Some s" "valid_text s" using good_string_text by auto
    with mkstring_forest [OF F] V Mkstring show ?thesis by simp
  next
    case (Mknumber d)
    with mknumber_forest [OF F] V show ?thesis by simp
  next
    case Mkarray
    with mkarray_forest [OF F] V show ?thesis by simp
  next
    case Mkobject
    with mkobject_forest [OF F] V show ?thesis by simp
  next
    case (Append_element a e)
    with C have at: "attachable SArray a e F" by simp
    have "list_all valid_shape (apply_call c (brk h) F)"
      unfolding Append_element apply_call.simps
      by (rule valid_attach [OF F V at, of "\<lambda>u. u"]) (simp_all add: roots fits_def)
    with append_element_forest [OF F at] Append_element show ?thesis by blast
  next
    case (Prepend_element a e)
    with C have at: "attachable SArray a e F" by simp
    have "list_all valid_shape (apply_call c (brk h) F)"
      unfolding Prepend_element apply_call.simps
      by (rule valid_attach [OF F V at, of "\<lambda>u. u"]) (simp_all add: roots fits_def)
    with prepend_element_forest [OF F at] Prepend_element show ?thesis by blast
  next
    case (Append_member a k e)
    with C have at: "attachable SObject a e F" and k: "good_string k" by simp_all
    from good_string_text [OF k] obtain s where "cstr k = Some s" by blast
    moreover have "list_all valid_shape (apply_call c (brk h) F)"
      unfolding Append_member apply_call.simps
      by (rule valid_attach [OF F V at, of "with_key (cstr k)"]) (simp_all add: keyed k)
    ultimately show ?thesis using append_member_forest [OF F at] Append_member by blast
  next
    case (Prepend_member a k e)
    with C have at: "attachable SObject a e F" and k: "good_string k" by simp_all
    from good_string_text [OF k] obtain s where "cstr k = Some s" by blast
    moreover have "list_all valid_shape (apply_call c (brk h) F)"
      unfolding Prepend_member apply_call.simps
      by (rule valid_attach [OF F V at, of "with_key (cstr k)"]) (simp_all add: keyed k)
    ultimately show ?thesis using prepend_member_forest [OF F at] Prepend_member by blast
  next
    case (Remove a)
    with C obtain u where "node_at a F = Some u" by auto
    from detach_ok [OF F this] valid_detach [OF T V] Remove show ?thesis by auto
  next
    case (Delete a)
    with C obtain u where "node_at a F = Some u" by auto
    from delete_forest [OF F this] valid_detach [OF T V, of a] Delete show ?thesis by (auto simp: without_def list_all_iff)
  qed
qed

text \<open>C17: Calls on nodes are operations on trees. Where the memory holds the client's trees and nothing else, and
  they are valid, every call the header allows (making a node, appending or prepending an element or a member,
  removing, deleting, at any depth) passes its assertions, follows no NULL or freed pointer, and leaves a
  memory that holds just the trees the call describes, valid again: no node is lost and none is left behind.\<close>

theorem calls_refine:
  "forest h F \<Longrightarrow> list_all valid_shape F \<Longrightarrow> allowed c F \<Longrightarrow>
    \<exists>h'. run_call c h = Some (Some h') \<and> forest h' (apply_call c (brk h) F) \<and> list_all valid_shape (apply_call c (brk h) F)"
  by (rule call_ok)

text \<open>An array and a null, not linked yet.\<close>

definition two_nodes :: heap where
  "two_nodes = \<lparr>cells = [0 \<mapsto> zero_node\<lparr>tag := JSON_ARRAY\<rparr>, 1 \<mapsto> zero_node], brk = 2\<rparr>"

lemma two_nodes_forest: "forest two_nodes [Shape 0 None SArray [], Shape 1 None SNull []]"
  by (auto simp: forest_def two_nodes_def stored.simps linked_def holds_kind_def zero_node_def container_def json_tags less_Suc_eq)

lemma two_nodes_allowed: "allowed (Append_element 0 1) [Shape 0 None SArray [], Shape 1 None SNull []]"
  by (simp add: attachable_def node_at_def without_def nodes_def)

theorem calls_refine_witness:
  "\<exists>h'. run_call (Append_element 0 1) two_nodes = Some (Some h') \<and> forest h' [Shape 0 None SArray [Shape 1 None SNull []]]"
  using calls_refine [OF two_nodes_forest _ two_nodes_allowed]
  by (auto simp: attach_def node_at_def without_def with_kids_def)

section \<open>Whatever a client does\<close>

definition empty_heap :: heap where
  "empty_heap = \<lparr>cells = (\<lambda>_. None), brk = 0\<rparr>"

text \<open>A client that starts with no node and makes allowed calls, with the trees it should then hold.\<close>

inductive client :: "heap \<Rightarrow> shape list \<Rightarrow> bool" where
  client_start: "client empty_heap []"
| client_call: "client h F \<Longrightarrow> allowed c F \<Longrightarrow> run_call c h = Some (Some h') \<Longrightarrow> client h' (apply_call c (brk h) F)"

lemma client_forest: "client h F \<Longrightarrow> forest h F \<and> list_all valid_shape F"
proof (induction rule: client.induct)
  case client_start
  show ?case by (simp add: forest_def empty_heap_def)
next
  case (client_call h F c h')
  with call_ok [of h F c] show ?case by auto
qed

lemma forest_checked:
  assumes "forest h F" "list_all valid_shape F" "t \<in> set F"
  shows "json_check (2 * brk h) (Some (loc t)) h = Some (Inr ())"
proof -
  have st: "stored h None None None t" using assms(1,3) trees_stored [of h F t] by (simp add: forest_iff)
  show ?thesis
    by (rule check_ok [OF st _ stored_distinct [OF st]])
      (use assms forest_small [OF assms(1,3)] in \<open>auto simp: list_all_iff\<close>)
qed

text \<open>C18: Whatever sequence of allowed calls a client makes, from a memory without nodes, its pointers are in order:
  the memory holds the trees of the client and nothing else, every parent, sibling and child pointer in place,
  and \<open>json_check\<close> finds no problem in any of them.\<close>

theorem client_well_formed:
  "client h F \<Longrightarrow> forest h F \<and> list_all (\<lambda>t. json_check (2 * brk h) (Some (loc t)) h = Some (Inr ())) F"
  using client_forest [of h F] forest_checked [of h F] by (simp add: list_all_iff)

text \<open>A client that made an array and a null and put the one into the other.\<close>

definition linked_nodes :: heap where
  "linked_nodes = \<lparr>cells = [0 \<mapsto> zero_node\<lparr>tag := JSON_ARRAY, head := Some 1, tail := Some 1\<rparr>, 1 \<mapsto> zero_node\<lparr>parent := Some 0\<rparr>], brk = 2\<rparr>"

lemma linked_nodes_client: "client linked_nodes [Shape 0 None SArray [Shape 1 None SNull []]]"
proof -
  let ?h = "\<lparr>cells = [0 \<mapsto> zero_node\<lparr>tag := JSON_ARRAY\<rparr>], brk = 1\<rparr>"
  have "client ?h [Shape 0 None SArray []]"
    using client_call [OF client_start, of Mkarray] by (simp add: mk_defs empty_heap_def)
  then have "client two_nodes [Shape 0 None SArray [], Shape 1 None SNull []]"
    using client_call [of _ _ Mknull two_nodes] by (fastforce simp: mk_defs two_nodes_def JSON_NULL_def)
  moreover have "run_call (Append_element 0 1) two_nodes = Some (Some linked_nodes)"
    by (simp add: json_append_element_def asserts_def append_node_def modify_def cell_def two_nodes_def linked_nodes_def zero_node_def json_tags fun_upd_twist)
  ultimately show ?thesis
    using client_call [OF _ two_nodes_allowed]
    by (fastforce simp: attach_def node_at_def without_def with_kids_def)
qed

theorem client_well_formed_witness:
  "forest linked_nodes [Shape 0 None SArray [Shape 1 None SNull []]] \<and> json_check 4 (Some 0) linked_nodes = Some (Inr ())"
  using client_well_formed [OF linked_nodes_client] by (simp add: linked_nodes_def del: json_check.simps)

text \<open>C22: \<open>json_check\<close> decides well-formedness: it ends and finds no problem at a node exactly when the nodes
  reached from it are a tree in memory (each child's parent, the siblings' links both ways, the first and the
  last child) with its strings in UTF-8, keys on the members of objects and on no element of an array.\<close>

theorem check_exact:
  "texts_ok h \<Longrightarrow>
    (\<exists>fuel. json_check fuel (Some a) h = Some (Inr ())) = (\<exists>t par prv nx. loc t = a \<and> stored h par prv nx t \<and> valid_shape t)"
proof
  assume h: "texts_ok h" and "\<exists>fuel. json_check fuel (Some a) h = Some (Inr ())"
  then obtain f where f: "json_check f (Some a) h = Some (Inr ())" by blast
  then obtain n where "cells h a = Some n" by (cases f) (auto simp: cell_def bind_eq_Some_conv)
  with conjunct1 [OF check_sound [OF h, of f]] f show "\<exists>t par prv nx. loc t = a \<and> stored h par prv nx t \<and> valid_shape t" by blast
next
  assume "\<exists>t par prv nx. loc t = a \<and> stored h par prv nx t \<and> valid_shape t"
  then obtain t par prv nx where t: "loc t = a" "stored h par prv nx t" "valid_shape t" by blast
  from check_ok [OF t(2,3) stored_distinct [OF t(2)] order_refl] t(1)
  show "\<exists>fuel. json_check fuel (Some a) h = Some (Inr ())" by blast
qed

theorem check_exact_witness:
  "(\<exists>fuel. json_check fuel (Some 0) linked_nodes = Some (Inr ())) =
    (\<exists>t par prv nx. loc t = 0 \<and> stored linked_nodes par prv nx t \<and> valid_shape t)"
  by (rule check_exact) (simp add: texts_ok_def linked_nodes_def zero_node_def)

section \<open>Searching\<close>

text \<open>The value a tree in memory stands for.\<close>

fun value_of :: "shape \<Rightarrow> json" where
  "value_of (Shape a k SNull ts) = JNull"
| "value_of (Shape a k (SBool b) ts) = JBool b"
| "value_of (Shape a k (SString s) ts) = JString s"
| "value_of (Shape a k (SNumber d) ts) = JNumber d"
| "value_of (Shape a k SArray ts) = JArray (map value_of ts)"
| "value_of (Shape a k SObject ts) = JObject (map (\<lambda>t. (the (skey t), value_of t)) ts)"

lemma member_loop_ok:
  "siblings h par prv None ts \<Longrightarrow> \<forall>t \<in> set ts. skey t \<noteq> None \<Longrightarrow>
    member_loop h (first_or ts None) name = Some (map_option loc (find (\<lambda>t. the (skey t) = name) ts))"
proof (induction ts arbitrary: prv)
  case Nil
  show ?case by (subst member_loop.simps) simp
next
  case (Cons t ts)
  obtain n k where n: "cells h (loc t) = Some n" "nxt n = first_or ts None" "node_key n = Some k" "skey t = Some k"
    using Cons.prems by (auto simp: stored_root root_def linked_def)
  with Cons.IH [of "Some (loc t)"] Cons.prems show ?case by (subst member_loop.simps) (simp add: cell_def)
qed

lemma find_key_find:
  "find_key (map (\<lambda>t. (the (skey t), value_of t)) ts) name = map_option value_of (find (\<lambda>t. the (skey t) = name) ts)"
  by (induction ts) simp_all

lemma find_in: "find P ts = None \<or> the (find P ts) \<in> set ts"
  by (induction ts) auto

text \<open>Walking the member pointers is looking up a key: on a valid tree in memory, of whatever kind,
  \<open>json_find_member\<close> returns, without following a bad pointer, the child whose value the lookup on trees finds,
  or NULL where there is none.\<close>

lemma find_member_agrees:
  "stored h par prv nx t \<Longrightarrow> valid_shape t \<Longrightarrow>
    \<exists>r. find_member (Some (loc t)) name h = Some (map_option loc r) \<and> json_find_member (value_of t) name = map_option value_of r \<and>
      (r = None \<or> the r \<in> set (kids t))"
proof -
  assume st: "stored h par prv nx t" and v: "valid_shape t"
  obtain n where n: "cells h (loc t) = Some n" "holds_kind n (kind t) (kids t)" "siblings h (Some (loc t)) None None (kids t)"
    using st by (auto simp: stored_root root_def)
  show ?thesis
  proof (cases "kind t = SObject")
    case False
    then have "tag n \<noteq> JSON_OBJECT" using n(2) by (cases "kind t") (simp_all add: holds_kind_def json_tags)
    moreover have "json_find_member (value_of t) name = None" using False by (cases t; cases "kind t") auto
    ultimately show ?thesis using n(1) by (intro exI [of _ None]) (simp add: find_member_def cell_def)
  next
    case True
    obtain a k ts where t: "t = Shape a k SObject ts" using True by (cases t) simp
    have hd: "tag n = JSON_OBJECT" "head n = first_or ts None" using n(2) by (simp_all add: t holds_kind_def container_def)
    have keys: "\<forall>t \<in> set ts. skey t \<noteq> None" using v by (simp add: t list_all_iff)
    let ?r = "find (\<lambda>t. the (skey t) = name) ts"
    have "find_member (Some (loc t)) name h = Some (map_option loc ?r)"
      using n(1,3) hd member_loop_ok [OF _ keys] by (simp add: t find_member_def json_first_child_def cell_def)
    moreover have "json_find_member (value_of t) name = map_option value_of ?r" by (simp add: t find_key_find)
    moreover have "?r = None \<or> the ?r \<in> set (kids t)" using find_in [of _ ts] by (simp add: t)
    ultimately show ?thesis by blast
  qed
qed

lemma element_loop_ok:
  assumes "siblings h par prv None ts" "0 \<le> i" "i + int (length ts) < 2 ^ 31" "i \<le> index"
  shows "element_loop h (first_or ts None) index i = Some (if nat (index - i) < length ts then Some (loc (ts ! nat (index - i))) else None)"
  using assms
proof (induction ts arbitrary: prv i)
  case Nil
  show ?case by (subst element_loop.simps) simp
next
  case (Cons t ts)
  obtain n where n: "cells h (loc t) = Some n" "nxt n = first_or ts None"
    using Cons.prems by (auto simp: stored_root root_def linked_def)
  show ?case
  proof (cases "i = index")
    case True
    then show ?thesis by (subst element_loop.simps) simp
  next
    case False
    have "nat (index - i) = Suc (nat (index - (i + 1)))" using False Cons.prems(4) by simp
    with False n Cons.IH [of "Some (loc t)" "i + 1"] Cons.prems show ?thesis
      by (subst element_loop.simps) (simp add: cell_def)
  qed
qed

text \<open>The element at an index, where an array has fewer elements than an \<open>int\<close> can count.\<close>

lemma find_element_ok:
  assumes "stored h par prv nx t" "kind t = SArray" "length (kids t) < 2 ^ 31" "0 \<le> index"
  shows "json_find_element (Some (loc t)) index h =
    Some (if nat index < length (kids t) then Some (loc (kids t ! nat index)) else None)"
proof -
  obtain n where n: "cells h (loc t) = Some n" "holds_kind n SArray (kids t)" "siblings h (Some (loc t)) None None (kids t)"
    using assms(1,2) by (auto simp: stored_root root_def)
  then show ?thesis
    using element_loop_ok [OF n(3), of 0 index] assms(3,4)
    by (simp add: json_find_element_def json_first_child_def cell_def holds_kind_def container_def)
qed

end
