(* ===== verification/JsonBuild.thy ===== *)
theory JsonBuild
  imports JsonMemory
begin

text \<open>
  The decoder of \<open>src/util/json.c\<close> with its output in memory: \<open>parse_value\<close> and the two container parsers
  make nodes, link them, and delete what they have built where they fail. It does to the heap what the
  decoder of \<open>JsonParse\<close> does with values.
\<close>

section \<open>The code\<close>

type_synonym builder = "byte list \<Rightarrow> heap \<Rightarrow> (nat presult \<times> heap) option"

text \<open>The label \<open>failure\<close>: the container is deleted with what it holds.\<close>

definition failure :: "nat \<Rightarrow> heap \<Rightarrow> (nat presult \<times> heap) option" where
  "failure ret h = do { h \<leftarrow> json_delete (2 * brk h) (Some ret) h; Some (Rejected, h) }"

definition success :: "nat \<Rightarrow> byte list \<Rightarrow> heap \<Rightarrow> (nat presult \<times> heap) option" where
  "success ret s h = Some (Parsed ret s, h)"

text \<open>An assertion of \<open>json_append_element\<close> that fails ends the process: there is no result.\<close>

partial_function (option) build_elements :: "builder \<Rightarrow> nat \<Rightarrow> builder" where
  "build_elements pv ret s h = do {
     (r, h) \<leftarrow> pv s h;
     case r of
       Rejected \<Rightarrow> failure ret h
     | Parsed element s \<Rightarrow> do {
         s \<leftarrow> skip_space s;
         h \<leftarrow> json_append_element (Some ret) (Some element) h;
         h \<leftarrow> h;
         c \<leftarrow> deref s;
         if c = 0x5D then success ret (tl s) h
         else if c \<noteq> 0x2C then failure ret h
         else do {
           s \<leftarrow> skip_space (tl s);
           build_elements pv ret s h } } }"

definition build_array :: "builder \<Rightarrow> builder" where
  "build_array pv s h = (let (h, ret) = json_mkarray h in do {
     c \<leftarrow> deref s;
     if c \<noteq> 0x5B then failure ret h
     else do {
       s \<leftarrow> skip_space (tl s);
       c \<leftarrow> deref s;
       if c = 0x5D then success ret (tl s) h
       else build_elements pv ret s h } })"

text \<open>A key that is not used is released; nothing else points to it.\<close>

partial_function (option) build_members :: "builder \<Rightarrow> nat \<Rightarrow> builder" where
  "build_members pv ret s h = do {
     r \<leftarrow> parse_string True s;
     case r of
       Rejected \<Rightarrow> failure ret h
     | Parsed key s \<Rightarrow> do {
         s \<leftarrow> skip_space s;
         c \<leftarrow> deref s;
         if c \<noteq> 0x3A then failure ret h
         else do {
           s \<leftarrow> skip_space (tl s);
           (r, h) \<leftarrow> pv s h;
           case r of
             Rejected \<Rightarrow> failure ret h
           | Parsed v s \<Rightarrow> do {
               s \<leftarrow> skip_space s;
               h \<leftarrow> append_member (Some ret) key (Some v) h;
               c \<leftarrow> deref s;
               if c = 0x7D then success ret (tl s) h
               else if c \<noteq> 0x2C then failure ret h
               else do {
                 s \<leftarrow> skip_space (tl s);
                 build_members pv ret s h } } } } }"

definition build_object :: "builder \<Rightarrow> builder" where
  "build_object pv s h = (let (h, ret) = json_mkobject h in do {
     c \<leftarrow> deref s;
     if c \<noteq> 0x7B then failure ret h
     else do {
       s \<leftarrow> skip_space (tl s);
       c \<leftarrow> deref s;
       if c = 0x7D then success ret (tl s) h
       else build_members pv ret s h } })"

text \<open>A value without children: scanned, then put into a node.\<close>

definition build_leaf :: "'a presult option \<Rightarrow> ('a \<Rightarrow> heap \<Rightarrow> (heap \<times> nat) option) \<Rightarrow> heap \<Rightarrow> (nat presult \<times> heap) option" where
  "build_leaf scan mk h = do {
     r \<leftarrow> scan;
     case r of
       Rejected \<Rightarrow> Some (Rejected, h)
     | Parsed v s \<Rightarrow> do { (h, a) \<leftarrow> mk v h; success a s h } }"

fun build_value :: "nat \<Rightarrow> builder" where
  "build_value 0 s h = None"
| "build_value (Suc n) s h = do {
     c \<leftarrow> deref s;
     if c = 0x6E then build_leaf (expect_literal (bytes ''null'') s) (\<lambda>_ h. Some (json_mknull h)) h
     else if c = 0x66 then build_leaf (expect_literal (bytes ''false'') s) (\<lambda>_. json_mkbool False) h
     else if c = 0x74 then build_leaf (expect_literal (bytes ''true'') s) (\<lambda>_. json_mkbool True) h
     else if c = 0x22 then build_leaf (parse_string True s) mkstring h
     else if c = 0x5B then build_array (build_value n) s h
     else if c = 0x7B then build_object (build_value n) s h
     else build_leaf (parse_number s) json_mknumber h }"

definition json_decode_nodes :: "byte list \<Rightarrow> heap \<Rightarrow> (ptr \<times> heap) option" where
  "json_decode_nodes json h = do {
     s \<leftarrow> skip_space json;
     (r, h) \<leftarrow> build_value (Suc (length s)) s h;
     case r of
       Rejected \<Rightarrow> Some (None, h)
     | Parsed ret s \<Rightarrow> do {
         s \<leftarrow> skip_space s;
         c \<leftarrow> deref s;
         if c \<noteq> 0 then do { h \<leftarrow> json_delete (2 * brk h) (Some ret) h; Some (None, h) }
         else Some (Some ret, h) } }"

section \<open>A tree beside the others\<close>

lemma forest_snoc:
  assumes "forest h (F @ [t])"
  shows "trees h (F @ [t])" "stored h None None None t" "skey t = None" "loc t \<notin> space F" "distinct (addrs t)"
proof -
  show T: "trees h (F @ [t])" using assms by (simp add: forest_iff)
  then show st: "stored h None None None t" and "skey t = None" by (simp_all add: trees_def)
  show "distinct (addrs t)" by (rule stored_distinct [OF st])
  show "loc t \<notin> space F"
  proof
    assume "loc t \<in> space F"
    then obtain u where u: "u \<in> set F" "loc t \<in> set (addrs u)" by (auto simp: space_def)
    have "t \<noteq> u" using T u(1) by (auto simp: trees_def)
    from roots_disjoint [OF T _ _ this] u loc_in [of t] show False by auto
  qed
qed

lemma delete_last:
  assumes "forest h (F @ [t])"
  shows "\<exists>h'. json_delete (2 * brk h) (Some (loc t)) h = Some h' \<and> forest h' F"
proof -
  note T = forest_snoc [OF assms]
  have n: "node_at (loc t) (F @ [t]) = Some t" by (rule node_at_root [OF T(1)]) simp
  have "parent_of (loc t) (F @ [t]) = None"
  proof (rule ccontr)
    assume "parent_of (loc t) (F @ [t]) \<noteq> None"
    then obtain w where w: "parent_of (loc t) (F @ [t]) = Some w" by blast
    then obtain u where u: "w \<in> set (nodes (F @ [t]))" "u \<in> set (kids w)" "loc u = loc t" using parent_of_Some by blast
    obtain p q r where "stored h p q r w" using nodes_stored [OF T(1) u(1)] by blast
    from kid_stored [OF this u(2)] obtain x y where "stored h (Some (loc w)) x y u" by blast
    with stored_node [OF this] stored_node [OF T(2)] u(3) show False by auto
  qed
  then have d: "detach (loc t) (F @ [t]) = F @ [t]" by (simp add: detach_def)
  have "loc u \<noteq> loc t" if "u \<in> set F" for u using T(1) that by (auto simp: trees_def image_iff)
  then have "filter (\<lambda>u. loc u \<noteq> loc t) F = F" by (auto simp: filter_id_conv)
  then have "without (loc t) (F @ [t]) = F" by (simp add: without_def)
  with delete_forest [OF assms n] d show ?thesis by auto
qed

lemma attach_last:
  assumes "forest h (F @ A # t # G)"
  shows "attach (loc A) (loc t) g (F @ A # t # G) = F @ with_kids (g t) A # G"
    and "A \<in> set (nodes (without (loc t) (F @ A # t # G)))" "attachable (kind A) (loc A) (loc t) (F @ A # t # G)"
proof -
  have T: "trees h (F @ A # t # G)" using assms by (simp add: forest_iff)
  have nt: "node_at (loc t) (F @ A # t # G) = Some t" by (rule node_at_root [OF T]) simp
  have l: "loc u \<noteq> loc t" "loc u \<noteq> loc A" if "u \<in> set F \<union> set G" for u
    using T that by (auto simp: trees_def image_iff)
  have lA: "loc A \<noteq> loc t" using T by (auto simp: trees_def)
  have "filter (\<lambda>u. loc u \<noteq> loc t) F = F" "filter (\<lambda>u. loc u \<noteq> loc t) G = G" using l by (auto simp: filter_id_conv)
  then have w: "without (loc t) (F @ A # t # G) = F @ A # G" using lA by (simp add: without_def)
  have "update_at (loc A) f u = u" if "u \<in> set F \<union> set G" for u f
  proof (rule update_at_outside)
    have "A \<noteq> u" using l that by blast
    from roots_disjoint [OF T _ _ this] that loc_in [of A] show "loc A \<notin> set (addrs u)" by auto
  qed
  then have "map (update_at (loc A) f) F = F" "map (update_at (loc A) f) G = G" for f by (simp_all add: map_idI)
  moreover have "update_at (loc A) f A = f A" for f by (cases A) simp
  ultimately show "attach (loc A) (loc t) g (F @ A # t # G) = F @ with_kids (g t) A # G" by (simp add: attach_def nt w)
  show "A \<in> set (nodes (without (loc t) (F @ A # t # G)))" using subs_self by (simp add: w)
  have "trees h (F @ A # G)" using trees_without [OF T, of "loc t"] w by simp
  then have "node_at (loc A) (F @ A # G) = Some A" by (rule node_at_root) simp
  then show "attachable (kind A) (loc A) (loc t) (F @ A # t # G)" by (simp add: attachable_def w)
qed

lemma append_last:
  assumes "forest h (F @ [A, t])" "kind A = SArray"
  shows "\<exists>h'. json_append_element (Some (loc A)) (Some (loc t)) h = Some (Some h') \<and> forest h' (F @ [with_kids (\<lambda>ts. ts @ [t]) A])"
  using append_element_forest [OF assms(1) attach_last(3) [OF assms(1), unfolded assms(2)]] attach_last(1) [OF assms(1)]
  by auto

lemma append_member_last:
  assumes "forest h (F @ [A, t])" "kind A = SObject"
  shows "\<exists>h'. append_member (Some (loc A)) k (Some (loc t)) h = Some h' \<and>
    forest h' (F @ [with_kids (\<lambda>ts. ts @ [with_key (Some k) t]) A])"
proof -
  have T: "trees h (F @ [A, t])" using assms(1) by (simp add: forest_iff)
  then obtain n m where n: "root h A n" and m: "root h t m" by (auto simp: trees_def stored_root)
  have "A \<noteq> t" using T by (auto simp: trees_def)
  from roots_disjoint [OF T _ _ this] have "distinct (addrs A @ addrs t)"
    using stored_distinct [OF trees_stored [OF T]] by simp
  moreover have "container (kind A)" using assms(2) by (simp add: container_def)
  ultimately show ?thesis
    using at_end.link_forest [OF assms(1) _ attach_last(2) [OF assms(1)] _ n m _ refl, of "Some k"] m
      attach_last(1) [OF assms(1), of "\<lambda>u ts. ts @ [with_key (Some k) u]"]
    by (auto simp: append_member_def modify_def root_def)
qed

section \<open>Interface: a parser and its builder\<close>

text \<open>
  The builder mirrors the parser: beside the trees of the heap it makes the tree whose value the parser
  returns, or, where the parser rejects the text, leaves the heap with the trees it held.
\<close>

definition mirrors :: "shape list \<Rightarrow> json presult option \<Rightarrow> (nat presult \<times> heap) option \<Rightarrow> bool" where
  "mirrors F r q \<longleftrightarrow> (r = Some Rejected \<and> (\<exists>h'. q = Some (Rejected, h') \<and> forest h' F)) \<or>
    (\<exists>v m' h' t. r = Some (Parsed v m') \<and> q = Some (Parsed (loc t) m', h') \<and> forest h' (F @ [t]) \<and> value_of t = v \<and> valid_shape t)"

lemma mirrors_parsed:
  "forest h (F @ [t]) \<Longrightarrow> value_of t = v \<Longrightarrow> valid_shape t \<Longrightarrow> loc t = a \<Longrightarrow> mirrors F (Some (Parsed v m)) (success a m h)"
  by (auto simp: mirrors_def success_def)

lemma failure_mirrors: "forest h (F @ [t]) \<Longrightarrow> loc t = a \<Longrightarrow> mirrors F (Some Rejected) (failure a h)"
  using delete_last by (fastforce simp: mirrors_def failure_def)

lemma value_of_container:
  "kind t = SArray \<Longrightarrow> value_of t = JArray (map value_of (kids t))"
  "kind t = SObject \<Longrightarrow> value_of t = JObject (map (\<lambda>u. (the (skey u), value_of u)) (kids t))"
  by (cases t; simp)+

lemma value_of_key: "value_of (with_key k t) = value_of t"
  by (cases t; cases "kind t") (auto simp: with_key_def)

lemma space_then:
  assumes "0 \<in> set m"
  obtains c s where "skip_space m = Some (c # s)" "0 \<in> set (c # s)" "length (c # s) \<le> length m"
proof -
  from skip_space_terminated [OF assms] obtain k m1 where s: "skip_space m = Some m1" "m = k @ m1" "0 \<in> set m1" by blast
  then obtain c s where "m1 = c # s" by (cases m1) auto
  with s that show thesis by simp
qed

locale node_builder =
  fixes pv :: "json scanner" and bv :: builder and N :: nat
  assumes value_mirrors: "0 \<in> set m \<Longrightarrow> length m \<le> N \<Longrightarrow> forest h F \<Longrightarrow> mirrors F (pv m) (bv m h)"
    and value_shorter: "0 \<in> set m \<Longrightarrow> length m \<le> N \<Longrightarrow> pv m = Some (Parsed v m') \<Longrightarrow> 0 \<in> set m' \<and> length m' < length m"
begin

lemma elements_mirror:
  "0 \<in> set m \<Longrightarrow> length m \<le> N \<Longrightarrow> forest h (F @ [A]) \<Longrightarrow> kind A = SArray \<Longrightarrow> valid_shape A \<Longrightarrow>
    map value_of (kids A) = acc \<Longrightarrow>
    mirrors F (built True JArray (parse_elements pv acc m)) (build_elements bv (loc A) m h)"
proof (induction m arbitrary: acc A h rule: length_induct)
  case (1 m)
  note p = "1.prems"
  from value_mirrors [OF p(1-3)] consider
      h1 where "pv m = Some Rejected" "bv m h = Some (Rejected, h1)" "forest h1 (F @ [A])"
    | v m1 h1 t where "pv m = Some (Parsed v m1)" "bv m h = Some (Parsed (loc t) m1, h1)" "forest h1 (F @ [A, t])"
        "value_of t = v" "valid_shape t"
    by (auto simp: mirrors_def)
  then show ?case
  proof cases
    case 1
    have "build_elements bv (loc A) m h = failure (loc A) h1" by (subst build_elements.simps) (simp add: 1)
    moreover have "built True JArray (parse_elements pv acc m) = Some Rejected"
      by (subst parse_elements.simps) (simp add: 1 built_def)
    ultimately show ?thesis using failure_mirrors [OF 1(3) refl] by simp
  next
    case (2 v m1 h1 t)
    have m1: "0 \<in> set m1" "length m1 < length m" using value_shorter [OF p(1,2) 2(1)] by simp_all
    obtain c s where s: "skip_space m1 = Some (c # s)" "0 \<in> set (c # s)" "length (c # s) \<le> length m1" by (rule space_then [OF m1(1)])
    let ?A = "with_kids (\<lambda>ts. ts @ [t]) A"
    obtain h2 where h2: "json_append_element (Some (loc A)) (Some (loc t)) h1 = Some (Some h2)" "forest h2 (F @ [?A])"
      using append_last [OF 2(3) p(4)] by blast
    have key: "skey t = None" using forest_snoc(3) [of h1 "F @ [A]" t] 2(3) by simp
    have A: "kind ?A = SArray" "map value_of (kids ?A) = acc @ [v]" using p(4,6) 2(4) by simp_all
    have vA: "valid_shape ?A" by (rule valid_kids [OF p(5)]) (use key 2(5) p(4) in \<open>auto simp: fits_def\<close>)
    have L: "parse_elements pv acc m = (if c = 0x5D then Some (Parsed (acc @ [v]) s) else if c \<noteq> 0x2C then Some Rejected
        else do { s \<leftarrow> skip_space s; parse_elements pv (acc @ [v]) s })"
      by (subst parse_elements.simps) (simp add: 2(1) s(1))
    have R: "build_elements bv (loc A) m h = (if c = 0x5D then success (loc A) s h2 else if c \<noteq> 0x2C then failure (loc A) h2
        else do { s \<leftarrow> skip_space s; build_elements bv (loc A) s h2 })"
      by (subst build_elements.simps) (simp add: 2(2) s(1) h2(1))
    consider "c = 0x5D" | "c \<noteq> 0x5D" "c \<noteq> 0x2C" | "c = 0x2C" by blast
    then show ?thesis
    proof cases
      case a: 1
      show ?thesis unfolding L R
        using mirrors_parsed [OF h2(2) _ vA] A by (simp add: a built_def value_of_container)
    next
      case b: 2
      show ?thesis unfolding L R using failure_mirrors [OF h2(2)] b by (simp add: built_def)
    next
      case d: 3
      then have "0 \<in> set s" using s(2) by simp
      then obtain c' s' where s': "skip_space s = Some (c' # s')" "0 \<in> set (c' # s')" "length (c' # s') \<le> length s" by (rule space_then)
      have len: "length (c' # s') < length m" "length (c' # s') \<le> N" using s'(3) s(3) m1(2) p(2) by simp_all
      have "mirrors F (built True JArray (parse_elements pv (acc @ [v]) (c' # s'))) (build_elements bv (loc ?A) (c' # s') h2)"
        by (rule "1.IH" [rule_format, OF len(1) s'(2) len(2) h2(2) A(1) vA A(2)])
      with d s' show ?thesis unfolding L R by simp
    qed
  qed
qed

lemma members_mirror:
  "0 \<in> set m \<Longrightarrow> length m \<le> N \<Longrightarrow> forest h (F @ [A]) \<Longrightarrow> kind A = SObject \<Longrightarrow> valid_shape A \<Longrightarrow>
    map (\<lambda>u. (the (skey u), value_of u)) (kids A) = acc \<Longrightarrow>
    mirrors F (built True JObject (parse_members pv (parse_string True) acc m)) (build_members bv (loc A) m h)"
proof (induction m arbitrary: acc A h rule: length_induct)
  case (1 m)
  note p = "1.prems"
  from parse_string_ok [OF p(1)] consider "parse_string True m = Some Rejected"
    | key k m1 where "parse_string True m = Some (Parsed key m1)" "m = k @ m1" "k \<noteq> []" "nul_free k" "valid_utf8 key" by blast
  then show ?case
  proof cases
    case 1
    have "build_members bv (loc A) m h = failure (loc A) h" by (subst build_members.simps) (simp add: 1)
    moreover have "built True JObject (parse_members pv (parse_string True) acc m) = Some Rejected"
      by (subst parse_members.simps) (simp add: 1 built_def)
    ultimately show ?thesis using failure_mirrors [OF p(3) refl] by simp
  next
    case (2 key k m1)
    have m1: "0 \<in> set m1" "length m1 < length m" using 2(2-4) p(1) by (auto simp: nul_free_def)
    have vtxt: "valid_text key" using 2(5) valid_utf8_nul_free by (simp add: valid_text_def)
    obtain c s where s: "skip_space m1 = Some (c # s)" "0 \<in> set (c # s)" "length (c # s) \<le> length m1" by (rule space_then [OF m1(1)])
    show ?thesis
    proof (cases "c = 0x3A")
      case False
      have "build_members bv (loc A) m h = failure (loc A) h" by (subst build_members.simps) (simp add: 2(1) s(1) False)
      moreover have "built True JObject (parse_members pv (parse_string True) acc m) = Some Rejected"
        by (subst parse_members.simps) (simp add: 2(1) s(1) False built_def)
      ultimately show ?thesis using failure_mirrors [OF p(3) refl] by simp
    next
      case c: True
      then have "0 \<in> set s" using s(2) by simp
      then obtain c1 s1 where s1: "skip_space s = Some (c1 # s1)" "0 \<in> set (c1 # s1)" "length (c1 # s1) \<le> length s" by (rule space_then)
      define m2 where "m2 = c1 # s1"
      have m2: "skip_space s = Some m2" "0 \<in> set m2" "length m2 < length m" "length m2 \<le> N"
        using s1 s(3) m1(2) p(2) by (simp_all add: m2_def)
      from value_mirrors [OF m2(2,4) p(3)] consider
          h1 where "pv m2 = Some Rejected" "bv m2 h = Some (Rejected, h1)" "forest h1 (F @ [A])"
        | v m3 h1 t where "pv m2 = Some (Parsed v m3)" "bv m2 h = Some (Parsed (loc t) m3, h1)" "forest h1 (F @ [A, t])"
            "value_of t = v" "valid_shape t"
        by (auto simp: mirrors_def)
      then show ?thesis
      proof cases
        case r: 1
        have "build_members bv (loc A) m h = failure (loc A) h1"
          by (subst build_members.simps) (simp add: 2(1) s(1) c m2(1) r)
        moreover have "built True JObject (parse_members pv (parse_string True) acc m) = Some Rejected"
          by (subst parse_members.simps) (simp add: 2(1) s(1) c m2(1) r built_def)
        ultimately show ?thesis using failure_mirrors [OF r(3) refl] by simp
      next
        case v: (2 v m3 h1 t)
        have m3: "0 \<in> set m3" "length m3 < length m2" using value_shorter [OF m2(2,4) v(1)] by simp_all
        obtain d r where r: "skip_space m3 = Some (d # r)" "0 \<in> set (d # r)" "length (d # r) \<le> length m3" by (rule space_then [OF m3(1)])
        let ?A = "with_kids (\<lambda>ts. ts @ [with_key (Some key) t]) A"
        obtain h2 where h2: "append_member (Some (loc A)) key (Some (loc t)) h1 = Some h2" "forest h2 (F @ [?A])"
          using append_member_last [OF v(3) p(4)] by blast
        have A: "kind ?A = SObject" "map (\<lambda>u. (the (skey u), value_of u)) (kids ?A) = acc @ [(key, v)]"
          using p(4,6) v(4) by (simp_all add: value_of_key)
        have vt: "valid_shape (with_key (Some key) t)" by (rule valid_key [OF v(5)]) (simp add: vtxt)
        have vA: "valid_shape ?A" by (rule valid_kids [OF p(5)]) (use vt p(4) in \<open>auto simp: fits_def\<close>)
        have L: "parse_members pv (parse_string True) acc m = (if d = 0x7D then Some (Parsed (acc @ [(key, v)]) r)
            else if d \<noteq> 0x2C then Some Rejected else do { s \<leftarrow> skip_space r; parse_members pv (parse_string True) (acc @ [(key, v)]) s })"
          by (subst parse_members.simps) (simp add: 2(1) s(1) c m2(1) v(1) r(1))
        have R: "build_members bv (loc A) m h = (if d = 0x7D then success (loc A) r h2 else if d \<noteq> 0x2C then failure (loc A) h2
            else do { s \<leftarrow> skip_space r; build_members bv (loc A) s h2 })"
          by (subst build_members.simps) (simp add: 2(1) s(1) c m2(1) v(2) r(1) h2(1))
        consider "d = 0x7D" | "d \<noteq> 0x7D" "d \<noteq> 0x2C" | "d = 0x2C" by blast
        then show ?thesis
        proof cases
          case a: 1
          show ?thesis unfolding L R
            using mirrors_parsed [OF h2(2) _ vA] A by (simp add: a built_def value_of_container)
        next
          case b: 2
          show ?thesis unfolding L R using failure_mirrors [OF h2(2)] b by (simp add: built_def)
        next
          case e: 3
          then have "0 \<in> set r" using r(2) by simp
          then obtain c' s' where s': "skip_space r = Some (c' # s')" "0 \<in> set (c' # s')" "length (c' # s') \<le> length r" by (rule space_then)
          have len: "length (c' # s') < length m" "length (c' # s') \<le> N" using s'(3) r(3) m3(2) m2(3,4) by simp_all
          have "mirrors F (built True JObject (parse_members pv (parse_string True) (acc @ [(key, v)]) (c' # s')))
              (build_members bv (loc ?A) (c' # s') h2)"
            by (rule "1.IH" [rule_format, OF len(1) s'(2) len(2) h2(2) A(1) vA A(2)])
          with e s' show ?thesis unfolding L R by simp
        qed
      qed
    qed
  qed
qed

lemma array_mirror:
  assumes "0 \<in> set m" "length m \<le> Suc N" "forest h F"
  shows "mirrors F (built True JArray (parse_array pv m)) (build_array bv m h)"
proof -
  obtain c s where m: "m = c # s" using assms(1) by (cases m) auto
  define h0 where "h0 = fst (json_mkarray h)"
  define A where "A = Shape (brk h) None SArray []"
  have mk: "json_mkarray h = (h0, brk h)" by (simp add: h0_def json_mkarray_def mknode_def)
  have f: "forest h0 (F @ [A])"
    unfolding A_def h0_def
    by (rule forest_new [OF assms(3), where n = "zero_node\<lparr>tag := JSON_ARRAY\<rparr>"]) (simp_all add: json_mkarray_def mknode_def linked_def zero_node_def holds_kind_def container_def)
  have A: "kind A = SArray" "valid_shape A" "map value_of (kids A) = []" "loc A = brk h" by (simp_all add: A_def)
  show ?thesis
  proof (cases "c = 0x5B")
    case False
    then show ?thesis using failure_mirrors [OF f A(4)] by (simp add: m build_array_def parse_array_def mk built_def)
  next
    case True
    then have "0 \<in> set s" using assms(1) m by simp
    then obtain c1 s1 where s1: "skip_space s = Some (c1 # s1)" "0 \<in> set (c1 # s1)" "length (c1 # s1) \<le> length s" by (rule space_then)
    have "length (c1 # s1) \<le> N" using s1(3) assms(2) m by simp
    from elements_mirror [OF s1(2) this f A(1,2,3)] mirrors_parsed [OF f _ A(2,4), of "JArray []"] s1(1) True A
    show ?thesis by (simp add: m build_array_def parse_array_def mk value_of_container) (simp add: built_def)
  qed
qed

lemma object_mirror:
  assumes "0 \<in> set m" "length m \<le> Suc N" "forest h F"
  shows "mirrors F (built True JObject (parse_object pv (parse_string True) m)) (build_object bv m h)"
proof -
  obtain c s where m: "m = c # s" using assms(1) by (cases m) auto
  define h0 where "h0 = fst (json_mkobject h)"
  define A where "A = Shape (brk h) None SObject []"
  have mk: "json_mkobject h = (h0, brk h)" by (simp add: h0_def json_mkobject_def mknode_def)
  have f: "forest h0 (F @ [A])"
    unfolding A_def h0_def
    by (rule forest_new [OF assms(3), where n = "zero_node\<lparr>tag := JSON_OBJECT\<rparr>"]) (simp_all add: json_mkobject_def mknode_def linked_def zero_node_def holds_kind_def container_def)
  have A: "kind A = SObject" "valid_shape A" "map (\<lambda>u. (the (skey u), value_of u)) (kids A) = []" "loc A = brk h" by (simp_all add: A_def)
  show ?thesis
  proof (cases "c = 0x7B")
    case False
    then show ?thesis using failure_mirrors [OF f A(4)] by (simp add: m build_object_def parse_object_def mk built_def)
  next
    case True
    then have "0 \<in> set s" using assms(1) m by simp
    then obtain c1 s1 where s1: "skip_space s = Some (c1 # s1)" "0 \<in> set (c1 # s1)" "length (c1 # s1) \<le> length s" by (rule space_then)
    have "length (c1 # s1) \<le> N" using s1(3) assms(2) m by simp
    from members_mirror [OF s1(2) this f A(1,2,3)] mirrors_parsed [OF f _ A(2,4), of "JObject []"] s1(1) True A
    show ?thesis by (simp add: m build_object_def parse_object_def mk value_of_container) (simp add: built_def)
  qed
qed

end

section \<open>The builder provides it\<close>

definition makes :: "('a \<Rightarrow> heap \<Rightarrow> (heap \<times> nat) option) \<Rightarrow> ('a \<Rightarrow> scalar) \<Rightarrow> bool" where
  "makes mk c \<longleftrightarrow> (\<forall>h F v. forest h F \<longrightarrow> (\<exists>h'. mk v h = Some (h', brk h) \<and> forest h' (F @ [Shape (brk h) None (c v) []])))"

lemma makes_nodes:
  "makes (\<lambda>_ h. Some (json_mknull h)) (\<lambda>_. SNull)" "makes (\<lambda>_. json_mkbool b) (\<lambda>_. SBool b)"
  "makes mkstring SString" "makes json_mknumber SNumber"
  "makes (\<lambda>_ h. Some (json_mkarray h)) (\<lambda>_. SArray)" "makes (\<lambda>_ h. Some (json_mkobject h)) (\<lambda>_. SObject)"
  unfolding makes_def by (force simp: mk_defs linked_def holds_kind_def container_def intro: forest_new)+

lemma leaf_mirrors:
  assumes "r = Some Rejected \<or> (\<exists>v m'. r = Some (Parsed v m') \<and> good v)" "forest h F" "makes mk c"
    and "\<And>v a. value_of (Shape a None (c v) []) = f v" "\<And>v a. good v \<Longrightarrow> valid_shape (Shape a None (c v) [])"
  shows "mirrors F (built True f r) (build_leaf r mk h)"
proof -
  consider "r = Some Rejected" | v m' where "r = Some (Parsed v m')" "good v" using assms(1) by blast
  then show ?thesis
  proof cases
    case 1
    with assms(2) show ?thesis by (simp add: mirrors_def built_def build_leaf_def)
  next
    case (2 v m')
    from assms(2,3) obtain h' where h': "mk v h = Some (h', brk h)" "forest h' (F @ [Shape (brk h) None (c v) []])"
      unfolding makes_def by blast
    have "mirrors F (Some (Parsed (f v) m')) (success (brk h) m' h')"
      by (rule mirrors_parsed [OF h'(2) assms(4) assms(5) [OF 2(2)]]) simp
    with 2 h'(1) show ?thesis by (simp add: built_def build_leaf_def)
  qed
qed

lemma scanned:
  "agree good r1 r2 m \<Longrightarrow> r1 = Some Rejected \<or> (\<exists>v m'. r1 = Some (Parsed v m') \<and> good v)"
  by (auto simp: agree_def)

lemma value_builder: "node_builder (parse_value n True) (build_value n) n"
proof (induction n)
  case 0
  show ?case by unfold_locales simp_all
next
  case (Suc n)
  note array = node_builder.array_mirror [OF Suc.IH] and object = node_builder.object_mirror [OF Suc.IH]
  show ?case
  proof unfold_locales
    fix m :: "byte list" and h F assume m: "0 \<in> set m" "length m \<le> Suc n" and f: "forest h F"
    then obtain c s where c: "m = c # s" by (cases m) auto
    then have d: "deref m = Some c" by simp
    have str: "parse_string True m = Some Rejected \<or> (\<exists>v m'. parse_string True m = Some (Parsed v m') \<and> valid_utf8 v)"
      using parse_string_ok [OF m(1)] by blast
    have num: "parse_number m = Some Rejected \<or> (\<exists>v m'. parse_number m = Some (Parsed v m') \<and> True)"
      by (rule scanned, rule agree_same [OF scans_parse_number m(1) parse_number_shorter])
    have lit: "expect_literal (bytes str) m = Some Rejected \<or> (\<exists>v m'. expect_literal (bytes str) m = Some (Parsed v m') \<and> True)"
      if "str \<in> {''null'', ''false'', ''true''}" for str
      by (rule scanned, rule agree_literal) (use that m in auto)
    show "mirrors F (parse_value (Suc n) True m) (build_value (Suc n) m h)"
      unfolding parse_value.simps build_value.simps d Option.bind.simps
      by (auto simp del: bytes_Cons expect_literal.simps
           intro!: array [OF m f] object [OF m f] leaf_mirrors [OF lit f makes_nodes(1)] leaf_mirrors [OF lit f makes_nodes(2)]
             leaf_mirrors [OF str f makes_nodes(3)] leaf_mirrors [OF num f makes_nodes(4)]
           simp: valid_text_def valid_utf8_nul_free)
  next
    fix m :: "byte list" and v m' assume m: "0 \<in> set m" "length m \<le> Suc n" "parse_value (Suc n) True m = Some (Parsed v m')"
    have "agree json_utf8 (parse_value (Suc n) True m) (parse_value (Suc n) False m) m"
      by (rule value_parser.value_agree [OF m(1,2)])
    with m(1,3) show "0 \<in> set m' \<and> length m' < length m" unfolding agree_def by (auto simp: nul_free_def)
  qed
qed

interpretation nodes_of: node_builder "parse_value n True" "build_value n" n for n
  by (rule value_builder)

section \<open>Documents in memory\<close>

lemma decode_nodes_ok:
  assumes "forest h F" "0 \<in> set m"
  shows "case json_decode m of
     None \<Rightarrow> False
   | Some None \<Rightarrow> \<exists>h'. json_decode_nodes m h = Some (None, h') \<and> forest h' F
   | Some (Some v) \<Rightarrow> \<exists>h' t. json_decode_nodes m h = Some (Some (loc t), h') \<and> forest h' (F @ [t]) \<and> value_of t = v \<and> valid_shape t"
proof -
  from skip_space_terminated [OF assms(2)] obtain s where s: "skip_space m = Some s" "0 \<in> set s" by blast
  let ?n = "Suc (length s)"
  have pair: "agree json_utf8 (parse_value ?n True s) (parse_value ?n False s) s"
    by (rule value_parser.value_agree [OF s(2)]) simp
  have "mirrors F (parse_value ?n True s) (build_value ?n s h)"
    by (rule nodes_of.value_mirrors [OF s(2) _ assms(1)]) simp
  then consider h1 where "parse_value ?n True s = Some Rejected" "build_value ?n s h = Some (Rejected, h1)" "forest h1 F"
    | v m1 h1 t where "parse_value ?n True s = Some (Parsed v m1)" "build_value ?n s h = Some (Parsed (loc t) m1, h1)"
        "forest h1 (F @ [t])" "value_of t = v" "valid_shape t"
    by (auto simp: mirrors_def)
  then show ?thesis
  proof cases
    case 1
    with s(1) show ?thesis by (simp add: json_decode_def json_decode_nodes_def del: parse_value.simps build_value.simps)
  next
    case (2 v m1 h1 t)
    have "0 \<in> set m1" using pair 2(1) s(2) unfolding agree_def by (auto simp: nul_free_def)
    then obtain c r where r: "skip_space m1 = Some (c # r)" by (rule space_then)
    obtain h2 where "json_delete (2 * brk h1) (Some (loc t)) h1 = Some h2" "forest h2 F" using delete_last [OF 2(3)] by blast
    with s(1) r 2 show ?thesis
      by (auto simp: json_decode_def json_decode_nodes_def simp del: parse_value.simps build_value.simps)
  qed
qed

text \<open>C19: Decoding in memory is decoding. On every text that holds a terminator, beside whatever trees are in memory, the
  decoder returns without following a bad pointer: a pointer to a new valid tree whose value is the one
  \<open>json_decode\<close> stands for, with the old trees as they were; or NULL, and then the memory holds the old trees
  and nothing else, whatever had been built.\<close>

theorem decode_in_memory:
  assumes "forest h F" "0 \<in> set m"
  shows "case json_decode m of
     None \<Rightarrow> False
   | Some None \<Rightarrow> \<exists>h'. json_decode_nodes m h = Some (None, h') \<and> forest h' F
   | Some (Some v) \<Rightarrow> \<exists>h' t. json_decode_nodes m h = Some (Some (loc t), h') \<and> forest h' (F @ [t]) \<and> value_of t = v \<and> valid_shape t"
  using assms by (rule decode_nodes_ok)

theorem decode_in_memory_witness:
  "\<exists>h' t. json_decode_nodes (bytes ''[]'' @ [0]) empty_heap = Some (Some (loc t), h') \<and> forest h' [t] \<and> value_of t = JArray []"
proof -
  have "forest empty_heap []" by (simp add: forest_def empty_heap_def)
  moreover have "json_decode (bytes ''[]'' @ [0]) = Some (Some (JArray []))" by code_simp
  ultimately show ?thesis using decode_in_memory [of empty_heap "[]" "bytes ''[]'' @ [0]"] by auto
qed

end
