(* ===== verification/JsonPrint.thy ===== *)
theory JsonPrint
  imports JsonBuild
begin

text \<open>
  The encoder of \<open>src/util/json.c\<close> reading its tree in memory: the emitters walk the nodes through their child
  and sibling pointers. On a tree in memory they write what the emitters of \<open>JsonEmit\<close> write for its value.
\<close>

section \<open>The code\<close>

text \<open>The cases of \<open>emit_value\<close> and \<open>emit_value_indented\<close> that do not recurse; the last is behind an assertion.\<close>

definition write_leaf :: "sb \<Rightarrow> node \<Rightarrow> sb option" where
  "write_leaf out node =
    (if tag node = JSON_NULL then sb_puts out (bytes ''null'')
     else if tag node = JSON_BOOL then sb_puts out (if bool_val node then bytes ''true'' else bytes ''false'')
     else if tag node = JSON_STRING then do { str \<leftarrow> string_val node; emit_string out (str @ [0]) }
     else if tag node = JSON_NUMBER then emit_number out (number_val node)
     else Some out)"

text \<open>The loops of \<open>emit_array\<close> and \<open>emit_object\<close>, given the emitter of a value, and \<open>emit_value\<close> at a node: as deep,
  and over as many children, as the fuel.\<close>

type_synonym emitter = "sb \<Rightarrow> ptr \<Rightarrow> heap \<Rightarrow> sb option"

primrec write_elements :: "emitter \<Rightarrow> nat \<Rightarrow> emitter" where
  "write_elements emit 0 out element h = None"
| "write_elements emit (Suc fuel) out element h =
    (if element = None then Some out
     else do {
       out \<leftarrow> emit out element h;
       n \<leftarrow> cell h element;
       out \<leftarrow> (if nxt n \<noteq> None then sb_putc out 0x2C else Some out);
       write_elements emit fuel out (nxt n) h })"

primrec write_members :: "emitter \<Rightarrow> nat \<Rightarrow> emitter" where
  "write_members emit 0 out member h = None"
| "write_members emit (Suc fuel) out member h =
    (if member = None then Some out
     else do {
       n \<leftarrow> cell h member;
       key \<leftarrow> node_key n;
       out \<leftarrow> emit_string out (key @ [0]);
       out \<leftarrow> sb_putc out 0x3A;
       out \<leftarrow> emit out member h;
       out \<leftarrow> (if nxt n \<noteq> None then sb_putc out 0x2C else Some out);
       write_members emit fuel out (nxt n) h })"

primrec write_node :: "nat \<Rightarrow> emitter" where
  "write_node 0 out p h = None"
| "write_node (Suc fuel) out p h = do {
     node \<leftarrow> cell h p;
     if tag node = JSON_ARRAY then do {
       out \<leftarrow> sb_putc out 0x5B;
       element \<leftarrow> json_first_child p h;
       out \<leftarrow> write_elements (write_node fuel) fuel out element h;
       sb_putc out 0x5D }
     else if tag node = JSON_OBJECT then do {
       out \<leftarrow> sb_putc out 0x7B;
       member \<leftarrow> json_first_child p h;
       out \<leftarrow> write_members (write_node fuel) fuel out member h;
       sb_putc out 0x7D }
     else write_leaf out node }"

text \<open>The indented emitters; \<open>sp\<close> is written once per level.\<close>

type_synonym level_emitter = "sb \<Rightarrow> nat \<Rightarrow> ptr \<Rightarrow> heap \<Rightarrow> sb option"

primrec write_elements_indented :: "level_emitter \<Rightarrow> byte list \<Rightarrow> nat \<Rightarrow> level_emitter" where
  "write_elements_indented emit sp 0 out level element h = None"
| "write_elements_indented emit sp (Suc fuel) out level element h =
    (if element = None then Some out
     else do {
       out \<leftarrow> emit_indent out sp (level + 1);
       out \<leftarrow> emit out (level + 1) element h;
       n \<leftarrow> cell h element;
       out \<leftarrow> sb_puts out (if nxt n \<noteq> None then [0x2C, 0x0A] else [0x0A]);
       write_elements_indented emit sp fuel out level (nxt n) h })"

primrec write_members_indented :: "level_emitter \<Rightarrow> byte list \<Rightarrow> nat \<Rightarrow> level_emitter" where
  "write_members_indented emit sp 0 out level member h = None"
| "write_members_indented emit sp (Suc fuel) out level member h =
    (if member = None then Some out
     else do {
       out \<leftarrow> emit_indent out sp (level + 1);
       n \<leftarrow> cell h member;
       key \<leftarrow> node_key n;
       out \<leftarrow> emit_string out (key @ [0]);
       out \<leftarrow> sb_puts out [0x3A, 0x20];
       out \<leftarrow> emit out (level + 1) member h;
       out \<leftarrow> sb_puts out (if nxt n \<noteq> None then [0x2C, 0x0A] else [0x0A]);
       write_members_indented emit sp fuel out level (nxt n) h })"

primrec write_node_indented :: "byte list \<Rightarrow> nat \<Rightarrow> level_emitter" where
  "write_node_indented sp 0 out level p h = None"
| "write_node_indented sp (Suc fuel) out level p h = do {
     node \<leftarrow> cell h p;
     if tag node = JSON_ARRAY then
       (if head node = None then sb_puts out [0x5B, 0x5D]
        else do {
          out \<leftarrow> sb_puts out [0x5B, 0x0A];
          out \<leftarrow> write_elements_indented (write_node_indented sp fuel) sp fuel out level (head node) h;
          out \<leftarrow> emit_indent out sp level;
          sb_putc out 0x5D })
     else if tag node = JSON_OBJECT then
       (if head node = None then sb_puts out [0x7B, 0x7D]
        else do {
          out \<leftarrow> sb_puts out [0x7B, 0x0A];
          out \<leftarrow> write_members_indented (write_node_indented sp fuel) sp fuel out level (head node) h;
          out \<leftarrow> emit_indent out sp level;
          sb_putc out 0x7D })
     else write_leaf out node }"

text \<open>The memory the caller gets: the text and its terminator.\<close>

definition stringify_nodes :: "ptr \<Rightarrow> byte list option \<Rightarrow> heap \<Rightarrow> byte list option" where
  "stringify_nodes node spc h = do {
     out \<leftarrow> (case spc of
         Some sp \<Rightarrow> write_node_indented sp (2 * brk h) sb_init 0 node h
       | None \<Rightarrow> write_node (2 * brk h) sb_init node h);
     sb_finish out }"

definition encode_nodes :: "ptr \<Rightarrow> heap \<Rightarrow> byte list option" where
  "encode_nodes node h = stringify_nodes node None h"

section \<open>What the loops write\<close>

lemma first_or_None [simp]: "first_or ts None = None \<longleftrightarrow> ts = []"
  by (simp add: first_or_def)

text \<open>The cell of the first of the siblings.\<close>

lemma sibling_cell:
  assumes "siblings h par prv None (u # us)"
  obtains n where "cell h (Some (loc u)) = Some n" "nxt n = first_or us None" "node_key n = skey u"
    "stored h par prv (first_or us None) u" "siblings h par (Some (loc u)) None us"
  using assms by (auto simp: stored_root root_def linked_def cell_def)

text \<open>A loop over the children of a node, next to one over a list: each writes something for the child and then
  a separator that depends on whether a sibling follows.\<close>

locale node_walk =
  fixes h :: heap
    and walk :: "nat \<Rightarrow> sb \<Rightarrow> ptr \<Rightarrow> sb option"
    and item :: "sb \<Rightarrow> ptr \<Rightarrow> node \<Rightarrow> bool \<Rightarrow> sb option"
    and write_list :: "sb \<Rightarrow> 'a list \<Rightarrow> sb option"
    and write_item :: "sb \<Rightarrow> 'a \<Rightarrow> bool \<Rightarrow> sb option"
  assumes walk_end: "walk (Suc f) out None = Some out"
    and walk_step: "cell h (Some a) = Some n \<Longrightarrow>
      walk (Suc f) out (Some a) = do { out \<leftarrow> item out (Some a) n (nxt n \<noteq> None); walk f out (nxt n) }"
    and list_end: "write_list out [] = Some out"
    and list_step: "write_list out (x # xs) = do { out \<leftarrow> write_item out x (xs \<noteq> []); write_list out xs }"
begin

lemma walk_list:
  assumes "\<And>u out n more par prv nx. u \<in> set ts \<Longrightarrow> stored h par prv nx u \<Longrightarrow> node_key n = skey u \<Longrightarrow>
      item out (Some (loc u)) n more = write_item out (conv u) more"
    and "siblings h par prv None ts" "length ts < f"
  shows "walk f out (first_or ts None) = write_list out (map conv ts)"
  using assms
proof (induction ts arbitrary: prv f out)
  case Nil
  then show ?case by (cases f) (simp_all add: walk_end list_end)
next
  case (Cons u us)
  obtain n where n: "cell h (Some (loc u)) = Some n" "nxt n = first_or us None" "node_key n = skey u"
    "stored h par prv (first_or us None) u" "siblings h par (Some (loc u)) None us"
    using Cons.prems(2) by (rule sibling_cell)
  obtain g where g: "f = Suc g" "length us < g" using Cons.prems(3) by (cases f) auto
  have "item out (Some (loc u)) n more = write_item out (conv u) more" for out more
    by (rule Cons.prems(1) [OF _ n(4,3)]) simp
  moreover have "walk g out (first_or us None) = write_list out (map conv us)" for out
    by (rule Cons.IH [OF Cons.prems(1) n(5) g(2)]) simp_all
  ultimately show ?case using walk_step [OF n(1), of g out] n(2) by (simp add: g(1) list_step)
qed

end

interpretation elements: node_walk h "\<lambda>f out p. write_elements emit f out p h"
  "\<lambda>out p n more. do { out \<leftarrow> emit out p h; if more then sb_putc out 0x2C else Some out }"
  emit_array "\<lambda>out v more. do { out \<leftarrow> emit_value out v; if more then sb_putc out 0x2C else Some out }" for h emit
  by unfold_locales simp_all

interpretation members: node_walk h "\<lambda>f out p. write_members emit f out p h"
  "\<lambda>out p n more. do {
     key \<leftarrow> node_key n; out \<leftarrow> emit_string out (key @ [0]); out \<leftarrow> sb_putc out 0x3A;
     out \<leftarrow> emit out p h; if more then sb_putc out 0x2C else Some out }"
  emit_object "\<lambda>out (k, v) more. do {
     out \<leftarrow> emit_string out (k @ [0]); out \<leftarrow> sb_putc out 0x3A;
     out \<leftarrow> emit_value out v; if more then sb_putc out 0x2C else Some out }" for h emit
  by unfold_locales (auto cong: bind_option_cong)

interpretation indented_elements: node_walk h "\<lambda>f out p. write_elements_indented emit sp f out level p h"
  "\<lambda>out p n more. do {
     out \<leftarrow> emit_indent out sp (level + 1); out \<leftarrow> emit out (level + 1) p h;
     sb_puts out (if more then [0x2C, 0x0A] else [0x0A]) }"
  "\<lambda>out. emit_array_indented out sp level" "\<lambda>out v more. do {
     out \<leftarrow> emit_indent out sp (level + 1); out \<leftarrow> emit_value_indented out sp (level + 1) v;
     sb_puts out (if more then [0x2C, 0x0A] else [0x0A]) }" for h emit sp level
  by unfold_locales simp_all

interpretation indented_members: node_walk h "\<lambda>f out p. write_members_indented emit sp f out level p h"
  "\<lambda>out p n more. do {
     out \<leftarrow> emit_indent out sp (level + 1);
     key \<leftarrow> node_key n; out \<leftarrow> emit_string out (key @ [0]); out \<leftarrow> sb_puts out [0x3A, 0x20];
     out \<leftarrow> emit out (level + 1) p h;
     sb_puts out (if more then [0x2C, 0x0A] else [0x0A]) }"
  "\<lambda>out. emit_object_indented out sp level" "\<lambda>out (k, v) more. do {
     out \<leftarrow> emit_indent out sp (level + 1);
     out \<leftarrow> emit_string out (k @ [0]); out \<leftarrow> sb_puts out [0x3A, 0x20];
     out \<leftarrow> emit_value_indented out sp (level + 1) v;
     sb_puts out (if more then [0x2C, 0x0A] else [0x0A]) }" for h emit sp level
  by unfold_locales (auto cong: bind_option_cong)

section \<open>What a node writes\<close>

definition keyed :: "shape \<Rightarrow> bool" where
  "keyed t \<longleftrightarrow> (\<forall>s \<in> set (subs t). kind s = SObject \<longrightarrow> (\<forall>u \<in> set (kids s). skey u \<noteq> None))"

lemma keyed_simps:
  "keyed (Shape a k c ts) \<longleftrightarrow> (c = SObject \<longrightarrow> (\<forall>u \<in> set ts. skey u \<noteq> None)) \<and> (\<forall>u \<in> set ts. keyed u)"
  by (auto simp: keyed_def)

lemma valid_keyed: "valid_shape t \<Longrightarrow> keyed t"
  by (induction t) (auto simp: keyed_simps list_all_iff)

text \<open>The node of a tree, its fuel, and that its children have enough.\<close>

lemma stored_cell:
  assumes "stored h par prv nx (Shape a k c ts)" "2 * length (addrs (Shape a k c ts)) \<le> f"
  obtains g n where "f = Suc g" "cell h (Some a) = Some n" "holds_kind n c ts" "siblings h (Some a) None None ts" "length ts < g"
    "\<And>u. u \<in> set ts \<Longrightarrow> 2 * length (addrs u) \<le> g"
proof -
  obtain g where g: "f = Suc g" "2 * length (concat (map addrs ts)) < g" using assms(2) by (cases f) auto
  have "length ts \<le> length (concat (map addrs ts))"
  proof (induction ts)
    case (Cons u us)
    then show ?case by (cases u) simp
  qed simp
  moreover have "length (addrs u) \<le> length (concat (map addrs ts))" if "u \<in> set ts" for u
    using that by (induction ts) auto
  ultimately show ?thesis using that g assms(1) by (fastforce simp: stored.simps cell_def split: option.splits)
qed

lemma write_node_ok:
  "stored h par prv nx t \<Longrightarrow> keyed t \<Longrightarrow> 2 * length (addrs t) \<le> f \<Longrightarrow> write_node f out (Some (loc t)) h = emit_value out (value_of t)"
proof (induction t arbitrary: par prv nx f out)
  case (Shape a k c ts)
  obtain g n where g: "f = Suc g" and n: "cell h (Some a) = Some n" "holds_kind n c ts" "siblings h (Some a) None None ts"
      "length ts < g" "\<And>u. u \<in> set ts \<Longrightarrow> 2 * length (addrs u) \<le> g"
    using stored_cell [OF Shape.prems(1,3)] by metis
  have kids: "write_node g out (Some (loc u)) h = emit_value out (value_of u)"
    if "u \<in> set ts" "stored h par prv nx u" for u par prv nx out
    using Shape.IH [OF that(1,2)] Shape.prems(2) n(5) that(1) by (simp add: keyed_simps)
  show ?case
  proof (cases c)
    case SArray
    have "write_elements (write_node g) g out (first_or ts None) h = emit_array out (map value_of ts)" for out
      by (rule elements.walk_list [OF _ n(3,4)]) (simp add: kids)
    with n SArray show ?thesis
      by (simp add: g holds_kind_def container_def json_tags json_first_child_def cong: bind_option_cong)
  next
    case SObject
    have "write_members (write_node g) g out (first_or ts None) h = emit_object out (map (\<lambda>t. (the (skey t), value_of t)) ts)" for out
      by (rule members.walk_list [OF _ n(3,4)]) (use Shape.prems(2) SObject in \<open>auto simp: kids keyed_simps\<close>)
    with n SObject show ?thesis
      by (simp add: g holds_kind_def container_def json_tags json_first_child_def cong: bind_option_cong)
  qed (use n in \<open>simp_all add: g write_leaf_def holds_kind_def json_tags\<close>)
qed

lemma write_node_indented_ok:
  "stored h par prv nx t \<Longrightarrow> keyed t \<Longrightarrow> 2 * length (addrs t) \<le> f \<Longrightarrow>
    write_node_indented sp f out level (Some (loc t)) h = emit_value_indented out sp level (value_of t)"
proof (induction t arbitrary: par prv nx f out level)
  case (Shape a k c ts)
  obtain g n where g: "f = Suc g" and n: "cell h (Some a) = Some n" "holds_kind n c ts" "siblings h (Some a) None None ts"
      "length ts < g" "\<And>u. u \<in> set ts \<Longrightarrow> 2 * length (addrs u) \<le> g"
    using stored_cell [OF Shape.prems(1,3)] by metis
  have kids: "write_node_indented sp g out level (Some (loc u)) h = emit_value_indented out sp level (value_of u)"
    if "u \<in> set ts" "stored h par prv nx u" for u par prv nx out level
    using Shape.IH [OF that(1,2)] Shape.prems(2) n(5) that(1) by (simp add: keyed_simps)
  show ?case
  proof (cases c)
    case SArray
    have "write_elements_indented (write_node_indented sp g) sp g out level (first_or ts None) h =
        emit_array_indented out sp level (map value_of ts)" for out
      by (rule indented_elements.walk_list [OF _ n(3,4)]) (simp add: kids)
    with n SArray show ?thesis
      by (simp add: g holds_kind_def container_def json_tags cong: bind_option_cong)
  next
    case SObject
    have "write_members_indented (write_node_indented sp g) sp g out level (first_or ts None) h =
        emit_object_indented out sp level (map (\<lambda>t. (the (skey t), value_of t)) ts)" for out
      by (rule indented_members.walk_list [OF _ n(3,4)]) (use Shape.prems(2) SObject in \<open>auto simp: kids keyed_simps\<close>)
    with n SObject show ?thesis
      by (simp add: g holds_kind_def container_def json_tags cong: bind_option_cong)
  qed (use n in \<open>simp_all add: g write_leaf_def holds_kind_def json_tags\<close>)
qed

text \<open>Any node of a forest: its tree is no larger than the memory, and valid.\<close>

lemma node_in_forest:
  assumes "forest h F" "list_all valid_shape F" "t \<in> set (nodes F)"
  shows "\<exists>par prv nx. stored h par prv nx t" "valid_shape t" "2 * length (addrs t) \<le> 2 * brk h"
proof -
  have T: "trees h F" using assms(1) by (simp add: forest_iff)
  show st: "\<exists>par prv nx. stored h par prv nx t" by (rule nodes_stored [OF T assms(3)])
  show "valid_shape t" using assms(2,3) valid_subs by (auto simp: nodes_in list_all_iff)
  have "set (addrs t) \<subseteq> {..<brk h}" using nodes_space [OF assms(3)] assms(1) by (auto simp: forest_iff)
  then have "card (set (addrs t)) \<le> brk h" using card_mono [of "{..<brk h}"] by simp
  then show "2 * length (addrs t) \<le> 2 * brk h" using st stored_distinct distinct_card by fastforce
qed

lemma stringify_node:
  "stored h par prv nx t \<Longrightarrow> valid_shape t \<Longrightarrow> 2 * length (addrs t) \<le> 2 * brk h \<Longrightarrow>
    stringify_nodes (Some (loc t)) spc h = json_stringify (value_of t) spc"
  by (simp add: stringify_nodes_def json_stringify_def write_node_ok write_node_indented_ok valid_keyed cong: option.case_cong)

section \<open>Properties\<close>

text \<open>C20: Encoding in memory is encoding. At any node of any valid tree in memory, compact or indented, the encoder
  follows only pointers to live nodes, comes to an end, and returns what \<open>json_stringify\<close> makes of the
  value below that node; the brothers of the node and its key do not show in it.\<close>

theorem stringify_in_memory:
  assumes "forest h F" "list_all valid_shape F" "t \<in> set (nodes F)"
  shows "stringify_nodes (Some (loc t)) spc h = json_stringify (value_of t) spc"
proof -
  obtain par prv nx where "stored h par prv nx t" using node_in_forest(1) [OF assms] by blast
  then show ?thesis by (rule stringify_node) (rule node_in_forest [OF assms])+
qed

theorem stringify_in_memory_witness:
  "stringify_nodes (Some 1) None linked_nodes = json_stringify JNull None \<and>
   stringify_nodes (Some 0) (Some []) linked_nodes = json_stringify (JArray [JNull]) (Some [])"
proof -
  have "forest linked_nodes [Shape 0 None SArray [Shape 1 None SNull []]]" using client_forest [OF linked_nodes_client] by simp
  from stringify_in_memory [OF this, of "Shape 1 None SNull []"] stringify_in_memory [OF this, of "Shape 0 None SArray [Shape 1 None SNull []]"]
  show ?thesis by simp
qed



end
