(* ===== verification/Demonizer.thy ===== *)
theory Demonizer
  imports Logger
begin

text \<open>
  Signal hooks and the detachment of the daemon (\<open>src/util/demonizer.c\<close>). Hooks are function
  pointers; the model leaves their type open. The answers of the operating system (is systemd
  running, what do \<open>fork\<close> and \<open>setsid\<close> return, how many descriptors may be open) are arguments, the
  system calls are the events of the result.
\<close>

section \<open>The code\<close>

datatype op_mode = ST_FORKING | ST_NOTIFY

definition HOOKS_NUM :: nat where "HOOKS_NUM = 4"

definition SIGHUP :: int where "SIGHUP = 1"
definition SIGINT :: int where "SIGINT = 2"

record 'h demonizer =
  op_mode :: "op_mode option"
  demonized :: bool
  sigint_hooks :: "'h option list"
  sighup_hooks :: "'h option list"
  int_hook_idx :: nat
  hup_hook_idx :: nat

text \<open>The mode starts as a number that is no mode.\<close>

definition demonizer_start :: "'h demonizer" where
  "demonizer_start = \<lparr>op_mode = None, demonized = False,
     sigint_hooks = replicate HOOKS_NUM None, sighup_hooks = replicate HOOKS_NUM None,
     int_hook_idx = 0, hup_hook_idx = 0\<rparr>"

definition ST_init_demonizer :: "op_mode \<Rightarrow> 'h demonizer \<Rightarrow> 'h demonizer" where
  "ST_init_demonizer mode st = st\<lparr>op_mode := Some mode\<rparr>"

text \<open>The handlers call the hooks of their table in order: the hooks called.\<close>

fun call_hooks :: "'h option list \<Rightarrow> 'h list" where
  "call_hooks [] = []"
| "call_hooks (None # hs) = call_hooks hs"
| "call_hooks (Some h # hs) = h # call_hooks hs"

definition sighup_handler :: "'h demonizer \<Rightarrow> 'h list" where
  "sighup_handler st = call_hooks (sighup_hooks st)"

definition sigint_handler :: "'h demonizer \<Rightarrow> 'h list" where
  "sigint_handler st = call_hooks (sigint_hooks st)"

text \<open>The result, the new state and what is logged.\<close>

definition ST_add_signal_hook :: "int \<Rightarrow> 'h \<Rightarrow> 'h demonizer \<Rightarrow> int \<times> 'h demonizer \<times> (byte list \<times> int) list" where
  "ST_add_signal_hook sig hook st =
    (if sig = SIGINT then
       if int_hook_idx st < HOOKS_NUM then
         (0, st\<lparr>sigint_hooks := (sigint_hooks st)[int_hook_idx st := Some hook],
                int_hook_idx := int_hook_idx st + 1\<rparr>, [])
       else (1, st, [])
     else if sig = SIGHUP then
       if hup_hook_idx st < HOOKS_NUM then
         (0, st\<lparr>sighup_hooks := (sighup_hooks st)[hup_hook_idx st := Some hook],
                hup_hook_idx := hup_hook_idx st + 1\<rparr>, [])
       else (1, st, [])
     else (1, st, [(bytes ''Unsupported signal type'', ST_MSG_ERROR)]))"

record sys =
  sd_booted :: bool
  fork1 :: int
  setsid :: int
  fork2 :: int
  open_max :: int

datatype event =
    Signal int | Ignore_chld | Ignore_pipe | Sd_notify_ready | Fork | Setsid | Umask_066
  | Chdir_tmp | Close int | Log "byte list" int

datatype 'h demonize_result = Exit_failure | Exit_success | Continue "'h demonizer"

text \<open>The loop \<open>for (x = sysconf(_SC_OPEN_MAX); x > 0; x--) close(x)\<close>.\<close>

fun close_from :: "nat \<Rightarrow> event list" where
  "close_from 0 = []"
| "close_from (Suc x) = Close (int (Suc x)) # close_from x"

definition ST_demonize :: "sys \<Rightarrow> 'h demonizer \<Rightarrow> event list \<times> 'h demonize_result" where
  "ST_demonize sys st =
    (if demonized st then ([], Continue st)
     else
       let signals = [Signal SIGINT, Signal SIGHUP, Ignore_chld, Ignore_pipe];
           st' = st\<lparr>demonized := True\<rparr>
       in case op_mode st of
         Some ST_NOTIFY \<Rightarrow>
           (signals @ (if sd_booted sys then [Sd_notify_ready] else []), Continue st')
       | Some ST_FORKING \<Rightarrow>
           if fork1 sys < 0 then (signals @ [Fork], Exit_failure)
           else if fork1 sys > 0 then (signals @ [Fork], Exit_success)
           else if setsid sys < 0 then (signals @ [Fork, Setsid], Exit_failure)
           else if fork2 sys < 0 then (signals @ [Fork, Setsid, Fork], Exit_failure)
           else if fork2 sys > 0 then (signals @ [Fork, Setsid, Fork], Exit_success)
           else (signals @ [Fork, Setsid, Fork, Umask_066, Chdir_tmp] @ close_from (nat (open_max sys)),
                 Continue st')
       | None \<Rightarrow> (signals @ [Log (bytes ''Unsupported operation type'') ST_MSG_ERROR], Continue st'))"

section \<open>The tables as bounded lists\<close>

text \<open>A table and its index hold a list of at most four hooks.\<close>

definition table :: "'h option list \<Rightarrow> nat \<Rightarrow> 'h list \<Rightarrow> bool" where
  "table hs i l \<longleftrightarrow> hs = map Some l @ replicate (HOOKS_NUM - length l) None \<and> i = length l \<and> length l \<le> HOOKS_NUM"

definition hooks :: "'h demonizer \<Rightarrow> 'h list \<Rightarrow> 'h list \<Rightarrow> bool" where
  "hooks st ints hups \<longleftrightarrow>
    table (sigint_hooks st) (int_hook_idx st) ints \<and> table (sighup_hooks st) (hup_hook_idx st) hups"

lemma call_hooks_table: "table hs i l \<Longrightarrow> call_hooks hs = l"
proof -
  have "call_hooks (map Some l @ replicate n None) = l" for n
  proof (induction l)
    case Nil
    show ?case by (induction n) simp_all
  qed simp
  then show "table hs i l \<Longrightarrow> call_hooks hs = l" by (simp add: table_def)
qed

lemma table_add:
  assumes "table hs i l" "i < HOOKS_NUM"
  shows "table (hs[i := Some h]) (Suc i) (l @ [h])"
proof -
  have "HOOKS_NUM - length l = Suc (HOOKS_NUM - Suc (length l))" using assms by (simp add: table_def)
  with assms show ?thesis by (simp add: table_def list_update_append)
qed

lemma table_full: "table hs i l \<Longrightarrow> i < HOOKS_NUM \<longleftrightarrow> length l < HOOKS_NUM"
  by (simp add: table_def)

lemma hooks_start: "hooks demonizer_start [] []"
  by (simp add: hooks_def table_def demonizer_start_def)

text \<open>Registering a list of hooks, one after the other.\<close>

fun add_hooks :: "(int \<times> 'h) list \<Rightarrow> 'h demonizer \<Rightarrow> 'h demonizer" where
  "add_hooks [] st = st"
| "add_hooks ((sig, h) # hs) st = add_hooks hs (fst (snd (ST_add_signal_hook sig h st)))"

definition for_signal :: "int \<Rightarrow> (int \<times> 'h) list \<Rightarrow> 'h list" where
  "for_signal sig hs = map snd (filter (\<lambda>p. fst p = sig) hs)"

lemma add_signal_hook_hooks:
  assumes "hooks st ints hups"
  shows "hooks (fst (snd (ST_add_signal_hook sig h st)))
      (if sig = SIGINT then take HOOKS_NUM (ints @ [h]) else ints)
      (if sig = SIGHUP then take HOOKS_NUM (hups @ [h]) else hups)"
proof -
  have sig: "SIGINT \<noteq> SIGHUP" by (simp add: SIGINT_def SIGHUP_def)
  have full: "take HOOKS_NUM (l @ [h]) = (if length l < HOOKS_NUM then l @ [h] else l)"
    if "length l \<le> HOOKS_NUM" for l :: "'a list" using that by auto
  from assms have "length ints \<le> HOOKS_NUM" "length hups \<le> HOOKS_NUM" by (auto simp: hooks_def table_def)
  with assms sig show ?thesis
    unfolding full [OF \<open>length ints \<le> HOOKS_NUM\<close>] full [OF \<open>length hups \<le> HOOKS_NUM\<close>]
    by (auto simp: hooks_def ST_add_signal_hook_def table_full intro: table_add)
qed

lemma add_hooks_hooks:
  "hooks st ints hups \<Longrightarrow>
    hooks (add_hooks hs st) (take HOOKS_NUM (ints @ for_signal SIGINT hs)) (take HOOKS_NUM (hups @ for_signal SIGHUP hs))"
proof (induction hs arbitrary: st ints hups)
  case Nil
  then show ?case by (simp add: for_signal_def hooks_def table_def)
next
  case (Cons p hs)
  obtain sig h where p: "p = (sig, h)" by fastforce
  have t: "take HOOKS_NUM (take HOOKS_NUM (l @ [h]) @ r) = take HOOKS_NUM (l @ h # r)" for l r :: "'a list"
    by (cases "length l < HOOKS_NUM") auto
  have sig: "SIGINT \<noteq> SIGHUP" by (simp add: SIGINT_def SIGHUP_def)
  from Cons.IH [OF add_signal_hook_hooks [OF Cons.prems, of sig h]] sig show ?case
    by (cases "sig = SIGINT"; cases "sig = SIGHUP") (simp_all add: p for_signal_def t del: take_append)
qed

section \<open>Properties\<close>

text \<open>When hooks have been registered, in whatever order, each of the two signals calls the first four
  hooks registered for it, in the order of their registration.\<close>

lemma signal_calls_hooks:
  "sigint_handler (add_hooks hs demonizer_start) = take HOOKS_NUM (for_signal SIGINT hs) \<and>
   sighup_handler (add_hooks hs demonizer_start) = take HOOKS_NUM (for_signal SIGHUP hs)"
  using add_hooks_hooks [OF hooks_start, of hs]
  by (auto simp: hooks_def sigint_handler_def sighup_handler_def dest: call_hooks_table)

text \<open>Demonizing happens once: after a call that comes back, every later call comes back with the
  same state and has no effect, whatever the operating system would answer by then.\<close>

lemma demonize_once:
  assumes "ST_demonize sys st = (es, Continue st')"
  shows "ST_demonize sys' st' = ([], Continue st')"
proof -
  have "demonized st'"
    using assms by (cases "op_mode st") (auto simp: ST_demonize_def Let_def split: if_splits op_mode.splits)
  then show ?thesis by (simp add: ST_demonize_def)
qed

text \<open>In forking mode the call comes back only in the process left by two forks and a new session, and
  there it has closed every descriptor from the highest down to 1; descriptor 0 stays open.\<close>

lemma demonize_forking:
  assumes "\<not> demonized st" "op_mode st = Some ST_FORKING" "ST_demonize sys st = (es, Continue st')"
  shows "fork1 sys = 0 \<and> 0 \<le> setsid sys \<and> fork2 sys = 0 \<and>
    (\<forall>x. Close x \<in> set es \<longleftrightarrow> 0 < x \<and> x \<le> open_max sys)"
proof -
  have c: "Close x \<in> set (close_from n) \<longleftrightarrow> 0 < x \<and> x \<le> int n" for x n
    by (induction n) auto
  from assms have f: "fork1 sys = 0" "0 \<le> setsid sys" "fork2 sys = 0"
    by (auto simp: ST_demonize_def Let_def split: if_splits)
  with assms have "set es = set [Signal SIGINT, Signal SIGHUP, Ignore_chld, Ignore_pipe, Fork, Setsid, Fork, Umask_066,
      Chdir_tmp] \<union> set (close_from (nat (open_max sys)))"
    by (auto simp: ST_demonize_def Let_def)
  with f c show ?thesis by (auto simp: nat_eq_iff)
qed

end
