(* ===== verification/Srv.thy ===== *)
theory Srv
  imports Configure NumText
begin

text \<open>
  The built-in web server (\<open>src/util/srv.c\<close>): one connection as the server thread handles it, a
  sequence of connections, and the operations that start, stop and restart the thread. A connection
  is the bytes the client sends before it closes; the answer is the bytes written to the stream.
  \<open>None\<close> is a connection the thread never gets done with.
\<close>

section \<open>Reading\<close>

definition BUFSIZE :: nat where "BUFSIZE = 1024"

fun read_line :: "nat \<Rightarrow> byte list \<Rightarrow> byte list \<times> byte list" where
  "read_line 0 s = ([], s)"
| "read_line (Suc n) [] = ([], [])"
| "read_line (Suc n) (c # s) =
    (if c = 0x0A then ([c], s) else case read_line n s of (l, r) \<Rightarrow> (c # l, r))"

text \<open>The string in a buffer after bytes have been stored in it.\<close>

definition string_of :: "byte list \<Rightarrow> byte list" where
  "string_of l = takeWhile (\<lambda>c. c \<noteq> 0) l"

text \<open>\<open>fgets\<close>: at the end of the input the buffer stays as it is.\<close>

definition fgets :: "byte list \<Rightarrow> byte list \<Rightarrow> byte list \<times> byte list" where
  "fgets buf inp =
    (if inp = [] then (buf, []) else case read_line (BUFSIZE - 1) inp of (l, r) \<Rightarrow> (string_of l, r))"

definition c_isspace :: "byte \<Rightarrow> bool" where
  "c_isspace c \<longleftrightarrow> c = 0x20 \<or> (0x09 \<le> c \<and> c \<le> 0x0D)"

text \<open>The first conversion of \<open>sscanf(buf, "%s %s %s", method, ...)\<close>: without a word in the buffer the
  target stays as it is. (The other two words are never looked at.)\<close>

definition scan_method :: "byte list \<Rightarrow> byte list \<Rightarrow> byte list" where
  "scan_method buf req_method =
    (let w = takeWhile (\<lambda>c. \<not> c_isspace c) (dropWhile c_isspace buf) in if w = [] then req_method else w)"

definition to_lower :: "byte \<Rightarrow> byte" where
  "to_lower c = (if 0x41 \<le> c \<and> c \<le> 0x5A then c + 0x20 else c)"

definition same_nocase :: "byte list \<Rightarrow> byte list \<Rightarrow> bool" where
  "same_nocase s t \<longleftrightarrow> map to_lower s = map to_lower t"

definition crlf :: "byte list" where
  "crlf = [0x0D, 0x0A]"

text \<open>The loop that skips the headers, from the first header line in the buffer on.\<close>

partial_function (option) skip_headers :: "byte list \<Rightarrow> byte list \<Rightarrow> (byte list \<times> byte list) option" where
  "skip_headers buf inp =
    (if buf = crlf then Some (buf, inp)
     else case fgets buf inp of (buf, inp) \<Rightarrow> skip_headers buf inp)"

section \<open>Answering\<close>

definition line :: "string \<Rightarrow> byte list" where
  "line s = bytes s @ [0x0A]"

text \<open>\<open>cerror\<close>; the two quotes around the colour end and start string literals.\<close>

definition cerror :: "byte list \<Rightarrow> string \<Rightarrow> string \<Rightarrow> byte list" where
  "cerror cause err shortmsg =
    bytes ''HTTP/1.1 '' @ bytes err @ [0x20] @ line shortmsg @
    line ''Content-type: text/html'' @
    line '''' @
    bytes ''<html><title>Stored error</title>'' @
    line ''<body bgcolor=ffffff>'' @
    bytes err @ bytes '': '' @ line shortmsg @
    bytes ''<p>blah: '' @ cause @ [0x0A] @
    line ''<hr><em>(_|_)</em>''"

definition response :: "byte list \<Rightarrow> byte list" where
  "response content =
    line ''HTTP/1.1 200 OK'' @
    line ''Server: stored daemon'' @
    bytes ''Content-length: '' @ fmt_int (int (length content)) @ [0x0A] @
    line ''Content-type: text/json'' @
    crlf @ content"

text \<open>The buffers of \<open>serve\<close> keep their contents from one connection to the next; at the start they hold
  whatever the stack held.\<close>

record buffers =
  buf :: "byte list"
  req_method :: "byte list"

text \<open>Reading a request: the method of a request that is refused, or nothing for a GET request whose headers
  have been skipped.\<close>

definition read_request :: "buffers \<Rightarrow> byte list \<Rightarrow> (byte list option \<times> buffers) option" where
  "read_request b inp =
    (case fgets (buf b) inp of (bf, inp) \<Rightarrow>
     let m = scan_method bf (req_method b) in
     if \<not> same_nocase m (bytes ''GET'') then Some (Some m, \<lparr>buf = bf, req_method = m\<rparr>)
     else case fgets bf inp of (bf, inp) \<Rightarrow> do {
       (bf, inp) \<leftarrow> skip_headers bf inp;
       Some (None, \<lparr>buf = bf, req_method = m\<rparr>) })"

definition not_implemented :: "byte list \<Rightarrow> byte list" where
  "not_implemented m = cerror m ''501'' ''Not Implemented''"

definition handle_request :: "byte list option \<Rightarrow> buffers \<Rightarrow> byte list \<Rightarrow> ((byte list \<times> buffers) proc) option" where
  "handle_request data b inp = do {
     (refused, b) \<leftarrow> read_request b inp;
     Some (case refused of
         Some m \<Rightarrow> Inr (not_implemented m, b)
       | None \<Rightarrow>
          (case data of
             None \<Rightarrow> ST_abort (bytes ''Srv buffer empty, please provide initial data'')
           | Some content \<Rightarrow> Inr (response content, b))) }"

text \<open>The main loop of the thread: connections in the order \<open>accept\<close> returns them, each with the data
  the buffer holds when it is answered, until the thread is told to quit or \<open>accept\<close> fails.\<close>

fun serve :: "buffers \<Rightarrow> (byte list option \<times> byte list) list \<Rightarrow> (byte list list proc) option" where
  "serve b [] = Some (Inr [])"
| "serve b ((data, inp) # cs) = do {
     r \<leftarrow> handle_request data b inp;
     case r of
       Inl a \<Rightarrow> Some (Inl a)
     | Inr (out, b) \<Rightarrow> do {
         rs \<leftarrow> serve b cs;
         Some (run rs (\<lambda>outs. Inr (out # outs))) } }"

section \<open>Starting and stopping\<close>

definition INADDR_NONE :: u32 where "INADDR_NONE = 0xFFFFFFFF"

text \<open>The server thread runs or not; while it runs, it listens on an address and a port.\<close>

record srv =
  stopped :: bool
  mxq :: mutex
  listening :: "(u32 \<times> u16) option"

definition srv_start :: srv where
  "srv_start = \<lparr>stopped = True, mxq = None, listening = None\<rparr>"

text \<open>\<open>ST_init_srv\<close> and the buffer it allocates, whose data comes uninitialised from \<open>malloc\<close>.\<close>

definition ST_init_srv :: "config option \<Rightarrow> os \<Rightarrow> byte list option \<Rightarrow> byte list option proc" where
  "ST_init_srv c os uninit =
    (if c = None then ST_abort (bytes ''ST_CONFIG (c) NPE'')
     else if \<not> malloc_ok os then ST_abort (bytes ''OOM error. Exiting!'')
     else if mutex_init os \<noteq> 0 then ST_abort (strerror os (mutex_init os))
     else Inr uninit)"

text \<open>What the new thread does before its loop: the results of \<open>socket\<close>, \<open>bind\<close> and \<open>listen\<close>.\<close>

record net =
  inet_addr :: "byte list \<Rightarrow> u32"
  socket_ok :: bool
  bind_ok :: bool
  listen_ok :: bool

definition serve_setup :: "net \<Rightarrow> config \<Rightarrow> u32 \<Rightarrow> (u32 \<times> u16) proc" where
  "serve_setup net c address =
    (if \<not> socket_ok net then ST_abort (bytes ''ERROR opening socket'')
     else if \<not> bind_ok net then ST_abort (bytes ''ERROR on binding'')
     else if \<not> listen_ok net then ST_abort (bytes ''ERROR on listen.'')
     else Inr (address, word_of_int (http_port c)))"

text \<open>\<open>ST_start_srv\<close> up to the new thread: the address it is to listen on, when one is created.\<close>

definition launch_srv :: "net \<Rightarrow> os \<Rightarrow> config \<Rightarrow> bool \<Rightarrow> srv \<Rightarrow> (srv \<times> u32 option) proc" where
  "launch_srv net os c b_null st =
    (if b_null then ST_abort (bytes ''Srv start (b) NPE'')
     else if stopped st \<and> http_enabled c \<noteq> 0 then
       if mutex_init os \<noteq> 0 then ST_abort (strerror os (mutex_init os))
       else
         let address = inet_addr net (http_bind_address c) in
         if address = INADDR_NONE then ST_abort (bytes ''Incorrect bind addr!'')
         else Inr (st\<lparr>mxq := Some Main, stopped := False\<rparr>, Some address)
     else Inr (st, None))"

definition ST_start_srv :: "net \<Rightarrow> os \<Rightarrow> config \<Rightarrow> bool \<Rightarrow> srv \<Rightarrow> srv proc" where
  "ST_start_srv net os c b_null st =
    run (launch_srv net os c b_null st) (\<lambda>(st, address).
      case address of
        None \<Rightarrow> Inr st
      | Some address \<Rightarrow> run (serve_setup net c address) (\<lambda>l. Inr (st\<lparr>listening := Some l\<rparr>)))"

text \<open>The flag the thread polls: it quits when the mutex is free.\<close>

definition quit :: "mutex \<Rightarrow> bool" where
  "quit mtx = fst (trylock Server mtx)"

definition ST_stop_srv :: "srv \<Rightarrow> srv" where
  "ST_stop_srv st =
    (if \<not> stopped st then st\<lparr>mxq := ST_unlock (mxq st), listening := None, stopped := True\<rparr> else st)"

definition ST_restart_srv :: "net \<Rightarrow> os \<Rightarrow> config \<Rightarrow> bool \<Rightarrow> srv \<Rightarrow> srv proc" where
  "ST_restart_srv net os c b_null st = ST_start_srv net os c b_null (ST_stop_srv st)"

definition ST_destroy_srv :: "srv \<Rightarrow> srv" where
  "ST_destroy_srv st = ST_stop_srv st"

section \<open>The lines of a connection\<close>

lemma read_line_rest: "read_line (Suc n) (c # s) = (l, r) \<Longrightarrow> length r < Suc (length s)"
proof (induction n arbitrary: c s l r)
  case 0
  then show ?case by (auto split: if_splits)
next
  case (Suc n)
  show ?case
  proof (cases s)
    case Nil
    with Suc.prems show ?thesis by (auto split: if_splits)
  next
    case (Cons d t)
    obtain l' r' where r: "read_line (Suc n) (d # t) = (l', r')" by fastforce
    from Suc.IH [OF this] Suc.prems Cons r show ?thesis by (auto split: if_splits)
  qed
qed

text \<open>The strings that successive calls of \<open>fgets\<close> find: lines, cut at the size of the buffer and at
  NUL bytes.\<close>

function chunks :: "byte list \<Rightarrow> byte list list" where
  "chunks inp = (if inp = [] then [] else case read_line (BUFSIZE - 1) inp of (l, r) \<Rightarrow> string_of l # chunks r)"
  by pat_completeness auto
termination
  by (relation "measure length")
    (auto simp: BUFSIZE_def neq_Nil_conv dest!: sym [of "(_, _)"] read_line_rest [of 1022, simplified])

declare chunks.simps [simp del]

lemma chunks_Nil [simp]: "chunks [] = []"
  by (simp add: chunks.simps)

lemma fgets_chunks:
  assumes "fgets bf inp = (bf', inp')"
  shows "(inp = [] \<and> bf' = bf \<and> inp' = []) \<or>
    (inp \<noteq> [] \<and> chunks inp = bf' # chunks inp' \<and> length inp' < length inp)"
proof (cases inp)
  case Nil
  with assms show ?thesis by (simp add: fgets_def)
next
  case (Cons c s)
  obtain l r where r: "read_line (BUFSIZE - 1) inp = (l, r)" by fastforce
  with Cons read_line_rest [of "BUFSIZE - 2" c s l r] have "length r < length inp" by (simp add: BUFSIZE_def)
  moreover from r Cons have "chunks inp = string_of l # chunks r" by (subst chunks.simps) simp
  ultimately show ?thesis using assms r Cons by (auto simp: fgets_def)
qed

lemma skip_headers_found:
  "crlf \<in> set (bf # chunks inp) \<Longrightarrow> \<exists>r. skip_headers bf inp = Some (crlf, r)"
proof (induction inp arbitrary: bf rule: length_induct)
  case (1 inp)
  show ?case
  proof (cases "bf = crlf")
    case True
    then show ?thesis by (subst skip_headers.simps) simp
  next
    case False
    obtain bf' inp' where f: "fgets bf inp = (bf', inp')" by fastforce
    with False "1.prems" fgets_chunks [OF f] have "crlf \<in> set (bf' # chunks inp')" "length inp' < length inp"
      by auto
    then have "\<exists>r. skip_headers bf' inp' = Some (crlf, r)" using "1.IH" by blast
    with False f show ?thesis by (subst skip_headers.simps) simp
  qed
qed

lemma skip_headers_needed:
  assumes "skip_headers bf inp = Some r"
  shows "crlf \<in> set (bf # chunks inp)"
  using assms
proof (rule skip_headers.raw_induct [rotated], goal_cases)
  case (1 rec bf inp r)
  show ?case
  proof (cases "bf = crlf")
    case False
    obtain bf' inp' where f: "fgets bf inp = (bf', inp')" by fastforce
    with 1 False have "crlf \<in> set (bf' # chunks inp')" by (metis (no_types, lifting) case_prod_conv)
    with fgets_chunks [OF f] show ?thesis by auto
  qed simp
qed

lemma skip_headers_iff: "(\<exists>r. skip_headers bf inp = Some r) \<longleftrightarrow> crlf \<in> set (bf # chunks inp)"
  using skip_headers_found skip_headers_needed by fast

section \<open>Well-formed requests\<close>

text \<open>A line as a client sends it.\<close>

definition text_line :: "byte list \<Rightarrow> bool" where
  "text_line l \<longleftrightarrow> (\<exists>w. l = w @ [0x0A] \<and> 0x0A \<notin> set w \<and> nul_free w \<and> length w < BUFSIZE - 1)"

lemma read_line_text:
  "0x0A \<notin> set w \<Longrightarrow> length w < n \<Longrightarrow> read_line n (w @ 0x0A # r) = (w @ [0x0A], r)"
proof (induction w arbitrary: n)
  case Nil
  then show ?case by (cases n) simp_all
next
  case (Cons c w)
  then show ?case by (cases n) auto
qed

lemma string_of_text: "nul_free w \<Longrightarrow> string_of w = w"
  by (auto simp: string_of_def nul_free_def takeWhile_eq_all_conv)

lemma fgets_text: "text_line l \<Longrightarrow> fgets bf (l @ r) = (l, r)"
  by (auto simp: text_line_def fgets_def read_line_text string_of_text)

lemma crlf_line: "text_line crlf"
  by (auto simp: text_line_def crlf_def BUFSIZE_def intro!: exI [of _ "[0x0D]"])

lemma skip_headers_lines:
  "list_all (\<lambda>h. text_line h \<and> h \<noteq> crlf) hs \<Longrightarrow> bf \<noteq> crlf \<Longrightarrow>
    skip_headers bf (concat hs @ crlf @ rest) = Some (crlf, rest)"
proof (induction hs arbitrary: bf)
  case Nil
  have "skip_headers crlf rest = Some (crlf, rest)" by (subst skip_headers.simps) simp
  with Nil fgets_text [OF crlf_line, of bf rest] show ?case by (subst skip_headers.simps) simp
next
  case (Cons h hs)
  then have h: "text_line h" "h \<noteq> crlf" by simp_all
  from Cons fgets_text [OF h(1), of bf "concat hs @ crlf @ rest"] show ?case
    by (subst skip_headers.simps) simp
qed

lemma read_headers:
  assumes "list_all (\<lambda>h. text_line h \<and> h \<noteq> crlf) hs"
  shows "(case fgets bf (concat hs @ crlf @ rest) of (b, i) \<Rightarrow> skip_headers b i) = Some (crlf, rest)"
proof (cases hs)
  case Nil
  have "skip_headers crlf rest = Some (crlf, rest)" by (subst skip_headers.simps) simp
  with Nil fgets_text [OF crlf_line, of bf rest] show ?thesis by simp
next
  case (Cons h hs')
  with assms fgets_text [of h bf "concat hs' @ crlf @ rest"] skip_headers_lines [of hs' h rest]
  show ?thesis by simp
qed

text \<open>A request line: the method, a space, anything.\<close>

definition request_line :: "byte list \<Rightarrow> byte list \<Rightarrow> bool" where
  "request_line g l \<longleftrightarrow> text_line l \<and> g \<noteq> [] \<and> (\<forall>c \<in> set g. \<not> c_isspace c) \<and> (\<exists>r. l = g @ 0x20 # r)"

lemma scan_method_request: "request_line g l \<Longrightarrow> scan_method l m = g"
proof -
  assume "request_line g l"
  then obtain r where g: "g \<noteq> []" "\<forall>c \<in> set g. \<not> c_isspace c" "l = g @ 0x20 # r"
    by (auto simp: request_line_def)
  have "dropWhile c_isspace l = l" using g by (cases g) auto
  moreover have "takeWhile (\<lambda>c. \<not> c_isspace c) l = g"
    using g(2,3) by (simp add: c_isspace_def)
  ultimately show ?thesis using g(1) by (simp add: scan_method_def Let_def)
qed

lemma read_get:
  assumes "request_line g l" "same_nocase g (bytes ''GET'')" "list_all (\<lambda>h. text_line h \<and> h \<noteq> crlf) hs"
  shows "read_request b (l @ concat hs @ crlf @ rest) = Some (None, \<lparr>buf = crlf, req_method = g\<rparr>)"
proof -
  have "text_line l" using assms(1) by (simp add: request_line_def)
  note f = fgets_text [OF this, of "buf b" "concat hs @ crlf @ rest"]
  obtain bf i where h: "fgets l (concat hs @ crlf @ rest) = (bf, i)" by fastforce
  with read_headers [OF assms(3), of l rest] have "skip_headers bf i = Some (crlf, rest)" by simp
  with f h scan_method_request [OF assms(1)] assms(2) show ?thesis
    by (simp add: read_request_def Let_def del: bytes_Cons)
qed

lemma handle_get:
  assumes "request_line g l" "same_nocase g (bytes ''GET'')" "list_all (\<lambda>h. text_line h \<and> h \<noteq> crlf) hs"
  shows "handle_request (Some content) b (l @ concat hs @ crlf @ rest) =
    Some (Inr (response content, \<lparr>buf = crlf, req_method = g\<rparr>))"
  using read_get [OF assms, of b rest] by (simp add: handle_request_def)

lemma simple_request: "request_line (bytes ''GET'') (line ''GET /'')"
  by (auto simp: request_line_def text_line_def c_isspace_def line_def BUFSIZE_def nul_free_def
      intro!: exI [of _ "bytes ''GET /''"])

lemma handle_returns:
  assumes "fgets (buf b) inp = (bf, r)"
  shows "(\<exists>x. handle_request data b inp = Some x) \<longleftrightarrow>
    \<not> same_nocase (scan_method bf (req_method b)) (bytes ''GET'') \<or> crlf \<in> set (chunks r) \<or> r = [] \<and> bf = crlf"
proof -
  obtain bf' r' where f: "fgets bf r = (bf', r')" by fastforce
  have h: "(\<exists>x. skip_headers bf' r' = Some x) \<longleftrightarrow> crlf \<in> set (chunks r) \<or> r = [] \<and> bf = crlf"
    unfolding skip_headers_iff using fgets_chunks [OF f] by auto
  show ?thesis
    unfolding h [symmetric] using assms f
    by (cases "skip_headers bf' r'") (auto simp: handle_request_def read_request_def Let_def simp del: bytes_Cons)
qed

section \<open>Starting and stopping\<close>

definition srv_ok :: "srv \<Rightarrow> bool" where
  "srv_ok st \<longleftrightarrow> (stopped st \<longleftrightarrow> listening st = None) \<and> (stopped st \<longleftrightarrow> quit (mxq st))"

inductive srv_step :: "srv \<Rightarrow> srv \<Rightarrow> bool" where
  step_start: "ST_start_srv net os c False st = Inr st' \<Longrightarrow> srv_step st st'"
| step_stop: "srv_step st (ST_stop_srv st)"
| step_restart: "ST_restart_srv net os c False st = Inr st' \<Longrightarrow> srv_step st st'"

inductive_cases srv_stepE: "srv_step st st'"

lemma serve_setup_Inr: "serve_setup net c a = Inr l \<Longrightarrow> l = (a, word_of_int (http_port c))"
  by (auto simp: serve_setup_def split: if_splits)

lemma start_srv_ok: "srv_ok st \<Longrightarrow> ST_start_srv net os c n st = Inr st' \<Longrightarrow> srv_ok st'"
  by (auto simp: ST_start_srv_def launch_srv_def srv_ok_def quit_def trylock_def Let_def c_simps split: if_splits)

lemma stop_srv_ok: "srv_ok st \<Longrightarrow> srv_ok (ST_stop_srv st)"
  by (auto simp: ST_stop_srv_def srv_ok_def quit_def trylock_def ST_unlock_def)

interpretation srv: invariant_machine "\<lambda>st. st = srv_start" srv_step srv_ok
proof unfold_locales
  show "st = srv_start \<Longrightarrow> srv_ok st" for st
    by (simp add: srv_ok_def srv_start_def quit_def trylock_def)
  show "srv_ok st \<Longrightarrow> srv_step st t \<Longrightarrow> srv_ok t" for st t
    by (auto elim!: srv_stepE simp: ST_restart_srv_def intro: start_srv_ok stop_srv_ok)
qed

section \<open>Properties\<close>



text \<open>C32: the server gets done with a connection exactly when the method is not GET or an empty line ends
  the headers; otherwise (a client that closes early, or that ends its lines with a bare newline) it
  reads at the end of the input for ever, and no later connection is served.\<close>

theorem handle_request_returns_iff:
  assumes "fgets (buf b) inp = (bf, r)"
  shows "(\<exists>x. handle_request data b inp = Some x) \<longleftrightarrow>
    \<not> same_nocase (scan_method bf (req_method b)) (bytes ''GET'') \<or> crlf \<in> set (chunks r) \<or> r = [] \<and> bf = crlf"
  using assms by (rule handle_returns)

theorem handle_request_returns_iff_witness:
  "handle_request (Some []) \<lparr>buf = [], req_method = []\<rparr> (line ''GET /'' @ [0x0A]) = None"
proof -
  note l = simple_request
  from l have f: "fgets [] (line ''GET /'' @ [0x0A]) = (line ''GET /'', [0x0A])"
    by (intro fgets_text) (simp add: request_line_def)
  have "fgets [] [0x0A] = ([0x0A], [])"
    using read_line_text [of "[]" "BUFSIZE - 1" "[]"] by (simp add: fgets_def BUFSIZE_def string_of_def)
  with fgets_chunks [OF this] have "chunks [0x0A] = [[0x0A]]" by simp
  with f handle_request_returns_iff [of "\<lparr>buf = [], req_method = []\<rparr>" "line ''GET /'' @ [0x0A]" "line ''GET /''" "[0x0A]" "Some []"]
    scan_method_request [OF l, of "[]"]
  show ?thesis by (simp add: same_nocase_def crlf_def del: bytes_Cons)
qed

text \<open>A connection that closes without sending anything is answered like the one before it: the
  buffers of the previous request are still there.\<close>

lemma silent_connection_answered:
  assumes "same_nocase g (bytes ''GET'')"
  shows "handle_request (Some content) \<lparr>buf = crlf, req_method = g\<rparr> [] =
    Some (Inr (response content, \<lparr>buf = crlf, req_method = g\<rparr>))"
proof -
  have "scan_method crlf g = g" by (simp add: scan_method_def crlf_def c_isspace_def)
  moreover have "skip_headers crlf [] = Some (crlf, [])" by (subst skip_headers.simps) simp
  ultimately show ?thesis using assms by (simp add: handle_request_def read_request_def fgets_def del: bytes_Cons)
qed



end
