(* ===== verification/MtabMemory.thy ===== *)
theory MtabMemory
  imports JsonBuild
begin

text \<open>
  The mount table check of \<open>src/mtab_checker.c\<close> with its nodes in memory: the old list is deleted, the new one
  is built by the calls of the JSON library, and its value is the list \<open>MtabChecker\<close> computes.
\<close>

section \<open>The code\<close>

text \<open>The object of one mount point, linked into the list \<open>arr\<close>. An assertion that fails ends the process.\<close>

definition mount_node :: "nat \<Rightarrow> byte list \<Rightarrow> int \<Rightarrow> heap \<Rightarrow> heap option" where
  "mount_node arr mnt_dir percent h = do {
     let (h, j_node) = json_mkobject h;
     (h, m_point) \<leftarrow> json_mkstring (mnt_dir @ [0]) h;
     (h, f_percent) \<leftarrow> json_mknumber (dbl_of_int percent) h;
     h \<leftarrow> json_append_member (Some j_node) (literal ''mount_point'') (Some m_point) h;
     h \<leftarrow> h;
     h \<leftarrow> json_append_member (Some j_node) (literal ''free_space'') (Some f_percent) h;
     h \<leftarrow> h;
     h \<leftarrow> json_append_element (Some arr) (Some j_node) h;
     h }"

fun check_nodes :: "int \<Rightarrow> mounts \<Rightarrow> nat \<Rightarrow> heap \<Rightarrow> (heap \<times> (byte list \<times> int) list) option" where
  "check_nodes notice_level [] arr h = Some (h, [])"
| "check_nodes notice_level ((mnt_dir, None) # ms) arr h = do {
     (h, logs) \<leftarrow> check_nodes notice_level ms arr h;
     Some (h, (bytes ''statvfs error'', ST_MSG_WARN) # logs) }"
| "check_nodes notice_level ((mnt_dir, Some s) # ms) arr h =
     (if 0 < f_blocks s then do {
        percent \<leftarrow> free_percent s;
        h \<leftarrow> (if notice_level \<ge> percent then mount_node arr mnt_dir percent h else Some h);
        check_nodes notice_level ms arr h }
      else check_nodes notice_level ms arr h)"

text \<open>The part of \<open>ST_check_mtab\<close> that works on the nodes, with the pointer \<open>me->json_entries\<close> as \<open>old\<close>.\<close>

definition check_entries :: "int \<Rightarrow> mounts \<Rightarrow> ptr \<Rightarrow> heap \<Rightarrow> (ptr \<times> heap \<times> (byte list \<times> int) list) option" where
  "check_entries notice_level ms old h = do {
     h \<leftarrow> json_delete (2 * brk h) old h;
     let (h, arr) = json_mkarray h;
     (h, logs) \<leftarrow> check_nodes notice_level ms arr h;
     Some (Some arr, h, logs) }"

section \<open>One mount point\<close>

lemma key_text:
  "cstr (literal ''mount_point'') = Some (bytes ''mount_point'')" "cstr (literal ''free_space'') = Some (bytes ''free_space'')"
  "valid_text (bytes ''mount_point'')" "valid_text (bytes ''free_space'')"
  by (simp_all add: literal_def valid_text_def nul_free_def ascii_def valid_utf8_ascii)

lemma makesD: "makes mk c \<Longrightarrow> forest h F \<Longrightarrow> \<exists>h'. mk v h = Some (h', brk h) \<and> forest h' (F @ [Shape (brk h) None (c v) []])"
  unfolding makes_def by blast

lemma append_member_call:
  assumes "forest h (F @ A # t # G)" "kind A = SObject" "cstr p = Some k"
  shows "\<exists>h'. json_append_member (Some (loc A)) p (Some (loc t)) h = Some (Some h') \<and>
    forest h' (F @ with_kids (\<lambda>ts. ts @ [with_key (Some k) t]) A # G)"
  using append_member_forest [OF assms(1) attach_last(3) [OF assms(1), unfolded assms(2)] assms(3)]
    attach_last(1) [OF assms(1), of "\<lambda>u ts. ts @ [with_key (Some k) u]"] assms(3)
  by auto

lemma mount_node_ok:
  assumes "forest h (F @ [A])" "kind A = SArray" "valid_shape A" "nul_free d" "valid_utf8 d"
  shows "\<exists>h' t. mount_node (loc A) d p h = Some h' \<and> forest h' (F @ [with_kids (\<lambda>ts. ts @ [t]) A]) \<and>
    value_of t = mount_entry d p \<and> valid_shape (with_kids (\<lambda>ts. ts @ [t]) A)"
proof -
  let ?o = "Shape (brk h) None SObject []"
  obtain h1 where h1: "json_mkobject h = (h1, brk h)" "forest h1 (F @ [A, ?o])"
    using makesD [OF makes_nodes(6) assms(1)] by auto
  obtain h2 where h2: "json_mkstring (d @ [0]) h1 = Some (h2, brk h1)" "forest h2 (F @ [A, ?o, Shape (brk h1) None (SString d) []])"
    using makesD [OF makes_nodes(3) h1(2), of d] cstr_terminated [OF assms(4), of "[]"] by (auto simp: json_mkstring_def)
  let ?s = "Shape (brk h1) None (SString d) []" and ?n = "Shape (brk h2) None (SNumber (dbl_of_int p)) []"
  obtain h3 where h3: "json_mknumber (dbl_of_int p) h2 = Some (h3, brk h2)" "forest h3 ((F @ [A]) @ ?o # ?s # [?n])"
    using makesD [OF makes_nodes(4) h2(2), of "dbl_of_int p"] by auto
  let ?o1 = "with_kids (\<lambda>ts. ts @ [with_key (Some (bytes ''mount_point'')) ?s]) ?o"
  obtain h4 where h4: "json_append_member (Some (brk h)) (literal ''mount_point'') (Some (brk h1)) h3 = Some (Some h4)"
      "forest h4 ((F @ [A]) @ ?o1 # ?n # [])"
    using append_member_call [OF h3(2) _ key_text(1)] by (auto simp del: bytes_Cons)
  let ?o2 = "with_kids (\<lambda>ts. ts @ [with_key (Some (bytes ''free_space'')) ?n]) ?o1"
  obtain h5 where h5: "json_append_member (Some (brk h)) (literal ''free_space'') (Some (brk h2)) h4 = Some (Some h5)"
      "forest h5 (F @ [A, ?o2])"
    using append_member_call [OF h4(2) _ key_text(2)] by (auto simp del: bytes_Cons)
  obtain h6 where h6: "json_append_element (Some (loc A)) (Some (brk h)) h5 = Some (Some h6)"
      "forest h6 (F @ [with_kids (\<lambda>ts. ts @ [?o2]) A])"
    using append_last [OF h5(2) assms(2)] by (auto simp del: bytes_Cons)
  have call: "mount_node (loc A) d p h = Some h6"
    by (simp add: mount_node_def h1(1) h2(1) h3(1) h4(1) h5(1) h6(1) Let_def)
  have o2: "?o2 = Shape (brk h) None SObject [with_key (Some (bytes ''mount_point'')) ?s, with_key (Some (bytes ''free_space'')) ?n]"
    by (simp add: with_kids_def)
  have v: "value_of ?o2 = mount_entry d p" unfolding o2 by (simp add: mount_entry_def with_key_def)
  have "valid_shape ?o2" unfolding o2
    using key_text(3,4) assms(4,5) by (simp add: with_key_def valid_text_def del: bytes_Cons)
  then have "valid_shape (with_kids (\<lambda>ts. ts @ [?o2]) A)"
    by (intro valid_kids [OF assms(3)]) (use assms(2) in \<open>auto simp: fits_def\<close>)
  with call h6(2) v show ?thesis by blast
qed

section \<open>A check\<close>

definition text_mounts :: "mounts \<Rightarrow> bool" where
  "text_mounts ms \<longleftrightarrow> list_all (\<lambda>(d, st). valid_text d) ms"

lemma check_nodes_ok:
  "forest h (F @ [A]) \<Longrightarrow> kind A = SArray \<Longrightarrow> valid_shape A \<Longrightarrow> text_mounts ms \<Longrightarrow> check_mounts n ms = Some (es, logs) \<Longrightarrow>
    \<exists>h' ts. check_nodes n ms (loc A) h = Some (h', logs) \<and> forest h' (F @ [with_kids (\<lambda>us. us @ ts) A]) \<and>
      map value_of ts = es \<and> valid_shape (with_kids (\<lambda>us. us @ ts) A)"
proof (induction n ms arbitrary: h A es logs rule: check_mounts.induct)
  case (1 n)
  moreover have "with_kids (\<lambda>us. us @ []) A = A" by (cases A) (simp add: with_kids_def)
  ultimately show ?case by (intro exI [of _ h] exI [of _ "[]"]) simp
next
  case (2 n d ms)
  from "2.prems"(5) obtain logs' where "check_mounts n ms = Some (es, logs')" "logs = (bytes ''statvfs error'', ST_MSG_WARN) # logs'"
    by (auto simp: bind_eq_Some_conv simp del: bytes_Cons)
  with "2.IH" [OF "2.prems"(1-3)] "2.prems"(4) show ?case by (fastforce simp: text_mounts_def)
next
  case (3 n d s ms)
  show ?case
  proof (cases "0 < f_blocks s")
    case False
    with "3.IH"(2) [OF False "3.prems"(1-3)] "3.prems"(4,5) show ?thesis by (auto simp: text_mounts_def)
  next
    case True
    with "3.prems"(5) obtain p es' where p: "free_percent s = Some p" "check_mounts n ms = Some (es', logs)"
        "es = (if p \<le> n then mount_entry d p # es' else es')"
      by (auto simp: bind_eq_Some_conv)
    have d: "valid_text d" "text_mounts ms" using "3.prems"(4) by (simp_all add: text_mounts_def)
    show ?thesis
    proof (cases "p \<le> n")
      case no: False
      from "3.IH"(1) [OF True p(1) "3.prems"(1-3) d(2) p(2)] no True p show ?thesis by auto
    next
      case le: True
      obtain h1 t where t: "mount_node (loc A) d p h = Some h1" "forest h1 (F @ [with_kids (\<lambda>ts. ts @ [t]) A])"
          "value_of t = mount_entry d p" "valid_shape (with_kids (\<lambda>ts. ts @ [t]) A)"
        using mount_node_ok [OF "3.prems"(1-3)] d(1) unfolding valid_text_def by blast
      let ?A = "with_kids (\<lambda>ts. ts @ [t]) A"
      have k: "kind ?A = SArray" "loc ?A = loc A" using "3.prems"(2) by simp_all
      obtain h2 ts where h2: "check_nodes n ms (loc A) h1 = Some (h2, logs)" "forest h2 (F @ [with_kids (\<lambda>us. us @ ts) ?A])"
          "map value_of ts = es'" "valid_shape (with_kids (\<lambda>us. us @ ts) ?A)"
        using "3.IH"(1) [OF True p(1) t(2) k(1) t(4) d(2) p(2)] k(2) by auto
      have w: "with_kids (\<lambda>us. us @ ts) ?A = with_kids (\<lambda>us. us @ t # ts) A" by (simp add: with_kids_def)
      have "check_nodes n ((d, Some s) # ms) (loc A) h = Some (h2, logs)" using True p(1) le t(1) h2(1) by simp
      with h2(2-4) t(3) p(3) le show ?thesis unfolding w by (intro exI [of _ h2] exI [of _ "t # ts"]) simp
    qed
  qed
qed

text \<open>A check in memory is the check on values: beside whatever other trees, it deletes the old list, builds the new one
  with calls whose assertions hold, follows no bad pointer, and leaves just the new list in the place of the
  old, valid, with the value the list of \<open>ST_check_mtab\<close> has, and the same messages logged.\<close>

lemma check_entries_ok:
  assumes "forest h (F @ [old])" "text_mounts ms" "check_mounts n ms = Some (es, logs)"
  shows "\<exists>h' t. check_entries n ms (Some (loc old)) h = Some (Some (loc t), h', logs) \<and> forest h' (F @ [t]) \<and>
    value_of t = JArray es \<and> valid_shape t"
proof -
  obtain h1 where h1: "json_delete (2 * brk h) (Some (loc old)) h = Some h1" "forest h1 F" using delete_last [OF assms(1)] by blast
  let ?A = "Shape (brk h1) None SArray []"
  obtain h2 where h2: "json_mkarray h1 = (h2, brk h1)" "forest h2 (F @ [?A])" using makesD [OF makes_nodes(5) h1(2)] by auto
  obtain h3 ts where h3: "check_nodes n ms (brk h1) h2 = Some (h3, logs)" "forest h3 (F @ [with_kids (\<lambda>us. us @ ts) ?A])"
      "map value_of ts = es" "valid_shape (with_kids (\<lambda>us. us @ ts) ?A)"
    using check_nodes_ok [OF h2(2) _ _ assms(2,3)] by auto
  have "check_entries n ms (Some (loc old)) h = Some (Some (brk h1), h3, logs)"
    by (simp add: check_entries_def h1(1) h2(1) h3(1))
  with h3(2-4) show ?thesis by (intro exI [of _ h3] exI [of _ "with_kids (\<lambda>us. us @ ts) ?A"]) (simp add: value_of_container)
qed

end
