(* ===== verification/LoopMemory.thy ===== *)
theory LoopMemory
  imports MtabMemory JsonPrint
begin

text \<open>
  The loop of the daemon with its list in memory (\<open>src/mtab_check_loop.c\<close>, \<open>src/mtab_checker.c\<close>): the checker set up,
  turns that report the nodes of the last check and build those of the next, the checker destroyed.
\<close>

section \<open>The code\<close>

text \<open>The body of \<open>json_foreach\<close> for the node \<open>entry\<close>. The tags are read before the pointers are tested.\<close>

definition report_node :: "thresholds \<Rightarrow> ptr \<Rightarrow> heap \<Rightarrow> (byte list \<times> int) list option" where
  "report_node th entry h = do {
     fspace_elem \<leftarrow> find_member entry (bytes ''free_space'') h;
     m_point_elem \<leftarrow> find_member entry (bytes ''mount_point'') h;
     f \<leftarrow> cell h fspace_elem;
     number \<leftarrow> (if tag f = JSON_NUMBER then do { m \<leftarrow> cell h m_point_elem; Some (tag m = JSON_STRING) } else Some False);
     if number then do {
       m \<leftarrow> cell h m_point_elem;
       free_space \<leftarrow> dbl_to_int (number_val f);
       if notice th \<ge> free_space then do {
         m_point \<leftarrow> string_val m;
         msg_buf \<leftarrow> sprintf_buf MSG_LEN (space_msg m_point free_space);
         msg \<leftarrow> cstr msg_buf;
         Some [(msg, severity th free_space)] }
       else Some [] }
     else Some [(bytes ''json_foreach: readout error'', ST_MSG_WARN)] }"

partial_function (option) report_nodes :: "thresholds \<Rightarrow> ptr \<Rightarrow> heap \<Rightarrow> (byte list \<times> int) list option" where
  "report_nodes th entry h =
    (if entry = None then Some []
     else do {
       msgs \<leftarrow> report_node th entry h;
       n \<leftarrow> cell h entry;
       msgs' \<leftarrow> report_nodes th (nxt n) h;
       Some (msgs @ msgs') })"

text \<open>The structure of the checker, the nodes it points to, and the text the server serves.\<close>

record checker =
  nodes_mem :: heap
  entry_nodes :: ptr
  entry_text :: "byte list"
  served_text :: "byte list"

definition stringify_text_nodes :: "ptr \<Rightarrow> byte list option \<Rightarrow> heap \<Rightarrow> byte list option" where
  "stringify_text_nodes node spc h = do { m \<leftarrow> stringify_nodes node spc h; cstr m }"

text \<open>\<open>ST_init_mtab_checker\<close> where nothing fails; the server starts with the text \<open>{}\<close>.\<close>

definition init_checker :: "heap \<Rightarrow> checker option" where
  "init_checker h = (let (h, arr) = json_mkarray h in do {
     text \<leftarrow> stringify_text_nodes (Some arr) (Some []) h;
     Some \<lparr>nodes_mem = h, entry_nodes = Some arr, entry_text = text, served_text = bytes ''{}''\<rparr> })"

definition check_mtab_nodes :: "int \<Rightarrow> mounts \<Rightarrow> checker \<Rightarrow> (checker \<times> (byte list \<times> int) list) option" where
  "check_mtab_nodes notice_level ms me = do {
     (arr, h, logs) \<leftarrow> check_entries notice_level ms (entry_nodes me) (nodes_mem me);
     text \<leftarrow> stringify_text_nodes arr (Some (bytes '' '')) h;
     Some (me\<lparr>nodes_mem := h, entry_nodes := arr, entry_text := text\<rparr>, logs) }"

definition turn_nodes :: "config \<Rightarrow> config \<Rightarrow> bool \<Rightarrow> mounts \<Rightarrow> checker \<Rightarrow> (checker \<times> (byte list \<times> int) list) option" where
  "turn_nodes c c' trylock_ok ms me = do {
     entry \<leftarrow> json_first_child (entry_nodes me) (nodes_mem me);
     msgs \<leftarrow> report_nodes (thresholds_of c) entry (nodes_mem me);
     if trylock_ok then do {
       (me, logs) \<leftarrow> check_mtab_nodes (notice_percent c') ms me;
       Some (me\<lparr>served_text := entry_text me\<rparr>, msgs @ logs) }
     else Some (me, msgs @ [(bytes ''srv_buff->mutex locked'', ST_MSG_NOTICE)]) }"

text \<open>The loop over the list in memory: the turns of \<open>CheckLoop.turns\<close>.\<close>

fun turns_nodes :: "turn_input list \<Rightarrow> checker \<Rightarrow> ((checker \<times> (byte list \<times> int) list) proc) option" where
  "turns_nodes [] me = Some (Inr (me, []))"
| "turns_nodes (i # is) me =
    (case poll_branch (t_poll i) of
       Inl a \<Rightarrow> Some (Inl a)
     | Inr go \<Rightarrow>
        if \<not> go then turns_nodes is me
        else do {
          (me, msgs) \<leftarrow> turn_nodes (t_conf i) (t_conf_check i) (t_trylock i) (t_mounts i) me;
          r \<leftarrow> turns_nodes is me;
          Some (run r (\<lambda>(me', msgs'). Inr (me', msgs @ msgs'))) })"

text \<open>\<open>ST_destroy_mtab_checker\<close>: what is left in memory. The first argument is what \<open>endmntent\<close> returns.\<close>

definition ST_destroy_mtab_checker :: "int \<Rightarrow> checker \<Rightarrow> heap option proc" where
  "ST_destroy_mtab_checker endmntent_result me =
    (if endmntent_result = 0 then ST_abort (bytes ''endmntent fail'')
     else Inr (json_delete (2 * brk (nodes_mem me)) (entry_nodes me) (nodes_mem me)))"

section \<open>Reports\<close>

lemma member_value:
  assumes "stored h par prv nx t" "valid_shape t" "json_find_member (value_of t) name = v"
  obtains (absent) "find_member (Some (loc t)) name h = Some None" "v = None"
  | (found) u n where "find_member (Some (loc t)) name h = Some (Some (loc u))" "v = Some (value_of u)"
      "cells h (loc u) = Some n" "holds_kind n (kind u) (kids u)"
proof -
  obtain r where r: "find_member (Some (loc t)) name h = Some (map_option loc r)" "json_find_member (value_of t) name = map_option value_of r"
    "r = None \<or> the r \<in> set (kids t)" using find_member_agrees [OF assms(1,2)] by blast
  show thesis
  proof (cases r)
    case None
    with r assms(3) absent show thesis by simp
  next
    case (Some u)
    then have "u \<in> set (subs t)" using r(3) subs_self [of u] by (cases t) auto
    then obtain par prv nx where "stored h par prv nx u" using subs_stored [OF assms(1)] by blast
    then obtain n where "cells h (loc u) = Some n" "holds_kind n (kind u) (kids u)" by (auto simp: stored_root root_def)
    with r(1,2) Some assms(3) found show thesis by simp
  qed
qed


text \<open>What the tag of a node says about its value.\<close>

lemma read_number:
  assumes "holds_kind n (kind u) (kids u)"
  obtains (number) d where "tag n = JSON_NUMBER" "number_val n = d" "value_of u = JNumber d"
  | (other) "tag n \<noteq> JSON_NUMBER" "\<And>d. value_of u \<noteq> JNumber d"
  using assms by (cases u; cases "kind u") (auto simp: holds_kind_def json_tags)

lemma read_string:
  assumes "holds_kind n (kind u) (kids u)"
  obtains (string) s where "tag n = JSON_STRING" "string_val n = Some s" "value_of u = JString s"
  | (other) "tag n \<noteq> JSON_STRING" "\<And>s. value_of u \<noteq> JString s"
  using assms by (cases u; cases "kind u") (auto simp: holds_kind_def json_tags)

lemma report_node_value:
  assumes "stored h par prv nx t" "valid_shape t"
  shows "report_node th (Some (loc t)) h = report_entry th (value_of t)"
proof (rule member_value [OF assms refl, of "bytes ''free_space''"])
  fix u n
  assume f: "find_member (Some (loc t)) (bytes ''free_space'') h = Some (Some (loc u))"
    "json_find_member (value_of t) (bytes ''free_space'') = Some (value_of u)" "cells h (loc u) = Some n" "holds_kind n (kind u) (kids u)"
  show ?thesis
  proof (rule member_value [OF assms refl, of "bytes ''mount_point''"])
    fix v m
    assume m: "find_member (Some (loc t)) (bytes ''mount_point'') h = Some (Some (loc v))"
      "json_find_member (value_of t) (bytes ''mount_point'') = Some (value_of v)" "cells h (loc v) = Some m" "holds_kind m (kind v) (kids v)"
    show ?thesis
      by (rule read_number [OF f(4)]; rule read_string [OF m(4)])
        (simp_all add: report_node_def report_entry_def f m cell_def del: bytes_Cons cong: if_cong split: json.split)
  next
    assume m: "find_member (Some (loc t)) (bytes ''mount_point'') h = Some None"
      "json_find_member (value_of t) (bytes ''mount_point'') = None"
    show ?thesis
      by (rule read_number [OF f(4)])
        (simp_all add: report_node_def report_entry_def f m cell_def del: bytes_Cons split: json.split)
  qed
next
  assume f: "find_member (Some (loc t)) (bytes ''free_space'') h = Some None"
    "json_find_member (value_of t) (bytes ''free_space'') = None"
  show ?thesis
    by (rule member_value [OF assms refl, of "bytes ''mount_point''"])
      (simp_all add: report_node_def report_entry_def f cell_def del: bytes_Cons)
qed

lemma report_nodes_values:
  "siblings h par prv None ts \<Longrightarrow> list_all valid_shape ts \<Longrightarrow> report_nodes th (first_or ts None) h = report th (map value_of ts)"
proof (induction ts arbitrary: prv)
  case Nil
  show ?case by (subst report_nodes.simps) simp
next
  case (Cons u us)
  obtain n where n: "cell h (Some (loc u)) = Some n" "nxt n = first_or us None"
    "stored h par prv (first_or us None) u" "siblings h par (Some (loc u)) None us"
    using Cons.prems(1) by (rule sibling_cell)
  with Cons.IH [OF n(4)] Cons.prems(2) show ?case
    by (subst report_nodes.simps) (simp add: report_node_value [OF n(3)])
qed

text \<open>\<open>json_foreach\<close> over a tree in memory visits the children of its value.\<close>

lemma foreach_report:
  assumes "stored h par prv nx t" "valid_shape t"
  shows "do { entry \<leftarrow> json_first_child (Some (loc t)) h; report_nodes th entry h } = report th (json_children (value_of t))"
proof -
  obtain a k c ts where t: "t = Shape a k c ts" by (cases t)
  obtain n where n: "cell h (Some a) = Some n" "holds_kind n c ts" "siblings h (Some a) None None ts"
    using assms(1) by (auto simp: t stored.simps cell_def split: option.splits)
  have "list_all valid_shape ts" using assms(2) by (simp add: t)
  from report_nodes_values [OF n(3) this, of th] show ?thesis
    by (cases c) (use n in \<open>auto simp: t json_first_child_def holds_kind_def container_def json_tags report_nodes.simps [of th None] comp_def\<close>)
qed


section \<open>Turns\<close>

definition in_memory :: "checker \<Rightarrow> loop_state \<Rightarrow> bool" where
  "in_memory me st \<longleftrightarrow> (\<exists>t. forest (nodes_mem me) [t] \<and> valid_shape t \<and> entry_nodes me = Some (loc t) \<and>
    value_of t = json_entries (entries st) \<and> entry_text me = textural (entries st) \<and> served_text me = served st)"

lemma root_stringify:
  assumes "forest h [t]" "valid_shape t"
  shows "stringify_text_nodes (Some (loc t)) spc h = stringify_text (value_of t) spc"
  using stringify_node [OF _ assms(2) node_in_forest(3) [OF assms(1)]] assms forest_iff trees_stored [of h "[t]" t] subs_self [of t]
  by (simp add: stringify_text_nodes_def stringify_text_def)

lemma init_in_memory: "\<exists>me. init_checker empty_heap = Some me \<and> in_memory me loop_start"
proof -
  have "forest empty_heap []" by (simp add: forest_def empty_heap_def)
  from makesD [OF makes_nodes(5) this] obtain h where h: "json_mkarray empty_heap = (h, brk empty_heap)"
      "forest h [Shape (brk empty_heap) None SArray []]" by auto
  have "stringify_text_nodes (Some (brk empty_heap)) (Some []) h = stringify_text (JArray []) (Some [])"
    using root_stringify [OF h(2)] by simp
  moreover have "stringify_text (JArray []) (Some []) = Some (bytes ''[]'')" by code_simp
  ultimately show ?thesis
    using h by (intro exI conjI) (auto simp: init_checker_def in_memory_def loop_start_def intro!: exI [of _ "Shape (brk empty_heap) None SArray []"])
qed

lemma turn_ok:
  assumes "in_memory me st" "text_mounts ms" "check_turn c c' trylock_ok ms st = Some (st', logs)"
  shows "\<exists>me'. turn_nodes c c' trylock_ok ms me = Some (me', logs) \<and> in_memory me' st'"
proof -
  obtain t where t: "forest (nodes_mem me) [t]" "valid_shape t" "entry_nodes me = Some (loc t)"
    "value_of t = json_entries (entries st)" "entry_text me = textural (entries st)" "served_text me = served st"
    using assms(1) by (auto simp: in_memory_def)
  have "stored (nodes_mem me) None None None t" using t(1) trees_stored [of _ "[t]" t] by (simp add: forest_iff)
  from foreach_report [OF this t(2), of "thresholds_of c"] obtain e where
    e: "json_first_child (entry_nodes me) (nodes_mem me) = Some e"
      "report_nodes (thresholds_of c) e (nodes_mem me) = report (thresholds_of c) (json_children (json_entries (entries st)))"
    using assms(3) by (cases "json_first_child (entry_nodes me) (nodes_mem me)") (auto simp: t(3,4) check_turn_def bind_eq_Some_conv)
  obtain msgs where msgs: "report (thresholds_of c) (json_children (json_entries (entries st))) = Some msgs"
    using assms(3) by (auto simp: check_turn_def bind_eq_Some_conv)
  show ?thesis
  proof (cases trylock_ok)
    case False
    with assms(1,3) e msgs show ?thesis by (auto simp: check_turn_def turn_nodes_def simp del: bytes_Cons)
  next
    case True
    with assms(3) msgs obtain es ls str where chk: "check_mounts (notice_percent c') ms = Some (es, ls)"
        "stringify_text (JArray es) (Some (bytes '' '')) = Some str" "logs = msgs @ ls"
        "st' = \<lparr>entries = \<lparr>json_entries = JArray es, textural = str\<rparr>, served = str\<rparr>"
      by (auto simp: check_turn_def ST_check_mtab_def bind_eq_Some_conv simp del: bytes_Cons)
    obtain h' u where u: "check_entries (notice_percent c') ms (Some (loc t)) (nodes_mem me) = Some (Some (loc u), h', ls)"
        "forest h' [u]" "value_of u = JArray es" "valid_shape u"
      using check_entries_ok [of "nodes_mem me" "[]" t, OF _ assms(2) chk(1)] t(1) by auto
    have "stringify_text_nodes (Some (loc u)) (Some (bytes '' '')) h' = Some str"
      using root_stringify [OF u(2,4)] u(3) chk(2) by (simp del: bytes_Cons)
    with u chk e msgs True t(3) show ?thesis
      by (auto simp: turn_nodes_def check_mtab_nodes_def in_memory_def simp del: bytes_Cons)
  qed
qed


lemma good_mounts_text: "good_mounts ms \<Longrightarrow> text_mounts ms"
  by (auto simp: good_mounts_def sane_mounts_def text_mounts_def valid_text_def list_all_iff)

lemma turns_ok:
  assumes "in_memory me st" "loop_inv st" "list_all (\<lambda>i. good_mounts (t_mounts i)) is"
  shows "\<exists>r. turns is st = Some r \<and>
    (case r of Inl a \<Rightarrow> turns_nodes is me = Some (Inl a)
     | Inr (st', logs) \<Rightarrow> \<exists>me'. turns_nodes is me = Some (Inr (me', logs)) \<and> in_memory me' st')"
  using assms
proof (induction "is" arbitrary: me st)
  case (Cons i "is")
  show ?case
  proof (cases "t_poll i")
    case Ready
    have ms: "good_mounts (t_mounts i)" using Cons.prems(3) by simp
    obtain l where l: "list_all good_listing l" "json_entries (entries st) = JArray (map (\<lambda>(d, p). mount_entry d p) l)"
      using Cons.prems(2) by (auto simp: loop_inv_def)
    from check_turn_result [OF ms l, of "t_conf_check i" "t_conf i" "t_trylock i"] obtain st1 msgs
      where st1: "check_turn (t_conf i) (t_conf_check i) (t_trylock i) (t_mounts i) st = Some (st1, msgs)"
      by (cases "t_trylock i") auto
    obtain me1 where me1: "turn_nodes (t_conf i) (t_conf_check i) (t_trylock i) (t_mounts i) me = Some (me1, msgs)" "in_memory me1 st1"
      using turn_ok [OF Cons.prems(1) good_mounts_text [OF ms] st1] by blast
    have "loop_inv st1" using check_loop.inv_step [OF Cons.prems(2)] ms st1 unfolding loop_step_def by blast
    from Cons.IH [OF me1(2) this] Cons.prems(3) obtain r where r: "turns is st1 = Some r"
      "case r of Inl a \<Rightarrow> turns_nodes is me1 = Some (Inl a)
       | Inr (st', logs) \<Rightarrow> \<exists>me'. turns_nodes is me1 = Some (Inr (me', logs)) \<and> in_memory me' st'" by auto
    show ?thesis
    proof (cases r)
      case (Inl a)
      with Ready st1 me1 r show ?thesis by simp
    next
      case (Inr p)
      obtain st' logs where p: "p = (st', logs)" by (cases p)
      with Inr r(2) obtain me' where "turns_nodes is me1 = Some (Inr (me', logs))" "in_memory me' st'" by auto
      with Inr p Ready st1 me1 r(1) show ?thesis by simp
    qed
  next
    case Interrupted
    then have same: "turns (i # is) st = turns is st" "turns_nodes (i # is) me = turns_nodes is me" by simp_all
    have "list_all (\<lambda>i. good_mounts (t_mounts i)) is" using Cons.prems(3) by simp
    from Cons.IH [OF Cons.prems(1,2) this] show ?thesis unfolding same .
  qed (simp add: ST_abort_def)
qed simp

lemma destroy_leaves_nothing:
  assumes "in_memory me st"
  shows "\<exists>h. ST_destroy_mtab_checker 1 me = Inr (Some h) \<and> cells h = (\<lambda>_. None)"
proof -
  obtain t where t: "forest (nodes_mem me) ([] @ [t])" "entry_nodes me = Some (loc t)" using assms by (auto simp: in_memory_def)
  from delete_last [OF t(1)] obtain h where h: "json_delete (2 * brk (nodes_mem me)) (Some (loc t)) (nodes_mem me) = Some h" "forest h []"
    by blast
  have "cells h = (\<lambda>_. None)" using h(2) by (auto simp: forest_def)
  with h(1) t(2) show ?thesis by (simp add: ST_destroy_mtab_checker_def)
qed

section \<open>Properties\<close>


text \<open>A turn with one mount point that is nearly full, one that is interrupted, and one that reports it.\<close>

definition example_turns :: "turn_input list" where
  "example_turns = (let
     ms = [([0x2F], Some \<lparr>f_bsize = 1, f_blocks = 9, f_bfree = 5, f_bavail = 4\<rparr>)];
     c = \<lparr>interval = 1, notice_percent = 90, warn_percent = 15, crit_percent = 5, http_enabled = 0, http_port = 0, http_bind_address = []\<rparr>;
     i = \<lparr>t_conf = c, t_conf_check = c, t_poll = Ready, t_trylock = True, t_mounts = ms\<rparr>
   in [i, i\<lparr>t_poll := Interrupted\<rparr>, i])"


end
