(* ===== verification/Daemon.thy ===== *)
theory Daemon
  imports CheckLoop Srv Demonizer
begin

text \<open>
  The running daemon (\<open>src/stored.c\<close>): the check loop in the main thread, the server thread, and the
  signal hooks, as they interleave. A position of a thread is a place of the source between two
  accesses of shared memory; a critical section that takes one mutex and cannot block inside is one
  step. The texts that \<open>json_stringify\<close> allocates live in a heap, so that a freed one is no longer
  there; a thread at an undefined access (a freed text, a freed buffer) has no step. Signal hooks
  run on the main thread, on top of whatever it is doing (the kernel prefers it for signals sent to
  the process).
\<close>

section \<open>The state\<close>

text \<open>Main thread: \<open>ST_check_loop\<close> with \<open>ST_check_mtab\<close> inside it, then the end of \<open>main\<close>. \<open>Join b i\<close> waits
  for the server thread number \<open>i\<close> in the first or second call of \<open>ST_stop_srv\<close>.\<close>

datatype main_pc =
    Top
  | Read_conf
  | Poll thresholds
  | Lock_entries thresholds
  | Report thresholds
  | Try_buffer
  | Check_conf
  | Check_lock int
  | Check_mounts int
  | Check_free
  | Check_print
  | Check_unlock
  | Set_data
  | Unlock_buffer
  | Receive
  | Stop bool
  | Join bool nat
  | Free_buffer
  | Free_entries
  | Free_config
  | Finished
  | Aborted abort

datatype server_pc =
    Setup u32
  | Quit_test
  | Accept
  | Reading "byte list"
  | Lock_buffer
  | Copy_data
  | Copied "byte list"
  | Answering "byte list"
  | Ended

text \<open>The SIGHUP hook \<open>reload\<close>.\<close>

datatype hook_pc = Idle | Reload | Restart | Rejoin nat | Start

text \<open>What \<open>srv_buff->data\<close> points to: the literal of \<open>main\<close>, or an allocated text.\<close>

datatype text_ptr = Literal | Block nat

record 'f daemon =
  main :: main_pc
  server :: server_pc
  hook :: hook_pc
  active :: bool
  conf :: config
  cstate :: "'f conf_state"
  conf_mx :: mutex
  entry_list :: json
  text_block :: nat
  entries_mx :: mutex
  data :: text_ptr
  data_mx :: mutex
  buffer_live :: bool
  srv_stopped :: bool
  quit_mx :: mutex
  thread_no :: nat
  bufs :: buffers
  texts :: "nat \<Rightarrow> byte list option"
  logged :: "(byte list \<times> int) list"
  answers :: "byte list list"

fun read_text :: "'f daemon \<Rightarrow> text_ptr \<Rightarrow> byte list option" where
  "read_text d Literal = Some (bytes ''{}'')"
| "read_text d (Block b) = texts d b"

text \<open>The world around the daemon: the behaviours libconfig may show (the file changes), the mount tables
  that may be found, and when SIGHUP may arrive.\<close>

datatype hangups = Never | In_loop | Anytime

record ('f, 'g) world =
  libs :: "('f, 'g) libconfig set"
  tables :: "mounts set"
  hup :: hangups

section \<open>The main thread\<close>

definition log :: "(byte list \<times> int) list \<Rightarrow> 'f daemon \<Rightarrow> 'f daemon" where
  "log ms d = d\<lparr>logged := logged d @ ms\<rparr>"

inductive main_step :: "('f, 'g) world \<Rightarrow> 'f daemon \<Rightarrow> 'f daemon \<Rightarrow> bool" for w where
  top_lock: "main d = Top \<Longrightarrow> active d \<Longrightarrow> ST_lock Main (conf_mx d) = Some m \<Longrightarrow>
    main_step w d (d\<lparr>conf_mx := m, main := Read_conf\<rparr>)"
| top_end: "main d = Top \<Longrightarrow> \<not> active d \<Longrightarrow> main_step w d (d\<lparr>main := Stop False\<rparr>)"
| read_conf: "main d = Read_conf \<Longrightarrow>
    main_step w d (d\<lparr>conf_mx := ST_unlock (conf_mx d), main := Poll (thresholds_of (conf d))\<rparr>)"
| poll: "main d = Poll th \<Longrightarrow> poll_branch r = Inr go \<Longrightarrow>
    main_step w d (d\<lparr>main := if go then Lock_entries th else Top\<rparr>)"
| poll_abort: "main d = Poll th \<Longrightarrow> poll_branch r = Inl a \<Longrightarrow>
    main_step w d (d\<lparr>active := False, main := Aborted a\<rparr>)"
| lock_entries: "main d = Lock_entries th \<Longrightarrow> ST_lock Main (entries_mx d) = Some m \<Longrightarrow>
    main_step w d (d\<lparr>entries_mx := m, main := Report th\<rparr>)"
| report: "main d = Report th \<Longrightarrow> report th (json_children (entry_list d)) = Some ms \<Longrightarrow>
    main_step w d (log ms (d\<lparr>entries_mx := ST_unlock (entries_mx d), main := Try_buffer\<rparr>))"
| try_lock: "main d = Try_buffer \<Longrightarrow> trylock Main (data_mx d) = (True, m) \<Longrightarrow>
    main_step w d (d\<lparr>data_mx := m, main := Check_conf\<rparr>)"
| try_busy: "main d = Try_buffer \<Longrightarrow> trylock Main (data_mx d) = (False, m) \<Longrightarrow>
    main_step w d (log [(bytes ''srv_buff->mutex locked'', ST_MSG_NOTICE)] (d\<lparr>main := Receive\<rparr>))"
| check_conf: "main d = Check_conf \<Longrightarrow> ST_lock Main (conf_mx d) = Some m \<Longrightarrow>
    main_step w d (d\<lparr>conf_mx := ST_unlock m, main := Check_lock (notice_percent (conf d))\<rparr>)"
| check_lock: "main d = Check_lock n \<Longrightarrow> ST_lock Main (entries_mx d) = Some m \<Longrightarrow>
    main_step w d (d\<lparr>entries_mx := m, main := Check_mounts n\<rparr>)"
| check_mounts: "main d = Check_mounts n \<Longrightarrow> ms \<in> tables w \<Longrightarrow> check_mounts n ms = Some (es, logs) \<Longrightarrow>
    main_step w d (log logs (d\<lparr>entry_list := JArray es, main := Check_free\<rparr>))"
| check_free: "main d = Check_free \<Longrightarrow> texts d (text_block d) \<noteq> None \<Longrightarrow>
    main_step w d (d\<lparr>texts := (texts d)(text_block d := None), main := Check_print\<rparr>)"
| check_print: "main d = Check_print \<Longrightarrow> stringify_text (entry_list d) (Some (bytes '' '')) = Some t \<Longrightarrow>
    texts d b = None \<Longrightarrow>
    main_step w d (d\<lparr>texts := (texts d)(b := Some t), text_block := b, main := Check_unlock\<rparr>)"
| check_unlock: "main d = Check_unlock \<Longrightarrow>
    main_step w d (d\<lparr>entries_mx := ST_unlock (entries_mx d), main := Set_data\<rparr>)"
| set_data: "main d = Set_data \<Longrightarrow> main_step w d (d\<lparr>data := Block (text_block d), main := Unlock_buffer\<rparr>)"
| unlock_buffer: "main d = Unlock_buffer \<Longrightarrow>
    main_step w d (d\<lparr>data_mx := ST_unlock (data_mx d), main := Receive\<rparr>)"
| receive: "main d = Receive \<Longrightarrow> main_step w d (d\<lparr>main := Top\<rparr>)"
| stop_running: "main d = Stop b \<Longrightarrow> \<not> srv_stopped d \<Longrightarrow>
    main_step w d (d\<lparr>quit_mx := ST_unlock (quit_mx d), main := Join b (thread_no d)\<rparr>)"
| stop_stopped: "main d = Stop b \<Longrightarrow> srv_stopped d \<Longrightarrow>
    main_step w d (d\<lparr>main := if b then Free_buffer else Stop True\<rparr>)"
| join: "main d = Join b i \<Longrightarrow> server d = Ended \<or> i \<noteq> thread_no d \<Longrightarrow>
    main_step w d (d\<lparr>srv_stopped := True, main := if b then Free_buffer else Stop True\<rparr>)"
| free_buffer: "main d = Free_buffer \<Longrightarrow> main_step w d (d\<lparr>buffer_live := False, main := Free_entries\<rparr>)"
| free_entries: "main d = Free_entries \<Longrightarrow> texts d (text_block d) \<noteq> None \<Longrightarrow>
    main_step w d (d\<lparr>texts := (texts d)(text_block d := None), main := Free_config\<rparr>)"
| free_config: "main d = Free_config \<Longrightarrow>
    main_step w d (d\<lparr>cstate := ST_destroy_config (cstate d), main := Finished\<rparr>)"

section \<open>The server thread\<close>

inductive server_step :: "'f daemon \<Rightarrow> 'f daemon \<Rightarrow> bool" where
  listen: "server d = Setup a \<Longrightarrow> ST_lock Server (conf_mx d) = Some m \<Longrightarrow> serve_setup net (conf d) a = Inr l \<Longrightarrow>
    server_step d (d\<lparr>server := Quit_test\<rparr>)"
| listen_abort: "server d = Setup a \<Longrightarrow> ST_lock Server (conf_mx d) = Some m \<Longrightarrow> serve_setup net (conf d) a = Inl e \<Longrightarrow>
    server_step d (d\<lparr>main := Aborted e\<rparr>)"
| quit_test: "server d = Quit_test \<Longrightarrow>
    server_step d (d\<lparr>server := if quit (quit_mx d) then Ended else Accept\<rparr>)"
| accept: "server d = Accept \<Longrightarrow> server_step d (d\<lparr>server := Reading inp\<rparr>)"
| accept_fails: "server d = Accept \<Longrightarrow> server_step d (d\<lparr>server := Ended\<rparr>)"
| refuse: "server d = Reading inp \<Longrightarrow> read_request (bufs d) inp = Some (Some m, b) \<Longrightarrow>
    server_step d (d\<lparr>bufs := b, answers := answers d @ [not_implemented m], server := Quit_test\<rparr>)"
| headers_read: "server d = Reading inp \<Longrightarrow> read_request (bufs d) inp = Some (None, b) \<Longrightarrow>
    server_step d (d\<lparr>bufs := b, server := Lock_buffer\<rparr>)"
| lock_buffer: "server d = Lock_buffer \<Longrightarrow> buffer_live d \<Longrightarrow> ST_lock Server (data_mx d) = Some m \<Longrightarrow>
    server_step d (d\<lparr>data_mx := m, server := Copy_data\<rparr>)"
| copy_data: "server d = Copy_data \<Longrightarrow> buffer_live d \<Longrightarrow> read_text d (data d) = Some t \<Longrightarrow>
    server_step d (d\<lparr>server := Copied t\<rparr>)"
| copied: "server d = Copied t \<Longrightarrow> buffer_live d \<Longrightarrow>
    server_step d (d\<lparr>data_mx := ST_unlock (data_mx d), server := Answering t\<rparr>)"
| answer: "server d = Answering t \<Longrightarrow>
    server_step d (d\<lparr>answers := answers d @ [response t], server := Quit_test\<rparr>)"

section \<open>Signals\<close>

text \<open>The places where the first policy lets SIGHUP interrupt: before the first \<open>pthread_join\<close>.\<close>

definition in_loop :: "main_pc \<Rightarrow> bool" where
  "in_loop pc \<longleftrightarrow> (case pc of Join _ _ \<Rightarrow> False | Free_buffer \<Rightarrow> False | Free_entries \<Rightarrow> False
     | Free_config \<Rightarrow> False | _ \<Rightarrow> True)"

definition ended :: "main_pc \<Rightarrow> bool" where
  "ended pc \<longleftrightarrow> (case pc of Finished \<Rightarrow> True | Aborted _ \<Rightarrow> True | _ \<Rightarrow> False)"

text \<open>What \<open>ST_start_srv\<close> leaves: with an address, a new thread, whose buffers are what is on its stack.\<close>

definition launched :: "srv \<Rightarrow> u32 option \<Rightarrow> buffers \<Rightarrow> 'f daemon \<Rightarrow> 'f daemon" where
  "launched s a stack d =
    (case a of
       None \<Rightarrow> d
     | Some a \<Rightarrow> d\<lparr>srv_stopped := stopped s, quit_mx := mxq s, server := Setup a, bufs := stack,
         thread_no := Suc (thread_no d)\<rparr>)"

definition hangup_ok :: "hangups \<Rightarrow> main_pc \<Rightarrow> bool" where
  "hangup_ok h pc \<longleftrightarrow> h = Anytime \<or> h = In_loop \<and> in_loop pc"

inductive signal_step :: "('f, 'g) world \<Rightarrow> 'f daemon \<Rightarrow> 'f daemon \<Rightarrow> bool" for w where
  sigint: "signal_step w d (log [(bytes ''daemon terminating.'', ST_MSG_NOTICE)] (d\<lparr>active := False\<rparr>))"
| sighup: "hook d = Idle \<Longrightarrow> hangup_ok (hup w) (main d) \<Longrightarrow>
    signal_step w d (log [(bytes ''daemon reloading.'', ST_MSG_NOTICE)] (d\<lparr>hook := Reload\<rparr>))"
| reload: "hook d = Reload \<Longrightarrow> lc \<in> libs w \<Longrightarrow>
    ST_reload_config lc Main (conf_mx d) (cstate d) (conf d) = Some (m, Inr (s, c)) \<Longrightarrow>
    signal_step w d (d\<lparr>conf_mx := m, cstate := s, conf := c, hook := Restart\<rparr>)"
| reload_abort: "hook d = Reload \<Longrightarrow> lc \<in> libs w \<Longrightarrow>
    ST_reload_config lc Main (conf_mx d) (cstate d) (conf d) = Some (m, Inl a) \<Longrightarrow>
    signal_step w d (d\<lparr>main := Aborted a\<rparr>)"
| restart_running: "hook d = Restart \<Longrightarrow> \<not> srv_stopped d \<Longrightarrow>
    signal_step w d (d\<lparr>quit_mx := ST_unlock (quit_mx d), hook := Rejoin (thread_no d)\<rparr>)"
| restart_stopped: "hook d = Restart \<Longrightarrow> srv_stopped d \<Longrightarrow> signal_step w d (d\<lparr>hook := Start\<rparr>)"
| rejoin: "hook d = Rejoin i \<Longrightarrow> server d = Ended \<or> i \<noteq> thread_no d \<Longrightarrow>
    signal_step w d (d\<lparr>srv_stopped := True, hook := Start\<rparr>)"
| start: "hook d = Start \<Longrightarrow> ST_lock Main (conf_mx d) = Some m \<Longrightarrow>
    launch_srv net os (conf d) False \<lparr>stopped = srv_stopped d, mxq = quit_mx d, listening = None\<rparr> = Inr (s, a) \<Longrightarrow>
    signal_step w d (launched s a stack (d\<lparr>hook := Idle\<rparr>))"
| start_abort: "hook d = Start \<Longrightarrow> ST_lock Main (conf_mx d) = Some m \<Longrightarrow>
    launch_srv net os (conf d) False \<lparr>stopped = srv_stopped d, mxq = quit_mx d, listening = None\<rparr> = Inl e \<Longrightarrow>
    signal_step w d (d\<lparr>main := Aborted e\<rparr>)"

text \<open>Which step was made.\<close>

inductive_cases main_stepE: "main_step w d d'"
inductive_cases server_stepE: "server_step d d'"
inductive_cases signal_stepE: "signal_step w d d'"

section \<open>The daemon\<close>

text \<open>The main thread does not move while a hook is running on it; nothing moves once the process has
  ended.\<close>

inductive daemon_step :: "('f, 'g) world \<Rightarrow> 'f daemon \<Rightarrow> 'f daemon \<Rightarrow> bool" for w where
  by_main: "\<not> ended (main d) \<Longrightarrow> hook d = Idle \<Longrightarrow> main_step w d d' \<Longrightarrow> daemon_step w d d'"
| by_server: "\<not> ended (main d) \<Longrightarrow> server_step d d' \<Longrightarrow> daemon_step w d d'"
| by_signal: "\<not> ended (main d) \<Longrightarrow> signal_step w d d' \<Longrightarrow> daemon_step w d d'"

inductive_cases daemon_stepE: "daemon_step w d d'"

text \<open>The state the loop starts in.\<close>

definition first_state :: "'f conf_state \<Rightarrow> config \<Rightarrow> mtab_entries \<Rightarrow> srv \<Rightarrow> buffers \<Rightarrow> 'f daemon" where
  "first_state cs c me s stack =
    \<lparr>main = Top, server = Ended, hook = Idle, active = True, conf = c, cstate = cs, conf_mx = None,
     entry_list = json_entries me, text_block = 0, entries_mx = None,
     data = Literal, data_mx = None, buffer_live = True,
     srv_stopped = stopped s, quit_mx = mxq s, thread_no = 0, bufs = stack,
     texts = (\<lambda>b. if b = 0 then Some (textural me) else None), logged = [], answers = []\<rparr>"

text \<open>\<open>main\<close> up to \<open>ST_check_loop\<close>: the configuration, the checker, the buffer with its first text, the
  server, and the loop made active. \<open>stack\<close> is what the new thread finds in its buffers.\<close>

definition start_daemon ::
  "('f, 'g) libconfig \<Rightarrow> os \<Rightarrow> net \<Rightarrow> bool \<Rightarrow> byte list \<Rightarrow> config \<Rightarrow> buffers \<Rightarrow> 'f daemon option proc" where
  "start_daemon lc os net setmntent_ok conf_path uninit stack =
    run (ST_new_config lc os conf_path \<lparr>cfg = None, file_path = []\<rparr> uninit) (\<lambda>(cs, c).
    run (ST_init_mtab_checker (Some c) setmntent_ok os) (\<lambda>me.
    run (ST_init_srv (Some c) os None) (\<lambda>_.
    run (launch_srv net os c False srv_start) (\<lambda>(s, a).
      Inr (do {
        me \<leftarrow> me;
        Some (launched s a stack (first_state cs c me s stack)) })))))"

definition boots :: "('f, 'g) world \<Rightarrow> 'f daemon \<Rightarrow> bool" where
  "boots w d \<longleftrightarrow> (\<exists>lc \<in> libs w. \<exists>os net m path uninit stack.
     start_daemon lc os net m path uninit stack = Inr (Some d))"

end
