(* ===== verification/DaemonInv.thy ===== *)
theory DaemonInv
  imports Daemon
begin

text \<open>
  Invariants of the running daemon (who holds which mutex, which texts are allocated, what the
  server thread is doing, that every text is JSON), what they give for the next step (the main
  thread moves, or waits for a server thread that moves), and ranks that decrease on the way out.
\<close>

section \<open>Locks and texts\<close>

text \<open>The places of the main thread that hold the mutex of the server buffer, the mutex of the entries; the
  ones between freeing the old text and publishing the new one; and the ones behind the last join.\<close>

fun holds_buffer :: "main_pc \<Rightarrow> bool" where
  "holds_buffer Check_conf = True"
| "holds_buffer (Check_lock _) = True"
| "holds_buffer (Check_mounts _) = True"
| "holds_buffer Check_free = True"
| "holds_buffer Check_print = True"
| "holds_buffer Check_unlock = True"
| "holds_buffer Set_data = True"
| "holds_buffer Unlock_buffer = True"
| "holds_buffer _ = False"

fun holds_entries :: "main_pc \<Rightarrow> bool" where
  "holds_entries (Report _) = True"
| "holds_entries (Check_mounts _) = True"
| "holds_entries Check_free = True"
| "holds_entries Check_print = True"
| "holds_entries Check_unlock = True"
| "holds_entries _ = False"

fun updating :: "main_pc \<Rightarrow> bool" where
  "updating Check_print = True"
| "updating Check_unlock = True"
| "updating Set_data = True"
| "updating _ = False"

fun shut :: "main_pc \<Rightarrow> bool" where
  "shut Free_buffer = True"
| "shut Free_entries = True"
| "shut Free_config = True"
| "shut Finished = True"
| "shut _ = False"

fun text_gone :: "main_pc \<Rightarrow> bool" where
  "text_gone Check_print = True"
| "text_gone Free_config = True"
| "text_gone Finished = True"
| "text_gone _ = False"

fun serving :: "server_pc \<Rightarrow> bool" where
  "serving Copy_data = True"
| "serving (Copied _) = True"
| "serving _ = False"

text \<open>Who holds which mutex.\<close>

definition locks_ok :: "'f daemon \<Rightarrow> bool" where
  "locks_ok d \<longleftrightarrow>
    data_mx d = (if holds_buffer (main d) then Some Main else if serving (server d) then Some Server else None) \<and>
    \<not> (holds_buffer (main d) \<and> serving (server d)) \<and>
    conf_mx d = (if main d = Read_conf then Some Main else None) \<and>
    entries_mx d = (if holds_entries (main d) then Some Main else None)"

text \<open>The server thread and the flags about it.\<close>

definition thread_ok :: "'f daemon \<Rightarrow> bool" where
  "thread_ok d \<longleftrightarrow>
    (srv_stopped d \<longrightarrow> server d = Ended) \<and>
    (shut (main d) \<longrightarrow> srv_stopped d \<and> hook d = Idle) \<and>
    (\<forall>b i. main d = Join b i \<longrightarrow> hook d = Idle \<and> i = thread_no d \<and> \<not> srv_stopped d) \<and>
    (\<forall>i. hook d = Rejoin i \<longrightarrow> i = thread_no d \<and> \<not> srv_stopped d) \<and>
    (\<not> srv_stopped d \<longrightarrow>
      quit_mx d = (if (\<exists>b i. main d = Join b i) \<or> (\<exists>i. hook d = Rejoin i) then None else Some Main))"

text \<open>The text and the pointer the server reads.\<close>

definition texts_ok :: "'f daemon \<Rightarrow> bool" where
  "texts_ok d \<longleftrightarrow>
    (\<forall>b. texts d b \<noteq> None \<longleftrightarrow> b = text_block d \<and> \<not> text_gone (main d)) \<and>
    (updating (main d) \<or> data d = Literal \<or> data d = Block (text_block d)) \<and>
    (buffer_live d \<or> shut (main d))"

definition aborted :: "'f daemon \<Rightarrow> bool" where
  "aborted d \<longleftrightarrow> (\<exists>a. main d = Aborted a)"

definition daemon_inv :: "'f daemon \<Rightarrow> bool" where
  "daemon_inv d \<longleftrightarrow> aborted d \<or> locks_ok d \<and> thread_ok d \<and> texts_ok d"

lemma poll_branch_Inr: "poll_branch r = Inr go \<Longrightarrow> r = (if go then Ready else Interrupted)"
  by (cases r) auto

lemma trylock_iff [c_simps]:
  "trylock t l = (True, m) \<longleftrightarrow> l = None \<and> m = Some t"
  "trylock t l = (False, m) \<longleftrightarrow> l \<noteq> None \<and> m = l"
  by (auto simp: trylock_def split: option.splits)

lemma main_locks: "main_step w d d' \<Longrightarrow> locks_ok d \<Longrightarrow> locks_ok d' \<or> aborted d'"
  by (erule main_stepE)
    (auto simp: locks_ok_def aborted_def log_def ST_unlock_def c_simps split: if_splits)

lemma main_thread: "main_step w d d' \<Longrightarrow> hook d = Idle \<Longrightarrow> thread_ok d \<Longrightarrow> thread_ok d' \<or> aborted d'"
  by (erule main_stepE)
    (auto simp: thread_ok_def aborted_def log_def ST_unlock_def split: if_splits)

lemma main_texts: "main_step w d d' \<Longrightarrow> texts_ok d \<Longrightarrow> texts_ok d' \<or> aborted d'"
  by (erule main_stepE)
    (auto simp: texts_ok_def aborted_def log_def split: if_splits)

lemma server_locks: "server_step d d' \<Longrightarrow> locks_ok d \<Longrightarrow> locks_ok d' \<or> aborted d'"
  by (erule server_stepE)
    (auto simp: locks_ok_def aborted_def ST_unlock_def c_simps split: if_splits)

lemma server_thread: "server_step d d' \<Longrightarrow> thread_ok d \<Longrightarrow> thread_ok d' \<or> aborted d'"
  by (erule server_stepE) (auto simp: thread_ok_def aborted_def)

lemma server_texts: "server_step d d' \<Longrightarrow> texts_ok d \<Longrightarrow> texts_ok d' \<or> aborted d'"
  by (erule server_stepE) (auto simp: texts_ok_def aborted_def)

lemma launch_result:
  "launch_srv net os c False s = Inr (s', a) \<Longrightarrow>
    (a = None \<longrightarrow> s' = s) \<and> (a \<noteq> None \<longrightarrow> stopped s \<and> s' = s\<lparr>mxq := Some Main, stopped := False\<rparr>)"
  by (auto simp: launch_srv_def Let_def split: if_splits)

lemma reload_lock: "ST_reload_config lc t l s c = Some (m, Inr r) \<Longrightarrow> l = None \<and> m = None"
  by (auto simp: ST_reload_config_def ST_unlock_def c_simps split: option.splits sum.splits)

lemma signal_locks: "signal_step w d d' \<Longrightarrow> thread_ok d \<Longrightarrow> locks_ok d \<Longrightarrow> locks_ok d' \<or> aborted d'"
  by (erule signal_stepE)
    (auto simp: locks_ok_def thread_ok_def aborted_def log_def launched_def
      dest!: launch_result reload_lock split: if_splits option.splits)

lemma signal_thread:
  "signal_step w d d' \<Longrightarrow> hup w \<noteq> Anytime \<Longrightarrow> \<not> ended (main d) \<Longrightarrow> thread_ok d \<Longrightarrow> thread_ok d' \<or> aborted d'"
  by (erule signal_stepE)
    (auto simp: thread_ok_def aborted_def log_def launched_def hangup_ok_def in_loop_def ended_def ST_unlock_def
      dest!: launch_result split: if_splits option.splits main_pc.splits)

lemma signal_texts: "signal_step w d d' \<Longrightarrow> texts_ok d \<Longrightarrow> texts_ok d' \<or> aborted d'"
  by (erule signal_stepE)
    (auto simp: texts_ok_def aborted_def log_def launched_def split: option.splits)

lemma daemon_step_inv:
  assumes "daemon_step w d d'" "hup w \<noteq> Anytime" "daemon_inv d"
  shows "daemon_inv d'"
proof -
  from assms(1) have e: "\<not> ended (main d)" by cases
  then have "\<not> aborted d" by (auto simp: aborted_def ended_def)
  with assms(3) have inv: "locks_ok d" "thread_ok d" "texts_ok d" by (auto simp: daemon_inv_def)
  from assms(1) show ?thesis
  proof cases
    case by_main
    with inv main_locks main_thread main_texts show ?thesis unfolding daemon_inv_def by metis
  next
    case by_server
    with inv server_locks server_thread server_texts show ?thesis unfolding daemon_inv_def by metis
  next
    case by_signal
    with inv e assms(2) signal_locks signal_thread signal_texts show ?thesis unfolding daemon_inv_def by metis
  qed
qed

lemma start_daemon_result:
  assumes "start_daemon lc os net m path uninit stack = Inr (Some d)"
  shows "\<exists>cs c me s a. ST_init_mtab_checker (Some c) m os = Inr (Some me) \<and>
    launch_srv net os c False srv_start = Inr (s, a) \<and> d = launched s a stack (first_state cs c me s stack)"
  using assms unfolding start_daemon_def
  by (fastforce simp: c_simps split: prod.splits bind_splits)

lemma start_daemon_inv: "start_daemon lc os net m path uninit stack = Inr (Some d) \<Longrightarrow> daemon_inv d"
proof (drule start_daemon_result, elim exE conjE)
  fix cs c me s a
  assume "launch_srv net os c False srv_start = Inr (s, a)" "d = launched s a stack (first_state cs c me s stack)"
  then show ?thesis
    by (cases a) (auto simp: daemon_inv_def locks_ok_def thread_ok_def texts_ok_def launched_def
      srv_start_def first_state_def dest!: launch_result)
qed

lemma boots_inv: "boots w d \<Longrightarrow> daemon_inv d"
  by (auto simp: boots_def intro: start_daemon_inv)

interpretation daemon_safe: invariant_machine "boots w" "\<lambda>d d'. hup w \<noteq> Anytime \<and> daemon_step w d d'" daemon_inv
  by unfold_locales (auto intro: boots_inv daemon_step_inv)

lemma reach_guard: "reach i s d \<Longrightarrow> P \<Longrightarrow> reach i (\<lambda>d d'. P \<and> s d d') d"
  by (induction rule: reach.induct) (auto intro: reach.intros)

lemma daemon_reach_inv: "reach (boots w) (daemon_step w) d \<Longrightarrow> hup w \<noteq> Anytime \<Longrightarrow> daemon_inv d"
  by (rule daemon_safe.inv_reach [OF reach_guard])

section \<open>What the server says\<close>

definition json_text_ok :: "byte list \<Rightarrow> bool" where
  "json_text_ok t \<longleftrightarrow> (\<exists>j. json_decode (t @ [0]) = Some (Some j))"

definition fine_entries :: "json \<Rightarrow> bool" where
  "fine_entries j \<longleftrightarrow> plain j \<and> (\<exists>l. list_all good_listing l \<and> j = JArray (map (\<lambda>(d, p). mount_entry d p) l))"

fun says :: "server_pc \<Rightarrow> byte list \<Rightarrow> bool" where
  "says (Copied t) t' \<longleftrightarrow> t = t'"
| "says (Answering t) t' \<longleftrightarrow> t = t'"
| "says _ _ \<longleftrightarrow> False"

definition answer_ok :: "byte list \<Rightarrow> bool" where
  "answer_ok a \<longleftrightarrow> (\<exists>m. a = not_implemented m) \<or> (\<exists>t. a = response t \<and> json_text_ok t)"

definition contents_ok :: "'f daemon \<Rightarrow> bool" where
  "contents_ok d \<longleftrightarrow>
    (\<forall>b t. texts d b = Some t \<longrightarrow> json_text_ok t) \<and> fine_entries (entry_list d) \<and>
    (\<forall>t. says (server d) t \<longrightarrow> json_text_ok t) \<and> list_all answer_ok (answers d)"

lemma plain_text: "plain j \<Longrightarrow> \<exists>t. stringify_text j (Some (bytes '' '')) = Some t \<and> json_text_ok t"
  using stringify_text_ok [of j "Some (bytes '' '')"]
    json_decode_stringified [of j "Some (bytes '' '')"] plain_ok [of j] plain_canon [of j] valid_utf8_space
  by (auto simp: json_text_ok_def simp del: bytes_Cons)

lemma literal_text: "json_text_ok (bytes ''{}'')"
  using empty_object_decodes unfolding json_text_ok_def by blast

lemma read_text_ok: "contents_ok d \<Longrightarrow> read_text d p = Some t \<Longrightarrow> json_text_ok t"
  using literal_text by (cases p) (auto simp: contents_ok_def simp del: bytes_Cons)

lemma check_mounts_fine:
  assumes "good_mounts ms" "check_mounts n ms = Some (es, logs)"
  shows "fine_entries (JArray es)"
proof -
  from assms(1) have ms: "sane_mounts ms" "\<forall>(d, st) \<in> set ms. valid_utf8 d \<and> 0x1F \<notin> set d"
    by (auto simp: good_mounts_def)
  with assms(2) check_mounts_sane have "es = map (\<lambda>(d, p). mount_entry d p) (all_listed n ms)" by simp
  with entries_plain [OF ms, of n] good_mounts_listed [OF assms(1), of n] show ?thesis
    unfolding fine_entries_def by blast
qed

lemma main_contents:
  assumes "main_step w d d'" "\<forall>ms \<in> tables w. good_mounts ms" "contents_ok d"
  shows "contents_ok d'"
  using assms(1)
proof cases
  case (check_mounts n ms es logs)
  with assms(2) check_mounts_fine have "fine_entries (JArray es)" by blast
  with check_mounts assms(3) show ?thesis by (simp add: contents_ok_def log_def)
next
  case (check_print t b)
  with assms(3) plain_text [of "entry_list d"] have "json_text_ok t"
    by (auto simp: contents_ok_def fine_entries_def simp del: bytes_Cons)
  with check_print assms(3) show ?thesis by (simp add: contents_ok_def)
qed (use assms(3) in \<open>auto simp: contents_ok_def log_def split: if_splits\<close>)

lemma server_contents:
  assumes "server_step d d'" "contents_ok d"
  shows "contents_ok d'"
  using assms(1)
proof cases
  case (copy_data t)
  with assms(2) read_text_ok have "json_text_ok t" by blast
  with copy_data assms(2) show ?thesis by (simp add: contents_ok_def)
qed (use assms(2) in \<open>auto simp: contents_ok_def answer_ok_def split: if_splits\<close>)

lemma signal_contents: "signal_step w d d' \<Longrightarrow> contents_ok d \<Longrightarrow> contents_ok d'"
  by (erule signal_stepE) (auto simp: contents_ok_def log_def launched_def split: option.splits)

lemma daemon_step_contents:
  "daemon_step w d d' \<Longrightarrow> \<forall>ms \<in> tables w. good_mounts ms \<Longrightarrow> contents_ok d \<Longrightarrow> contents_ok d'"
  by (erule daemon_stepE) (auto intro: main_contents server_contents signal_contents)

lemma init_checker_result:
  assumes "ST_init_mtab_checker c m os = Inr (Some me)"
  shows "json_entries me = JArray [] \<and> json_text_ok (textural me)"
proof -
  have s: "stringify_text (JArray []) (Some []) = Some (bytes ''[]'')" by code_simp
  have "json_decode (bytes ''[]'' @ [0]) = Some (Some (JArray []))" by code_simp
  then have "json_text_ok (bytes ''[]'')" unfolding json_text_ok_def by blast
  with assms s show ?thesis
    by (auto simp: ST_init_mtab_checker_def simp del: bytes_Cons split: if_splits)
qed

lemma boots_contents: "boots w d \<Longrightarrow> contents_ok d"
  unfolding boots_def
proof (elim bexE exE, drule start_daemon_result, elim exE conjE)
  fix m os stack cs c me s a
  assume "ST_init_mtab_checker (Some c) m os = Inr (Some me)" and d: "d = launched s a stack (first_state cs c me s stack)"
  from init_checker_result [OF this(1)] have "json_entries me = JArray []" "json_text_ok (textural me)" by auto
  then have "contents_ok (first_state cs c me s stack)"
    by (auto simp: contents_ok_def first_state_def fine_entries_def intro!: exI [of _ "[]"])
  then show "contents_ok d" unfolding d by (auto simp: contents_ok_def launched_def split: option.splits)
qed

interpretation daemon_contents: invariant_machine "boots w"
  "\<lambda>d d'. (\<forall>ms \<in> tables w. good_mounts ms) \<and> daemon_step w d d'" contents_ok
  by unfold_locales (auto intro: boots_contents daemon_step_contents)

lemma daemon_reach_contents:
  "reach (boots w) (daemon_step w) d \<Longrightarrow> \<forall>ms \<in> tables w. good_mounts ms \<Longrightarrow> contents_ok d"
  by (rule daemon_contents.inv_reach [OF reach_guard])

section \<open>What the answers report\<close>

text \<open>The list of a check: the mount points of a table at or below a level, in its order, with their percentages.\<close>

definition listing :: "('f, 'g) world \<Rightarrow> json \<Rightarrow> bool" where
  "listing w j \<longleftrightarrow> (\<exists>ms \<in> tables w. \<exists>n. j = JArray (map (\<lambda>(d, p). mount_entry d p) (all_listed n ms)))"

definition reports :: "('f, 'g) world \<Rightarrow> byte list \<Rightarrow> bool" where
  "reports w t \<longleftrightarrow> (\<exists>j. listing w j \<and> json_decode (t @ [0]) = Some (Some j))"

definition tells :: "('f, 'g) world \<Rightarrow> byte list \<Rightarrow> bool" where
  "tells w t \<longleftrightarrow> t = bytes ''{}'' \<or> reports w t"

text \<open>From the check on to the publication of its text; then what the pointer refers to, and what the server says.\<close>

definition reporting :: "('f, 'g) world \<Rightarrow> 'f daemon \<Rightarrow> bool" where
  "reporting w d \<longleftrightarrow>
    (main d = Check_free \<or> main d = Check_print \<longrightarrow> listing w (entry_list d) \<and> plain (entry_list d)) \<and>
    (main d = Check_unlock \<or> main d = Set_data \<longrightarrow> (\<forall>t. texts d (text_block d) = Some t \<longrightarrow> reports w t)) \<and>
    (\<forall>b t. data d = Block b \<longrightarrow> texts d b = Some t \<longrightarrow> reports w t) \<and>
    (\<forall>t. says (server d) t \<longrightarrow> tells w t) \<and>
    list_all (\<lambda>a. (\<exists>m. a = not_implemented m) \<or> (\<exists>t. a = response t \<and> tells w t)) (answers d)"

lemma plain_reports:
  assumes "plain j" "listing w j" "stringify_text j (Some (bytes '' '')) = Some t"
  shows "reports w t"
  using assms stringify_text_ok [of j "Some (bytes '' '')"] json_decode_stringified [of j "Some (bytes '' '')"]
    plain_ok [of j] plain_canon [of j] valid_utf8_space
  by (auto simp: reports_def simp del: bytes_Cons)

lemma check_listing:
  assumes "good_mounts ms" "ms \<in> tables w" "check_mounts n ms = Some (es, logs)"
  shows "listing w (JArray es) \<and> plain (JArray es)"
proof -
  from assms(1) have ms: "sane_mounts ms" "\<forall>(d, st) \<in> set ms. valid_utf8 d \<and> 0x1F \<notin> set d" by (auto simp: good_mounts_def)
  with assms(3) check_mounts_sane have "es = map (\<lambda>(d, p). mount_entry d p) (all_listed n ms)" by simp
  with entries_plain [OF ms, of n] assms(2) show ?thesis unfolding listing_def by blast
qed

lemma main_reporting:
  assumes "main_step w d d'" "\<forall>ms \<in> tables w. good_mounts ms" "reporting w d"
  shows "reporting w d'"
  using assms(1)
proof cases
  case (check_mounts n ms es logs)
  with check_listing [of ms w n es logs] assms(2,3) show ?thesis by (simp add: reporting_def log_def)
next
  case (check_print t b)
  with assms(3) plain_reports [of "entry_list d" w t] have "reports w t" by (auto simp: reporting_def simp del: bytes_Cons)
  with check_print assms(3) show ?thesis by (simp add: reporting_def)
qed (use assms(3) in \<open>auto simp: reporting_def log_def split: if_splits\<close>)

lemma read_tells: "reporting w d \<Longrightarrow> read_text d (data d) = Some t \<Longrightarrow> tells w t"
  by (cases "data d") (auto simp: reporting_def tells_def simp del: bytes_Cons)

lemma server_reporting:
  assumes "server_step d d'" "reporting w d"
  shows "reporting w d'"
  using assms(1)
proof cases
  case (copy_data t)
  with read_tells [OF assms(2), of t] assms(2) show ?thesis by (simp add: reporting_def)
qed (use assms(2) in \<open>auto simp: reporting_def split: if_splits\<close>)

lemma signal_reporting: "signal_step w d d' \<Longrightarrow> reporting w d \<Longrightarrow> reporting w d'"
  by (erule signal_stepE) (auto simp: reporting_def log_def launched_def split: option.splits)

lemma boots_reporting: "boots w d \<Longrightarrow> reporting w d"
  unfolding boots_def
proof (elim bexE exE, drule start_daemon_result, elim exE conjE)
  fix stack cs c me s a
  assume "d = launched s a stack (first_state cs c me s stack)"
  then show "reporting w d" by (auto simp: reporting_def launched_def first_state_def split: option.splits)
qed

interpretation daemon_reports: invariant_machine "boots w"
  "\<lambda>d d'. (\<forall>ms \<in> tables w. good_mounts ms) \<and> daemon_step w d d'" "reporting w"
  by unfold_locales (auto elim!: daemon_stepE intro: boots_reporting main_reporting server_reporting signal_reporting)

section \<open>Progress\<close>

lemma read_request_cases: "read_request b inp = None \<or> (\<exists>m b'. read_request b inp = Some (Some m, b')) \<or>
    (\<exists>b'. read_request b inp = Some (None, b'))"
  by (metis option.exhaust surj_pair)

lemma fine_report: "fine_entries j \<Longrightarrow> \<exists>ms. report th (json_children j) = Some ms"
  using report_listings by (fastforce simp: fine_entries_def)

lemma good_check: "good_mounts ms \<Longrightarrow> \<exists>es logs. check_mounts n ms = Some (es, logs)"
  using check_mounts_sane by (fastforce simp: good_mounts_def)

lemma main_moves:
  assumes "daemon_inv d" "contents_ok d" "\<not> ended (main d)" "\<forall>b i. main d \<noteq> Join b i" "ms \<in> tables w" "good_mounts ms"
  shows "\<exists>d'. main_step w d d'"
proof -
  have inv: "locks_ok d" "texts_ok d" using assms(1,3) by (auto simp: daemon_inv_def aborted_def ended_def)
  have c: "conf_mx d = None" if "main d \<noteq> Read_conf" using inv(1) that by (simp add: locks_ok_def)
  have e: "entries_mx d = None" if "\<not> holds_entries (main d)" using inv(1) that by (simp add: locks_ok_def)
  have t: "texts d (text_block d) \<noteq> None" if "\<not> text_gone (main d)" using inv(2) that by (simp add: texts_ok_def)
  show ?thesis
  proof (cases "main d")
    case Top
    with c show ?thesis by (cases "active d") (fastforce intro: main_step.intros simp: c_simps)+
  next
    case (Poll th)
    then show ?thesis by (intro exI, rule main_step.poll [where r = Ready]) simp_all
  next
    case (Report th)
    with fine_report [of "entry_list d" th] assms(2) show ?thesis
      by (auto simp: contents_ok_def intro: main_step.report)
  next
    case Try_buffer
    then show ?thesis by (cases "data_mx d") (fastforce intro: main_step.try_lock main_step.try_busy simp: c_simps)+
  next
    case (Check_mounts n)
    with good_check [OF assms(6), of n] assms(5) show ?thesis by (auto intro: main_step.check_mounts)
  next
    case Check_print
    then have "texts d (text_block d) = None" using inv(2) by (simp add: texts_ok_def)
    with Check_print plain_text [of "entry_list d"] assms(2) show ?thesis
      by (auto simp: contents_ok_def fine_entries_def intro: main_step.check_print simp del: bytes_Cons)
  next
    case (Stop b)
    then show ?thesis by (cases "srv_stopped d") (auto intro: main_step.intros)
  next
    case (Join b i)
    with assms(4) show ?thesis by blast
  next
    case (Lock_entries th)
    with e show ?thesis by (fastforce intro: main_step.lock_entries simp: c_simps)
  next
    case Check_conf
    with c show ?thesis by (fastforce intro: main_step.check_conf simp: c_simps)
  next
    case (Check_lock n)
    with e show ?thesis by (fastforce intro: main_step.check_lock simp: c_simps)
  next
    case Check_free
    with t show ?thesis by (metis main_step.check_free text_gone.simps)
  next
    case Free_entries
    with t show ?thesis by (metis main_step.free_entries text_gone.simps)
  qed (use assms(3) in \<open>auto simp: ended_def intro: main_step.intros\<close>)
qed

text \<open>A server thread that the main thread waits for can go on, unless its client never ends the headers.\<close>

lemma server_moves:
  assumes "daemon_inv d" "main d = Join b i"
  shows "(\<exists>d'. main_step w d d') \<or> (\<exists>d'. server_step d d') \<or>
    (\<exists>inp. server d = Reading inp \<and> read_request (bufs d) inp = None)"
proof -
  have inv: "locks_ok d" "texts_ok d" using assms by (auto simp: daemon_inv_def aborted_def)
  then have c: "conf_mx d = None" "data_mx d = (if serving (server d) then Some Server else None)" "buffer_live d"
    "texts d (text_block d) \<noteq> None" "data d = Literal \<or> data d = Block (text_block d)"
    using assms(2) by (auto simp: locks_ok_def texts_ok_def)
  show ?thesis
  proof (cases "server d")
    case (Setup a)
    have "serve_setup \<lparr>inet_addr = (\<lambda>_. 0), socket_ok = True, bind_ok = True, listen_ok = True\<rparr> (conf d) a =
        Inr (a, word_of_int (http_port (conf d)))" by (simp add: serve_setup_def)
    with Setup c(1) show ?thesis by (fastforce intro: server_step.listen simp: c_simps)
  next
    case (Reading inp)
    with read_request_cases [of "bufs d" inp] show ?thesis by (auto intro: server_step.intros)
  next
    case Lock_buffer
    with c show ?thesis by (fastforce intro: server_step.lock_buffer simp: c_simps)
  next
    case Copy_data
    with c show ?thesis by (fastforce intro: server_step.copy_data)
  next
    case Ended
    with assms(2) show ?thesis by (auto intro: main_step.join)
  qed (use c in \<open>auto intro: server_step.intros\<close>)
qed

section \<open>Termination\<close>

fun main_rank :: "main_pc \<Rightarrow> nat" where
  "main_rank Read_conf = 23"
| "main_rank (Poll _) = 22"
| "main_rank (Lock_entries _) = 21"
| "main_rank (Report _) = 20"
| "main_rank Try_buffer = 19"
| "main_rank Check_conf = 18"
| "main_rank (Check_lock _) = 17"
| "main_rank (Check_mounts _) = 16"
| "main_rank Check_free = 15"
| "main_rank Check_print = 14"
| "main_rank Check_unlock = 13"
| "main_rank Set_data = 12"
| "main_rank Unlock_buffer = 11"
| "main_rank Receive = 10"
| "main_rank Top = 9"
| "main_rank (Stop b) = (if b then 6 else 8)"
| "main_rank (Join b _) = (if b then 5 else 7)"
| "main_rank Free_buffer = 4"
| "main_rank Free_entries = 3"
| "main_rank Free_config = 2"
| "main_rank _ = 0"

lemma main_rank_decreases:
  "main_step w d d' \<Longrightarrow> \<not> active d \<Longrightarrow> \<not> active d' \<and> main_rank (main d') < main_rank (main d) \<and> hook d' = hook d"
  by (erule main_stepE) (auto simp: log_def)

lemma main_run_bound:
  "(main_step w ^^ n) d d' \<Longrightarrow> \<not> active d \<Longrightarrow> n + main_rank (main d') \<le> main_rank (main d)"
proof (induction n arbitrary: d')
  case (Suc n)
  then obtain d1 where d1: "(main_step w ^^ n) d d1" "main_step w d1 d'" by auto
  have "\<not> active d1" using d1(1) Suc.prems(2)
    by (induction n arbitrary: d1) (auto dest: main_rank_decreases)
  with d1 Suc.IH Suc.prems(2) main_rank_decreases [of w d1 d'] show ?case by fastforce
qed simp

lemma main_rank_le: "main_rank pc \<le> 23"
  by (cases pc) auto

lemma main_runs_out:
  assumes "reach (boots w) (daemon_step w) d" "\<not> active d" "hook d = Idle" "hup w \<noteq> Anytime"
    "\<forall>ms \<in> tables w. good_mounts ms" "tables w \<noteq> {}"
  shows "\<exists>n d'. (main_step w ^^ n) d d' \<and> (ended (main d') \<or> (\<exists>b i. main d' = Join b i))"
  using assms(1-3)
proof (induction "main_rank (main d)" arbitrary: d rule: less_induct)
  case less
  show ?case
  proof (cases "ended (main d) \<or> (\<exists>b i. main d = Join b i)")
    case True
    then show ?thesis by (intro exI [of _ 0]) auto
  next
    case False
    with daemon_reach_inv [OF less.prems(1) assms(4)] daemon_reach_contents [OF less.prems(1) assms(5)] assms(5,6)
    obtain d1 where d1: "main_step w d d1" using main_moves by (metis all_not_in_conv)
    with main_rank_decreases [OF d1 less.prems(2)] less.prems False
    obtain n d' where "(main_step w ^^ n) d1 d'" "ended (main d') \<or> (\<exists>b i. main d' = Join b i)"
      using less.hyps [of d1] reach_step daemon_step.by_main by metis
    with d1 show ?thesis by (metis relpowp_Suc_I2)
  qed
qed

fun server_rank :: "server_pc \<Rightarrow> nat" where
  "server_rank (Setup _) = 2"
| "server_rank Quit_test = 1"
| "server_rank Accept = 7"
| "server_rank (Reading _) = 6"
| "server_rank Lock_buffer = 5"
| "server_rank Copy_data = 4"
| "server_rank (Copied _) = 3"
| "server_rank (Answering _) = 2"
| "server_rank Ended = 0"

lemma server_rank_decreases:
  "server_step d d' \<Longrightarrow> quit_mx d = None \<Longrightarrow> \<not> aborted d' \<Longrightarrow>
    quit_mx d' = None \<and> server_rank (server d') < server_rank (server d) \<and> main d' = main d"
  by (erule server_stepE) (auto simp: quit_def aborted_def c_simps trylock_def)

end
