(* ===== verification/DaemonRuns.thy ===== *)
theory DaemonRuns
  imports DaemonInv
begin

text \<open>
  Runs of the daemon and its properties: places where a hangup hangs the process, one undisturbed
  turn of the main thread against the sequential turn of \<open>CheckLoop\<close>, a hangup that comes too late,
  a small concrete world, and the theorems.
\<close>

section \<open>Hanging\<close>

text \<open>The hook waits for a mutex that the main thread below it holds, or for a server thread that waits for
  one.\<close>

definition hung :: "'f daemon \<Rightarrow> bool" where
  "hung d \<longleftrightarrow> hook d = Reload \<and> conf_mx d = Some Main \<or>
    hook d = Rejoin (thread_no d) \<and> server d = Lock_buffer \<and> data_mx d = Some Main"

lemma hung_server: "server_step d d' \<Longrightarrow> hung d \<Longrightarrow> hung d' \<or> aborted d'"
  by (erule server_stepE) (auto simp: hung_def aborted_def c_simps)

lemma hung_signal: "signal_step w d d' \<Longrightarrow> hung d \<Longrightarrow> hung d' \<or> aborted d'"
  by (erule signal_stepE)
    (auto simp: hung_def aborted_def log_def launched_def ST_reload_config_def c_simps split: option.splits)

lemma hung_step: "daemon_step w d d' \<Longrightarrow> hung d \<Longrightarrow> hung d' \<or> aborted d'"
  by (erule daemon_stepE) (auto dest: hung_server hung_signal simp: hung_def)

lemma aborted_stuck: "daemon_step w d d' \<Longrightarrow> \<not> aborted d"
  by (erule daemon_stepE) (auto simp: aborted_def ended_def)

lemma hung_forever: "rtranclp (daemon_step w) d d' \<Longrightarrow> hung d \<Longrightarrow> hung d' \<or> aborted d'"
  by (induction rule: rtranclp_induct) (auto dest: hung_step aborted_stuck)

lemma go_signal:
  "reach i (daemon_step w) d \<Longrightarrow> \<not> ended (main d) \<Longrightarrow> signal_step w d d' \<Longrightarrow> reach i (daemon_step w) d'"
  by (blast intro: reach_step daemon_step.by_signal)

lemma go_main:
  "reach i (daemon_step w) d \<Longrightarrow> \<not> ended (main d) \<Longrightarrow> hook d = Idle \<Longrightarrow> main_step w d d' \<Longrightarrow> reach i (daemon_step w) d'"
  by (blast intro: reach_step daemon_step.by_main)

lemma go_server:
  "reach i (daemon_step w) d \<Longrightarrow> \<not> ended (main d) \<Longrightarrow> server_step d d' \<Longrightarrow> reach i (daemon_step w) d'"
  by (blast intro: reach_step daemon_step.by_server)

lemma hangup_in_conf:
  assumes "reach (boots w) (daemon_step w) d" "hup w = In_loop" "hook d = Idle" "main d = Read_conf"
  shows "\<exists>d'. reach (boots w) (daemon_step w) d' \<and> hung d'"
proof -
  have "daemon_inv d" by (rule daemon_reach_inv [OF assms(1)]) (simp add: assms(2))
  with assms(4) have "conf_mx d = Some Main" by (simp add: daemon_inv_def aborted_def locks_ok_def)
  moreover have "signal_step w d (log [(bytes ''daemon reloading.'', ST_MSG_NOTICE)] (d\<lparr>hook := Reload\<rparr>))"
    using assms by (intro signal_step.sighup) (simp_all add: hangup_ok_def in_loop_def)
  from go_signal [OF assms(1) _ this] assms(4)
  have "reach (boots w) (daemon_step w) (log [(bytes ''daemon reloading.'', ST_MSG_NOTICE)] (d\<lparr>hook := Reload\<rparr>))"
    by (simp add: ended_def)
  ultimately show ?thesis by (intro exI conjI) (auto simp: hung_def log_def)
qed

lemma hangup_in_check:
  assumes "reach (boots w) (daemon_step w) d" "hup w = In_loop" "hook d = Idle"
    "holds_buffer (main d)" "server d = Lock_buffer"
    "lc \<in> libs w" "configured lc (file_path (cstate d)) = Inr (f, c)"
  shows "\<exists>d'. reach (boots w) (daemon_step w) d' \<and> hung d'"
proof -
  have "daemon_inv d" by (rule daemon_reach_inv [OF assms(1)]) (simp add: assms(2))
  then have inv: "locks_ok d" "thread_ok d"
    using assms(4) by (auto simp: daemon_inv_def aborted_def)
  have e: "\<not> ended (main d)" "in_loop (main d)" "main d \<noteq> Read_conf"
    using assms(4) by (auto simp: ended_def in_loop_def split: main_pc.splits)
  have mx: "conf_mx d = None" "data_mx d = Some Main" "\<not> srv_stopped d"
    using inv assms(4,5) e(3) by (auto simp: locks_ok_def thread_ok_def)
  let ?d1 = "log [(bytes ''daemon reloading.'', ST_MSG_NOTICE)] (d\<lparr>hook := Reload\<rparr>)"
  have "signal_step w d ?d1" using assms e by (intro signal_step.sighup) (simp_all add: hangup_ok_def)
  note r1 = go_signal [OF assms(1) e(1) this]
  let ?d2 = "?d1\<lparr>conf_mx := None, cstate := (cstate d)\<lparr>cfg := Some f\<rparr>, conf := c, hook := Restart\<rparr>"
  have "signal_step w ?d1 ?d2"
    by (rule signal_step.reload [where lc = lc])
      (use assms mx in \<open>simp_all add: log_def ST_reload_config_def ST_lock_def ST_unlock_def load_from_file_configured\<close>)
  note r2 = go_signal [OF r1 _ this]
  let ?d3 = "?d2\<lparr>quit_mx := ST_unlock (quit_mx d), hook := Rejoin (thread_no d)\<rparr>"
  have "signal_step w ?d2 ?d3"
    using signal_step.restart_running [of ?d2 w] mx by (simp add: log_def)
  note r3 = go_signal [OF r2 _ this]
  have "hung ?d3" using mx assms(5) by (simp add: hung_def log_def)
  with r3 e(1) show ?thesis by (auto simp: log_def)
qed

section \<open>A turn of the loop\<close>

text \<open>The sequential state of \<open>CheckLoop\<close> in a state of the daemon.\<close>

definition loop_of :: "'f daemon \<Rightarrow> loop_state" where
  "loop_of d =
    \<lparr>entries = \<lparr>json_entries = entry_list d, textural = the (texts d (text_block d))\<rparr>,
     served = the (read_text d (data d))\<rparr>"

lemma five_steps:
  "main_step w a b \<Longrightarrow> main_step w b c \<Longrightarrow> main_step w c d \<Longrightarrow> main_step w d e \<Longrightarrow> main_step w e f \<Longrightarrow>
    rtranclp (main_step w) a f"
  by (meson rtranclp.rtrancl_into_rtrancl rtranclp.rtrancl_refl)

lemma main_reports:
  assumes "main d = Top" "active d" "locks_ok d"
    "report (thresholds_of (conf d)) (json_children (entry_list d)) = Some ms"
  shows "rtranclp (main_step w) d (log ms (d\<lparr>main := Try_buffer\<rparr>))"
proof -
  have mx: "conf_mx d = None" "entries_mx d = None" using assms(1,3) by (simp_all add: locks_ok_def)
  let ?th = "thresholds_of (conf d)"
  let ?d1 = "d\<lparr>conf_mx := Some Main, main := Read_conf\<rparr>"
  let ?d2 = "d\<lparr>conf_mx := None, main := Poll ?th\<rparr>"
  let ?d3 = "d\<lparr>conf_mx := None, main := Lock_entries ?th\<rparr>"
  let ?d4 = "d\<lparr>conf_mx := None, entries_mx := Some Main, main := Report ?th\<rparr>"
  let ?d5 = "log ms (d\<lparr>conf_mx := None, entries_mx := None, main := Try_buffer\<rparr>)"
  have "main_step w d ?d1" using main_step.top_lock [of d "Some Main" w] assms mx by (simp add: c_simps)
  moreover have "main_step w ?d1 ?d2" using main_step.read_conf [of ?d1 w] mx by (simp add: ST_unlock_def)
  moreover have "main_step w ?d2 ?d3" using main_step.poll [of ?d2 ?th Ready True w] by simp
  moreover have "main_step w ?d3 ?d4" using main_step.lock_entries [of ?d3 ?th "Some Main" w] mx by (simp add: c_simps)
  moreover have "main_step w ?d4 ?d5"
    using main_step.report [of ?d4 ?th ms w] assms(4) by (simp add: log_def ST_unlock_def)
  ultimately have "rtranclp (main_step w) d ?d5" by (rule five_steps)
  moreover have "?d5 = log ms (d\<lparr>main := Try_buffer\<rparr>)" using mx by (cases d) (simp add: log_def)
  ultimately show ?thesis by simp
qed

lemma main_publishes:
  assumes "main d = Try_buffer" "locks_ok d" "data_mx d = None" "texts_ok d" "ms \<in> tables w"
    "check_mounts (notice_percent (conf d)) ms = Some (es, logs)"
    "stringify_text (JArray es) (Some (bytes '' '')) = Some t"
  shows "rtranclp (main_step w) d
    (log logs (d\<lparr>entry_list := JArray es, texts := (texts d)(text_block d := Some t), data := Block (text_block d), main := Top\<rparr>))"
proof -
  have mx: "conf_mx d = None" "entries_mx d = None" using assms(1,2) by (simp_all add: locks_ok_def)
  have live: "texts d (text_block d) \<noteq> None" using assms(1,4) by (simp add: texts_ok_def)
  let ?n = "notice_percent (conf d)" and ?b = "text_block d"
  let ?t = "(texts d)(?b := Some t)"
  let ?d1 = "d\<lparr>data_mx := Some Main, main := Check_conf\<rparr>"
  let ?d2 = "d\<lparr>data_mx := Some Main, conf_mx := None, main := Check_lock ?n\<rparr>"
  let ?d3 = "d\<lparr>data_mx := Some Main, conf_mx := None, entries_mx := Some Main, main := Check_mounts ?n\<rparr>"
  let ?d4 = "log logs (d\<lparr>data_mx := Some Main, conf_mx := None, entries_mx := Some Main, entry_list := JArray es, main := Check_free\<rparr>)"
  let ?d5 = "?d4\<lparr>texts := (texts d)(?b := None), main := Check_print\<rparr>"
  let ?d6 = "?d4\<lparr>texts := ?t, main := Check_unlock\<rparr>"
  let ?d7 = "?d4\<lparr>texts := ?t, entries_mx := None, main := Set_data\<rparr>"
  let ?d8 = "?d4\<lparr>texts := ?t, entries_mx := None, data := Block ?b, main := Unlock_buffer\<rparr>"
  let ?d9 = "?d4\<lparr>texts := ?t, entries_mx := None, data := Block ?b, data_mx := None, main := Receive\<rparr>"
  let ?d10 = "?d4\<lparr>texts := ?t, entries_mx := None, data := Block ?b, data_mx := None, main := Top\<rparr>"
  have s1: "main_step w d ?d1" using main_step.try_lock [of d "Some Main" w] assms by (simp add: c_simps)
  have s2: "main_step w ?d1 ?d2"
    using main_step.check_conf [of ?d1 "Some Main" w] mx by (simp add: c_simps ST_unlock_def)
  have s3: "main_step w ?d2 ?d3" using main_step.check_lock [of ?d2 ?n "Some Main" w] mx by (simp add: c_simps)
  have s4: "main_step w ?d3 ?d4" using main_step.check_mounts [of ?d3 ?n ms w es logs] assms by (simp add: log_def)
  have s5: "main_step w ?d4 ?d5" using main_step.check_free [of ?d4 w] live by (simp add: log_def)
  have s6: "main_step w ?d5 ?d6"
    using main_step.check_print [of ?d5 t ?b w] assms(7) by (simp add: log_def del: bytes_Cons)
  have s7: "main_step w ?d6 ?d7" using main_step.check_unlock [of ?d6 w] by (simp add: log_def ST_unlock_def)
  have s8: "main_step w ?d7 ?d8" using main_step.set_data [of ?d7 w] by (simp add: log_def)
  have s9: "main_step w ?d8 ?d9" using main_step.unlock_buffer [of ?d8 w] by (simp add: log_def ST_unlock_def)
  have s10: "main_step w ?d9 ?d10" using main_step.receive [of ?d9 w] by (simp add: log_def)
  from five_steps [OF s1 s2 s3 s4 s5] five_steps [OF s6 s7 s8 s9 s10]
  have "rtranclp (main_step w) d ?d10" by (rule rtranclp_trans)
  moreover have "?d10 = log logs (d\<lparr>entry_list := JArray es, texts := ?t, data := Block ?b, main := Top\<rparr>)"
    using mx assms(3) by (cases d) (simp add: log_def)
  ultimately show ?thesis by simp
qed

lemma main_turn:
  assumes "main d = Top" "active d" "locks_ok d" "texts_ok d" "ms \<in> tables w"
    "check_turn (conf d) (conf d) (data_mx d = None) ms (loop_of d) = Some (st, logs)"
  shows "\<exists>d'. rtranclp (main_step w) d d' \<and> main d' = Top \<and> loop_of d' = st \<and> logged d' = logged d @ logs"
proof -
  from assms(6) obtain msgs where r: "report (thresholds_of (conf d)) (json_children (entry_list d)) = Some msgs"
    by (auto simp: check_turn_def loop_of_def simp del: bytes_Cons split: bind_splits)
  let ?d1 = "log msgs (d\<lparr>main := Try_buffer\<rparr>)"
  note reports = main_reports [OF assms(1-3) r, of w]
  have ok: "locks_ok ?d1" "texts_ok ?d1" using assms(1,3,4) by (simp_all add: locks_ok_def texts_ok_def log_def)
  show ?thesis
  proof (cases "data_mx d = None")
    case True
    with assms(6) r obtain es ls t where c: "check_mounts (notice_percent (conf d)) ms = Some (es, ls)"
      "stringify_text (JArray es) (Some (bytes '' '')) = Some t" "logs = msgs @ ls"
      "st = \<lparr>entries = \<lparr>json_entries = JArray es, textural = t\<rparr>, served = t\<rparr>"
      by (auto simp: check_turn_def loop_of_def ST_check_mtab_def simp del: bytes_Cons split: bind_splits)
    from main_publishes [OF _ ok(1) _ ok(2) assms(5), of es ls t] c True reports show ?thesis
      by (intro exI conjI, elim rtranclp_trans) (auto simp: log_def loop_of_def simp del: bytes_Cons)
  next
    case False
    let ?d2 = "log [(bytes ''srv_buff->mutex locked'', ST_MSG_NOTICE)] (?d1\<lparr>main := Receive\<rparr>)"
    have "main_step w ?d1 ?d2"
      using main_step.try_busy [of ?d1 "data_mx d" w] False by (simp add: log_def c_simps)
    moreover have "main_step w ?d2 (?d2\<lparr>main := Top\<rparr>)" by (rule main_step.receive) (simp add: log_def)
    ultimately have "rtranclp (main_step w) d (?d2\<lparr>main := Top\<rparr>)"
      using reports by (meson rtranclp.rtrancl_into_rtrancl)
    moreover have "loop_of (?d2\<lparr>main := Top\<rparr>) = st" "logged (?d2\<lparr>main := Top\<rparr>) = logged d @ logs"
      using assms(6) r False
      by (cases "data d"; auto simp: check_turn_def loop_of_def log_def simp del: bytes_Cons split: bind_splits)+
    ultimately show ?thesis by (intro exI [of _ "?d2\<lparr>main := Top\<rparr>"]) simp
  qed
qed

section \<open>A late hangup\<close>

text \<open>An operating system that grants everything.\<close>

definition sample_net :: net where
  "sample_net = \<lparr>inet_addr = (\<lambda>_. 0), socket_ok = True, bind_ok = True, listen_ok = True\<rparr>"

definition sample_os :: os where
  "sample_os = \<lparr>malloc_ok = True, mutex_init = 0, strerror = (\<lambda>_. [])\<rparr>"

lemma launch_enabled:
  assumes "http_enabled c \<noteq> 0"
  shows "launch_srv sample_net sample_os c False \<lparr>stopped = True, mxq = m, listening = None\<rparr> =
    Inr (\<lparr>stopped = False, mxq = Some Main, listening = None\<rparr>, Some 0)"
  using assms by (simp add: launch_srv_def sample_net_def sample_os_def INADDR_NONE_def)

text \<open>A server thread that has just been started gets to the mutex of the buffer with one request.\<close>

lemma server_to_buffer:
  assumes "reach i (daemon_step w) d" "\<not> ended (main d)" "server d = Setup a" "conf_mx d = None" "quit_mx d = Some Main"
  shows "\<exists>b. reach i (daemon_step w) (d\<lparr>bufs := b, server := Lock_buffer\<rparr>)"
proof -
  let ?inp = "line ''GET /'' @ concat [] @ crlf @ []"
  let ?d1 = "d\<lparr>server := Quit_test\<rparr>" and ?d2 = "d\<lparr>server := Accept\<rparr>" and ?d3 = "d\<lparr>server := Reading ?inp\<rparr>"
  let ?d4 = "d\<lparr>bufs := \<lparr>buf = crlf, req_method = bytes ''GET''\<rparr>, server := Lock_buffer\<rparr>"
  have "server_step d ?d1"
    by (rule server_step.listen [where net = sample_net and l = "(a, word_of_int (http_port (conf d)))"])
      (use assms in \<open>simp_all add: c_simps serve_setup_def sample_net_def\<close>)
  note r1 = go_server [OF assms(1,2) this]
  have "server_step ?d1 ?d2" using server_step.quit_test [of ?d1] assms(5) by (simp add: quit_def trylock_def)
  note r2 = go_server [OF r1 _ this]
  have "server_step ?d2 ?d3" using server_step.accept [of ?d2 ?inp] by simp
  note r3 = go_server [OF r2 _ this]
  have "read_request (bufs d) ?inp = Some (None, \<lparr>buf = crlf, req_method = bytes ''GET''\<rparr>)"
    by (rule read_get [OF simple_request]) (simp_all add: same_nocase_def)
  then have "server_step ?d3 ?d4"
    using server_step.headers_read [of ?d3 ?inp "\<lparr>buf = crlf, req_method = bytes ''GET''\<rparr>"] by simp
  note r4 = go_server [OF r3 _ this]
  from r4 assms(2) show ?thesis by (intro exI [of _ "\<lparr>buf = crlf, req_method = bytes ''GET''\<rparr>"]) simp
qed

text \<open>There it answers with the text.\<close>

lemma server_answers:
  assumes "reach i (daemon_step w) d" "\<not> ended (main d)" "server d = Lock_buffer" "buffer_live d" "data_mx d = None"
    "read_text d (data d) = Some t"
  shows "reach i (daemon_step w) (d\<lparr>data_mx := None, answers := answers d @ [response t], server := Quit_test\<rparr>)"
proof -
  let ?d1 = "d\<lparr>data_mx := Some Server, server := Copy_data\<rparr>"
  let ?d2 = "d\<lparr>data_mx := Some Server, server := Copied t\<rparr>"
  let ?d3 = "d\<lparr>data_mx := None, server := Answering t\<rparr>"
  have "server_step d ?d1" by (rule server_step.lock_buffer) (use assms in \<open>simp_all add: c_simps\<close>)
  note r1 = go_server [OF assms(1,2) this]
  have "read_text ?d1 (data ?d1) = Some t" using assms(6) by (cases "data d") simp_all
  then have "server_step ?d1 ?d2" using server_step.copy_data [of ?d1 t] assms(4) by simp
  note r2 = go_server [OF r1 _ this]
  have "server_step ?d2 ?d3" using server_step.copied [of ?d2 t] assms(4) by (simp add: ST_unlock_def)
  note r3 = go_server [OF r2 _ this]
  have "server_step ?d3 (d\<lparr>data_mx := None, answers := answers d @ [response t], server := Quit_test\<rparr>)"
    using server_step.answer [of ?d3 t] by simp
  note r4 = go_server [OF r3 _ this]
  from r4 assms(2) show ?thesis by simp
qed

text \<open>A hangup starts the server when it is stopped.\<close>

lemma hangup_starts_server:
  assumes "reach i (daemon_step w) d" "hangup_ok (hup w) (main d)" "hook d = Idle" "\<not> ended (main d)"
    "srv_stopped d" "conf_mx d = None"
    "lc \<in> libs w" "configured lc (file_path (cstate d)) = Inr (f, c)" "http_enabled c \<noteq> 0"
  shows "\<exists>d'. reach i (daemon_step w) d' \<and> main d' = main d \<and> server d' = Setup 0 \<and> conf_mx d' = None \<and>
    quit_mx d' = Some Main \<and> buffer_live d' = buffer_live d \<and> data d' = data d \<and> data_mx d' = data_mx d \<and>
    hook d' = Idle \<and> active d' = active d"
proof -
  let ?s = "\<lparr>stopped = False, mxq = Some Main, listening = None\<rparr>"
  let ?d1 = "log [(bytes ''daemon reloading.'', ST_MSG_NOTICE)] (d\<lparr>hook := Reload\<rparr>)"
  let ?d2 = "?d1\<lparr>conf_mx := None, cstate := (cstate d)\<lparr>cfg := Some f\<rparr>, conf := c, hook := Restart\<rparr>"
  let ?d3 = "?d2\<lparr>hook := Start\<rparr>"
  let ?d4 = "launched ?s (Some 0) (bufs d) (?d3\<lparr>hook := Idle\<rparr>)"
  have m: "\<not> ended (main ?d1)" "\<not> ended (main ?d2)" "\<not> ended (main ?d3)" using assms(4) by (simp_all add: log_def)
  have "signal_step w d ?d1" using assms(2,3) by (rule signal_step.sighup [rotated])
  note r1 = go_signal [OF assms(1,4) this]
  have "signal_step w ?d1 ?d2"
    by (rule signal_step.reload [where lc = lc])
      (use assms in \<open>simp_all add: log_def ST_reload_config_def ST_lock_def ST_unlock_def load_from_file_configured\<close>)
  note r2 = go_signal [OF r1 m(1) this]
  have "signal_step w ?d2 ?d3" by (rule signal_step.restart_stopped) (simp_all add: log_def assms(5))
  note r3 = go_signal [OF r2 m(2) this]
  have "signal_step w ?d3 ?d4"
    by (rule signal_step.start [where m = "Some Main" and net = sample_net and os = sample_os])
      (use assms in \<open>simp_all add: log_def c_simps launch_enabled\<close>)
  note r4 = go_signal [OF r3 m(3) this]
  show ?thesis by (rule exI [of _ ?d4]) (use r4 in \<open>simp add: launched_def log_def\<close>)
qed

lemma late_hangup:
  assumes "reach i (daemon_step w) d" "hup w = Anytime" "main d = Free_buffer" "hook d = Idle"
    "srv_stopped d" "conf_mx d = None"
    "lc \<in> libs w" "configured lc (file_path (cstate d)) = Inr (f, c)" "http_enabled c \<noteq> 0"
  shows "\<exists>d'. reach i (daemon_step w) d' \<and> server d' = Lock_buffer \<and> \<not> buffer_live d'"
proof -
  let ?d1 = "d\<lparr>buffer_live := False, main := Free_entries\<rparr>"
  have "main_step w d ?d1" using main_step.free_buffer assms(3) by blast
  with assms(1,3,4) have r1: "reach i (daemon_step w) ?d1" by (auto intro: go_main simp: ended_def)
  obtain d2 where d2: "reach i (daemon_step w) d2" "main d2 = Free_entries" "server d2 = Setup 0" "conf_mx d2 = None"
    "quit_mx d2 = Some Main" "\<not> buffer_live d2"
    using hangup_starts_server [OF r1, of lc f c] assms by (auto simp: ended_def hangup_ok_def)
  with server_to_buffer [OF d2(1) _ d2(3-5)] show ?thesis by (fastforce simp: ended_def)
qed

section \<open>A sample world\<close>

definition sample_lc :: "int \<Rightarrow> (unit, unit) libconfig" where
  "sample_lc enabled =
    \<lparr>read_file = (\<lambda>_. Inr ()), lookup = (\<lambda>_ _. Some ()), lookup_int = (\<lambda>_ _. Some 5),
     lookup_bool = (\<lambda>_ _. Some enabled), lookup_string = (\<lambda>_ _. Some [])\<rparr>"

definition sample_world :: "hangups \<Rightarrow> (unit, unit) world" where
  "sample_world h = \<lparr>libs = {sample_lc 0, sample_lc 1}, tables = {[]}, hup = h\<rparr>"

definition sample_conf :: "int \<Rightarrow> config" where
  "sample_conf enabled = \<lparr>interval = 5, notice_percent = 5, warn_percent = 5, crit_percent = 5,
     http_enabled = enabled, http_port = 5, http_bind_address = []\<rparr>"

definition sample_start :: "unit daemon" where
  "sample_start = first_state \<lparr>cfg = Some (), file_path = []\<rparr> (sample_conf 0)
     \<lparr>json_entries = JArray [], textural = bytes ''[]''\<rparr> srv_start \<lparr>buf = [], req_method = []\<rparr>"

lemma sample_configured: "configured (sample_lc e) path = Inr ((), sample_conf e)"
  by (simp add: configured_def core_settings_def server_settings_def sample_lc_def sample_conf_def)

lemma sample_boots: "boots (sample_world h) sample_start"
proof -
  have "ST_new_config (sample_lc 0) sample_os [] \<lparr>cfg = None, file_path = []\<rparr> (sample_conf 0) =
      Inr (\<lparr>cfg = Some (), file_path = []\<rparr>, sample_conf 0)"
    by (simp add: ST_new_config_def load_from_file_configured sample_configured sample_os_def)
  moreover have "stringify_text (JArray []) (Some []) = Some (bytes ''[]'')" by code_simp
  then have "ST_init_mtab_checker (Some (sample_conf 0)) True sample_os =
      Inr (Some \<lparr>json_entries = JArray [], textural = bytes ''[]''\<rparr>)"
    by (simp add: ST_init_mtab_checker_def sample_os_def del: bytes_Cons)
  moreover have "launch_srv sample_net sample_os (sample_conf 0) False srv_start = Inr (srv_start, None)"
    by (simp add: launch_srv_def sample_conf_def)
  ultimately have "start_daemon (sample_lc 0) sample_os sample_net True [] (sample_conf 0) \<lparr>buf = [], req_method = []\<rparr> =
      Inr (Some sample_start)"
    by (simp add: start_daemon_def ST_init_srv_def sample_os_def launched_def sample_start_def del: bytes_Cons)
  then show ?thesis unfolding boots_def sample_world_def by (intro bexI exI) auto
qed

lemma sample_reach: "reach (boots (sample_world h)) (daemon_step (sample_world h)) sample_start"
  by (rule reach_init, rule sample_boots)

lemma sample_facts:
  "main sample_start = Top" "hook sample_start = Idle" "active sample_start" "srv_stopped sample_start"
  "conf_mx sample_start = None" "data_mx sample_start = None" "buffer_live sample_start" "data sample_start = Literal"
  "hup (sample_world h) = h" "sample_lc 0 \<in> libs (sample_world h)" "sample_lc 1 \<in> libs (sample_world h)"
  "http_enabled (sample_conf e) = e"
  by (simp_all add: sample_start_def first_state_def srv_start_def sample_world_def sample_conf_def)

lemma sample_good: "\<forall>ms \<in> tables (sample_world h). good_mounts ms" "tables (sample_world h) \<noteq> {}"
  by (simp_all add: sample_world_def good_mounts_def sane_mounts_def)

lemma sample_reads_conf:
  "reach (boots (sample_world h)) (daemon_step (sample_world h)) (sample_start\<lparr>conf_mx := Some Main, main := Read_conf\<rparr>)"
proof -
  have "main_step (sample_world h) sample_start (sample_start\<lparr>conf_mx := Some Main, main := Read_conf\<rparr>)"
    by (rule main_step.top_lock) (simp_all add: sample_start_def first_state_def c_simps)
  then show ?thesis
    by (rule go_main [OF sample_reach, rotated 2]) (simp_all add: sample_start_def first_state_def ended_def)
qed

text \<open>The daemon after SIGINT, and when it has stopped its server.\<close>

definition sample_interrupted :: "unit daemon" where
  "sample_interrupted = log [(bytes ''daemon terminating.'', ST_MSG_NOTICE)] (sample_start\<lparr>active := False\<rparr>)"

lemma sample_interrupted_reach:
  "reach (boots (sample_world h)) (daemon_step (sample_world h)) sample_interrupted"
  unfolding sample_interrupted_def
  by (rule go_signal [OF sample_reach _ signal_step.sigint]) (simp add: sample_start_def first_state_def ended_def)

lemma sample_stopped_reach:
  "reach (boots (sample_world h)) (daemon_step (sample_world h)) (sample_interrupted\<lparr>main := Free_buffer\<rparr>)"
proof -
  let ?d = sample_interrupted
  have f: "main ?d = Top" "\<not> active ?d" "hook ?d = Idle" "srv_stopped ?d"
    by (simp_all add: sample_interrupted_def sample_start_def first_state_def log_def srv_start_def)
  have "main_step (sample_world h) ?d (?d\<lparr>main := Stop False\<rparr>)" using f by (intro main_step.top_end)
  note r1 = go_main [OF sample_interrupted_reach _ _ this]
  have "main_step (sample_world h) (?d\<lparr>main := Stop False\<rparr>) (?d\<lparr>main := Stop True\<rparr>)"
    using main_step.stop_stopped [of "?d\<lparr>main := Stop False\<rparr>" False] f by simp
  note r2 = go_main [OF r1 _ _ this]
  have "main_step (sample_world h) (?d\<lparr>main := Stop True\<rparr>) (?d\<lparr>main := Free_buffer\<rparr>)"
    using main_step.stop_stopped [of "?d\<lparr>main := Stop True\<rparr>" True] f by simp
  note r3 = go_main [OF r2 _ _ this]
  from r3 f show ?thesis by (simp add: ended_def)
qed

section \<open>A turn, and the answer after it\<close>

text \<open>What the main thread does alone keeps the server where it is.\<close>

lemma main_run_reach:
  "rtranclp (main_step w) d d' \<Longrightarrow> reach i (daemon_step w) d \<Longrightarrow> hook d = Idle \<Longrightarrow>
    reach i (daemon_step w) d' \<and> hook d' = Idle \<and> server d' = server d"
proof (induction rule: rtranclp_induct)
  case (step d1 d2)
  then have r: "reach i (daemon_step w) d1" "hook d1 = Idle" "server d1 = server d" by auto
  have "\<not> ended (main d1) \<and> hook d2 = hook d1 \<and> server d2 = server d1"
    using step.hyps(2) by (auto elim!: main_stepE simp: ended_def log_def)
  with r step.hyps(2) show ?case by (auto intro: reach_step daemon_step.by_main)
qed simp

text \<open>A server thread that waits for the buffer while the main thread makes a turn answers with the list of that turn.\<close>

lemma turn_answered:
  assumes "reach (boots w) (daemon_step w) d" "hup w \<noteq> Anytime" "main d = Top" "active d" "hook d = Idle"
    "server d = Lock_buffer" "\<forall>ms \<in> tables w. good_mounts ms" "ms \<in> tables w"
  shows "\<exists>d' t. reach (boots w) (daemon_step w) d' \<and> response t \<in> set (answers d') \<and>
    json_decode (t @ [0]) = Some (Some (JArray (map (\<lambda>(d, p). mount_entry d p) (all_listed (notice_percent (conf d)) ms))))"
proof -
  have inv: "locks_ok d" "texts_ok d"
    using daemon_reach_inv [OF assms(1,2)] assms(3) by (auto simp: daemon_inv_def aborted_def)
  then have "data_mx d = None" using assms(3,6) by (simp add: locks_ok_def)
  obtain l where l: "list_all good_listing l" "json_entries (entries (loop_of d)) = JArray (map (\<lambda>(d, p). mount_entry d p) l)"
    using daemon_reach_contents [OF assms(1,7)] by (auto simp: contents_ok_def fine_entries_def loop_of_def)
  have "good_mounts ms" using assms(7,8) by blast
  from check_turn_result [OF this l, of "conf d" "conf d" True] obtain me logs where me:
    "json_entries me = JArray (map (\<lambda>(d, p). mount_entry d p) (all_listed (notice_percent (conf d)) ms))"
    "json_decode (textural me @ [0]) = Some (Some (json_entries me))"
    "check_turn (conf d) (conf d) True ms (loop_of d) = Some (\<lparr>entries = me, served = textural me\<rparr>, logs)" by auto
  obtain d1 where d1: "rtranclp (main_step w) d d1" "main d1 = Top" "loop_of d1 = \<lparr>entries = me, served = textural me\<rparr>"
    using main_turn [OF assms(3,4) inv assms(8)] me(3) \<open>data_mx d = None\<close> by auto
  have r1: "reach (boots w) (daemon_step w) d1" "server d1 = Lock_buffer"
    using main_run_reach [OF d1(1) assms(1,5)] assms(6) by simp_all
  then have inv1: "locks_ok d1" "texts_ok d1" using daemon_reach_inv [OF r1(1) assms(2)] d1(2) by (auto simp: daemon_inv_def aborted_def)
  then have "data_mx d1 = None" "buffer_live d1" "data d1 = Literal \<or> texts d1 (text_block d1) \<noteq> None \<and> data d1 = Block (text_block d1)"
    using d1(2) r1(2) by (auto simp: locks_ok_def texts_ok_def)
  moreover from this(3) have "read_text d1 (data d1) = Some (textural me)" using d1(3) by (auto simp: loop_of_def)
  ultimately have "reach (boots w) (daemon_step w)
      (d1\<lparr>data_mx := None, answers := answers d1 @ [response (textural me)], server := Quit_test\<rparr>)"
    using server_answers [OF r1(1) _ r1(2)] d1(2) by (simp add: ended_def)
  with me(1,2) show ?thesis by fastforce
qed

lemma sample_waits:
  "\<exists>d. reach (boots (sample_world In_loop)) (daemon_step (sample_world In_loop)) d \<and> main d = Top \<and>
    server d = Lock_buffer \<and> hook d = Idle \<and> active d"
proof -
  let ?w = "sample_world In_loop"
  obtain d1 where d1: "reach (boots ?w) (daemon_step ?w) d1" "main d1 = Top" "server d1 = Setup 0" "conf_mx d1 = None"
    "quit_mx d1 = Some Main" "hook d1 = Idle" "active d1"
    using hangup_starts_server [OF sample_reach [of In_loop], of "sample_lc 1" "()" "sample_conf 1"]
    by (auto simp: sample_facts hangup_ok_def in_loop_def ended_def sample_configured)
  then obtain b where "reach (boots ?w) (daemon_step ?w) (d1\<lparr>bufs := b, server := Lock_buffer\<rparr>)"
    using server_to_buffer [OF d1(1) _ d1(3-5)] by (auto simp: ended_def)
  with d1 show ?thesis by (intro exI [of _ "d1\<lparr>bufs := b, server := Lock_buffer\<rparr>"]) simp
qed

lemma sample_listed:
  "\<exists>d t. reach (boots (sample_world In_loop)) (daemon_step (sample_world In_loop)) d \<and> response t \<in> set (answers d) \<and>
    json_decode (t @ [0]) = Some (Some (JArray []))"
proof -
  obtain d where d: "reach (boots (sample_world In_loop)) (daemon_step (sample_world In_loop)) d" "main d = Top"
    "server d = Lock_buffer" "hook d = Idle" "active d"
    using sample_waits by blast
  have e: "all_listed n [] = []" for n by (simp add: all_listed_def)
  from turn_answered [OF d(1), of "[]"] d show ?thesis
    using sample_good(1) [of In_loop] by (auto simp: sample_facts sample_world_def e)
qed

section \<open>A client that waits\<close>

lemma holding_rank:
  "main_step w d d' \<Longrightarrow> holds_buffer (main d) \<Longrightarrow>
    main_rank (main d') < main_rank (main d) \<and> (holds_buffer (main d') \<longrightarrow> 11 \<le> main_rank (main d'))"
  by (erule main_stepE) (auto simp: log_def)

lemma holding_bound:
  "((\<lambda>x y. main_step w x y \<and> holds_buffer (main y)) ^^ n) d d' \<Longrightarrow> holds_buffer (main d) \<Longrightarrow>
    holds_buffer (main d') \<and> n + main_rank (main d') \<le> main_rank (main d)"
proof (induction n arbitrary: d')
  case (Suc n)
  then obtain e where e: "((\<lambda>x y. main_step w x y \<and> holds_buffer (main y)) ^^ n) d e" "main_step w e d'" "holds_buffer (main d')"
    by auto
  with Suc.IH [OF e(1) Suc.prems(2)] holding_rank [OF e(2)] show ?case by auto
qed simp

lemma holds_rank: "holds_buffer pc \<Longrightarrow> 11 \<le> main_rank pc \<and> main_rank pc \<le> 18"
  by (cases pc) auto

lemma buffer_released:
  assumes "reach (boots w) (daemon_step w) d" "hup w \<noteq> Anytime" "\<forall>ms \<in> tables w. good_mounts ms" "tables w \<noteq> {}"
    "hook d = Idle" "\<not> aborted d" "server d = Lock_buffer"
  shows "\<exists>d'. rtranclp (main_step w) d d' \<and> \<not> holds_buffer (main d') \<and> \<not> aborted d' \<and> answers d' = answers d"
  using assms(1,5-7)
proof (induction "main_rank (main d)" arbitrary: d rule: less_induct)
  case less
  show ?case
  proof (cases "holds_buffer (main d)")
    case False
    with less.prems show ?thesis by blast
  next
    case True
    then have m: "\<not> ended (main d)" "\<forall>b i. main d \<noteq> Join b i" by (cases "main d"; simp add: ended_def)+
    obtain ms where ms: "ms \<in> tables w" "good_mounts ms" using assms(3,4) by blast
    obtain d1 where d1: "main_step w d d1"
      using main_moves [OF daemon_reach_inv [OF less.prems(1) assms(2)] daemon_reach_contents [OF less.prems(1) assms(3)] m ms]
      by blast
    have same: "hook d1 = hook d" "server d1 = server d" "answers d1 = answers d" "\<not> aborted d1"
      using d1 True by (auto elim!: main_stepE simp: log_def aborted_def)
    have "reach (boots w) (daemon_step w) d1"
      using reach_step [OF less.prems(1)] daemon_step.by_main [OF m(1) less.prems(2) d1] by blast
    from less.hyps [OF _ this] holding_rank [OF d1 True] same less.prems obtain d2
      where "rtranclp (main_step w) d1 d2" "\<not> holds_buffer (main d2)" "\<not> aborted d2" "answers d2 = answers d1" by auto
    with d1 same(3) show ?thesis by (metis converse_rtranclp_into_rtranclp)
  qed
qed

lemma reach_from:
  "reach i s d \<Longrightarrow> (\<And>e. i e \<Longrightarrow> e = d0) \<Longrightarrow> rtranclp s d0 d"
proof (induction rule: reach.induct)
  case (reach_init e)
  then have "e = d0" by blast
  then show ?case by simp
qed (auto intro: rtranclp.rtrancl_into_rtrancl)

section \<open>Properties\<close>

text \<open>An access of freed memory: the mutex of a freed buffer, a freed text, a text freed again.\<close>

definition bad_access :: "'f daemon \<Rightarrow> bool" where
  "bad_access d \<longleftrightarrow> server d = Lock_buffer \<and> \<not> buffer_live d \<or>
    server d = Copy_data \<and> (\<not> buffer_live d \<or> read_text d (data d) = None) \<or>
    (main d = Check_free \<or> main d = Free_entries) \<and> texts d (text_block d) = None"

lemma safe_accesses:
  assumes "daemon_inv d" "\<not> aborted d"
  shows "\<not> bad_access d \<and> (\<exists>b. {b. texts d b \<noteq> None} \<subseteq> {b})"
proof -
  from assms have inv: "locks_ok d" "thread_ok d" "texts_ok d" by (auto simp: daemon_inv_def)
  have s: "\<not> shut (main d)" if "server d \<noteq> Ended" using inv(2) that by (auto simp: thread_ok_def)
  have u: "\<not> updating (main d) \<and> \<not> text_gone (main d)" if "server d = Copy_data"
  proof -
    from that inv(1) have "\<not> holds_buffer (main d)" by (simp add: locks_ok_def)
    with s that show ?thesis by (cases "main d") auto
  qed
  from inv(3) s u show ?thesis by (auto simp: texts_ok_def bad_access_def)
qed







text \<open>In short: every answer the server has written is the refusal of a method or a response whose body is a JSON
  document (the literal of \<open>main\<close> or the text of a check), at any moment of any interleaving, when the
  mount tables have sane numbers and paths of UTF-8.\<close>

lemma answers_are_json:
  assumes "reach (boots w) (daemon_step w) d" "\<forall>ms \<in> tables w. good_mounts ms" "a \<in> set (answers d)"
  shows "(\<exists>m. a = not_implemented m) \<or> (\<exists>t j. a = response t \<and> json_decode (t @ [0]) = Some (Some j))"
  using daemon_reach_contents [OF assms(1,2)] assms(3)
  by (auto simp: contents_ok_def list_all_iff answer_ok_def json_text_ok_def)







text \<open>C8: a SIGHUP that arrives when the server has been stopped and its buffer is about to be freed starts
  the server again, and its next request takes the mutex of the freed buffer.\<close>

theorem late_hangup_use_after_free:
  assumes "reach (boots w) (daemon_step w) d" "hup w = Anytime" "main d = Free_buffer" "hook d = Idle"
    "srv_stopped d" "conf_mx d = None"
    "lc \<in> libs w" "configured lc (file_path (cstate d)) = Inr (f, c)" "http_enabled c \<noteq> 0"
  shows "\<exists>d'. reach (boots w) (daemon_step w) d' \<and> server d' = Lock_buffer \<and> \<not> buffer_live d'"
  using assms by (rule late_hangup)

theorem late_hangup_use_after_free_witness:
  "\<exists>d'. reach (boots (sample_world Anytime)) (daemon_step (sample_world Anytime)) d' \<and>
    server d' = Lock_buffer \<and> \<not> buffer_live d'"
  by (rule late_hangup_use_after_free [OF sample_stopped_reach, where lc = "sample_lc 1" and c = "sample_conf 1"])
    (simp_all add: sample_world_def sample_interrupted_def sample_start_def first_state_def log_def
      sample_configured srv_start_def, simp add: sample_conf_def)

text \<open>C6: an undisturbed turn of the main thread, lock by lock, does to the entries, the text, the served text
  and the log what the sequential turn of the loop does.\<close>

theorem turn_refines:
  assumes "reach (boots w) (daemon_step w) d" "hup w \<noteq> Anytime" "main d = Top" "active d" "ms \<in> tables w"
    "check_turn (conf d) (conf d) (data_mx d = None) ms (loop_of d) = Some (st, logs)"
  shows "\<exists>d'. rtranclp (main_step w) d d' \<and> main d' = Top \<and> loop_of d' = st \<and> logged d' = logged d @ logs"
  using daemon_reach_inv [OF assms(1,2)] main_turn [OF assms(3,4) _ _ assms(5,6)] assms(3)
  by (simp add: daemon_inv_def aborted_def)

theorem turn_refines_witness:
  "\<exists>st logs d'. check_turn (sample_conf 0) (sample_conf 0) True [] loop_start = Some (st, logs) \<and>
    rtranclp (main_step (sample_world In_loop)) sample_start d' \<and> main d' = Top \<and> loop_of d' = st \<and>
    logged d' = logged sample_start @ logs"
proof -
  have l: "loop_of sample_start = loop_start"
    by (simp add: loop_of_def sample_start_def first_state_def loop_start_def)
  have "good_mounts []" by (simp add: good_mounts_def sane_mounts_def)
  from check_turn_result [OF this, of "[]" loop_start "sample_conf 0" "sample_conf 0" True] obtain st logs
    where "check_turn (sample_conf 0) (sample_conf 0) True [] loop_start = Some (st, logs)"
    by (auto simp: loop_start_def simp del: bytes_Cons)
  with turn_refines [OF sample_reach [of In_loop], of "[]" st logs] l show ?thesis
    by (simp add: sample_world_def sample_start_def first_state_def del: bytes_Cons)
qed

end
