(* ===== verification/Startup.thy ===== *)
theory Startup
  imports DaemonRuns
begin

text \<open>
  The start of the daemon (\<open>main\<close> of \<open>src/stored.c\<close> up to the loop, \<open>ST_init_check_loop\<close> of
  \<open>src/mtab_check_loop.c\<close>): the options, the nine calls that set the parts up, and the signals that arrive
  between them. The daemon it leaves is the one \<open>Daemon\<close> starts from.
\<close>

section \<open>The options\<close>

text \<open>What \<open>getopt\<close> answers, one option after the other, with its argument and whether \<open>strdup\<close> finds memory
  for it. The program ends with the first \<open>-f\<close> it can serve.\<close>

fun select_path :: "(byte \<times> byte list \<times> bool) list \<Rightarrow> byte list option" where
  "select_path [] = None"
| "select_path ((opt, optarg, dup_ok) # opts) = (if opt = 0x66 \<and> dup_ok then Some optarg else select_path opts)"

section \<open>The state\<close>

datatype signal_hook = Stop_hook | Reload_hook

text \<open>The places of \<open>main\<close>, and the ways it may end here: an abort, the default action of a signal, and
  a NULL pointer followed.\<close>

datatype boot_pc =
    Opening | Demonizing | Announcing | Configuring | Mounting | Buffering | Placing | Serving | Looping | Ready
  | Left | Gone abort | Killed | Crashed

text \<open>The pointers \<open>core_config\<close>, \<open>entries\<close> and \<open>srv_buff\<close> start as NULL; the buffer holds a pointer to a
  text, uninitialised until the literal is stored there.\<close>

record 'f boot =
  place :: boot_pc
  logger_state :: logger
  hooks_state :: "signal_hook demonizer"
  core :: "('f conf_state \<times> config) option"
  checker :: "mtab_entries option"
  buffer :: "byte list option option"
  server_state :: srv
  address :: "u32 option"
  loop_set :: bool
  loop_active :: bool
  lines :: "log_output list"

text \<open>What the start depends on. \<open>project_name\<close> comes from the build.\<close>

record ('f, 'g) env =
  project_name :: "byte list"
  lib :: "('f, 'g) libconfig"
  op_sys :: os
  network :: net
  systemd :: sys
  mtab_opens :: bool
  netlink_bind :: int
  path :: "byte list"
  fresh :: config

definition boot_start :: "'f boot" where
  "boot_start = \<lparr>place = Opening, logger_state = logger_start, hooks_state = demonizer_start, core = None, checker = None,
     buffer = None, server_state = srv_start, address = None, loop_set = False, loop_active = False, lines = []\<rparr>"

definition over :: "boot_pc \<Rightarrow> bool" where
  "over p \<longleftrightarrow> (case p of Ready \<Rightarrow> True | Left \<Rightarrow> True | Gone _ \<Rightarrow> True | Killed \<Rightarrow> True | Crashed \<Rightarrow> True | _ \<Rightarrow> False)"

section \<open>The steps\<close>

text \<open>A call that may end the process.\<close>

definition calling :: "'a proc \<Rightarrow> ('a \<Rightarrow> 'f boot) \<Rightarrow> 'f boot \<Rightarrow> 'f boot" where
  "calling r f b = (case r of Inl a \<Rightarrow> b\<lparr>place := Gone a\<rparr> | Inr x \<Rightarrow> f x)"

definition say :: "string \<Rightarrow> ('f boot \<Rightarrow> 'f boot) \<Rightarrow> 'f boot \<Rightarrow> 'f boot" where
  "say msg f b = calling (ST_logger_msg (logger_state b) (bytes msg) ST_MSG_NOTICE) (\<lambda>out. f (b\<lparr>lines := lines b @ out\<rparr>)) b"

text \<open>\<open>ST_init_check_loop\<close>: the flag is set before the socket is bound.\<close>

definition ST_init_check_loop :: "bool \<Rightarrow> bool \<Rightarrow> bool \<Rightarrow> int \<Rightarrow> unit proc" where
  "ST_init_check_loop c_null b_null me_null bind_result =
    (if c_null \<or> b_null \<or> me_null then ST_abort (bytes ''Mtab checker init param (c, b, me) NPE'')
     else if bind_result \<noteq> 0 then ST_abort (bytes ''Hotplug event netlink socket bind failed'')
     else Inr ())"

fun boot_step :: "('f, 'g) env \<Rightarrow> boot_pc \<Rightarrow> 'f boot \<Rightarrow> 'f boot" where
  "boot_step e Opening b =
    (let (l, out) = ST_logger_init (project_name e) ST_STDOUT (logger_state b);
         d = ST_init_demonizer ST_NOTIFY (hooks_state b);
         (_, d, _) = ST_add_signal_hook SIGINT Stop_hook d;
         (_, d, _) = ST_add_signal_hook SIGHUP Reload_hook d
     in b\<lparr>logger_state := l, lines := lines b @ out, hooks_state := d, place := Demonizing\<rparr>)"
| "boot_step e Demonizing b =
    (case snd (ST_demonize (systemd e) (hooks_state b)) of
       Continue d \<Rightarrow> b\<lparr>hooks_state := d, place := Announcing\<rparr>
     | _ \<Rightarrow> b\<lparr>place := Left\<rparr>)"
| "boot_step e Announcing b = say ''daemon started.'' (\<lambda>b. b\<lparr>place := Configuring\<rparr>) b"
| "boot_step e Configuring b =
    calling (ST_new_config (lib e) (op_sys e) (path e) \<lparr>cfg = None, file_path = []\<rparr> (fresh e))
      (\<lambda>c. b\<lparr>core := Some c, place := Mounting\<rparr>) b"
| "boot_step e Mounting b =
    calling (ST_init_mtab_checker (map_option snd (core b)) (mtab_opens e) (op_sys e))
      (\<lambda>me. case me of None \<Rightarrow> b\<lparr>place := Crashed\<rparr> | Some me \<Rightarrow> b\<lparr>checker := Some me, place := Buffering\<rparr>) b"
| "boot_step e Buffering b =
    calling (ST_init_srv (map_option snd (core b)) (op_sys e) None) (\<lambda>t. b\<lparr>buffer := Some t, place := Placing\<rparr>) b"
| "boot_step e Placing b =
    (case buffer b of None \<Rightarrow> b\<lparr>place := Crashed\<rparr> | Some _ \<Rightarrow> b\<lparr>buffer := Some (Some (bytes ''{}'')), place := Serving\<rparr>)"
| "boot_step e Serving b =
    (case core b of
       None \<Rightarrow> b\<lparr>place := Crashed\<rparr>
     | Some (_, c) \<Rightarrow>
         calling (launch_srv (network e) (op_sys e) c (buffer b = None) (server_state b))
           (\<lambda>(s, a). b\<lparr>server_state := s, address := (if a = None then address b else a), place := Looping\<rparr>) b)"
| "boot_step e Looping b =
    calling (ST_init_check_loop (core b = None) (buffer b = None) (checker b = None) (netlink_bind e))
      (\<lambda>_. b\<lparr>loop_set := True, loop_active := True, place := Ready\<rparr>) b"
| "boot_step e _ b = b"

section \<open>Signals\<close>

text \<open>The hooks. The server is restarted with whatever buffer there is; a running server has been
  stopped first, which changes nothing but its own state.\<close>

fun call_hook :: "('f, 'g) env \<Rightarrow> signal_hook \<Rightarrow> 'f boot \<Rightarrow> 'f boot" where
  "call_hook e Stop_hook b = say ''daemon terminating.'' (\<lambda>b. b\<lparr>loop_active := False\<rparr>) b"
| "call_hook e Reload_hook b = say ''daemon reloading.'' (\<lambda>b.
    (case core b of
       None \<Rightarrow> b\<lparr>place := Crashed\<rparr>
     | Some (s, c) \<Rightarrow>
        (case ST_reload_config (lib e) Main None s c of
           None \<Rightarrow> b
         | Some (_, r) \<Rightarrow> calling r (\<lambda>(s, c).
             let b = b\<lparr>core := Some (s, c)\<rparr> in
             calling (launch_srv (network e) (op_sys e) c (buffer b = None) (ST_stop_srv (server_state b)))
               (\<lambda>(t, a). b\<lparr>server_state := t, address := (if a = None then address b else a)\<rparr>) b) b))) b"

fun call_all :: "('f, 'g) env \<Rightarrow> signal_hook list \<Rightarrow> 'f boot \<Rightarrow> 'f boot" where
  "call_all e [] b = b"
| "call_all e (h # hs) b = (let b = call_hook e h b in if over (place b) then b else call_all e hs b)"

text \<open>Before \<open>ST_demonize\<close> has set the handlers a signal has its default action.\<close>

definition boot_signal :: "('f, 'g) env \<Rightarrow> int \<Rightarrow> 'f boot \<Rightarrow> 'f boot" where
  "boot_signal e sig b =
    (if \<not> demonized (hooks_state b) then b\<lparr>place := Killed\<rparr>
     else if sig = SIGINT then call_all e (sigint_handler (hooks_state b)) b
     else if sig = SIGHUP then call_all e (sighup_handler (hooks_state b)) b
     else b)"

datatype occurrence = Go | Sig int

fun boot_run :: "('f, 'g) env \<Rightarrow> occurrence list \<Rightarrow> 'f boot \<Rightarrow> 'f boot" where
  "boot_run e [] b = b"
| "boot_run e (x # xs) b =
    (if over (place b) then b
     else boot_run e xs (case x of Go \<Rightarrow> boot_step e (place b) b | Sig s \<Rightarrow> boot_signal e s b))"

section \<open>Without signals\<close>

text \<open>The state behind the first three calls.\<close>

definition announced :: "('f, 'g) env \<Rightarrow> 'f boot" where
  "announced e = boot_start\<lparr>place := Configuring, logger_state := fst (ST_logger_init (project_name e) ST_STDOUT logger_start),
     hooks_state := (add_hooks [(SIGINT, Stop_hook), (SIGHUP, Reload_hook)] (ST_init_demonizer ST_NOTIFY demonizer_start))\<lparr>demonized := True\<rparr>,
     lines := [Stdout (msg_fmt ST_MSG_NOTICE (bytes ''daemon started.''))]\<rparr>"

lemma logger_ready:
  "ST_logger_msg (fst (ST_logger_init n ST_STDOUT l)) m t = Inr [Stdout (msg_fmt t m)]"
  "snd (ST_logger_init n ST_STDOUT l) = []"
  by (simp_all add: ST_logger_init_def ST_logger_msg_def)

lemma demonized_notify:
  "\<not> demonized d \<Longrightarrow> op_mode d = Some ST_NOTIFY \<Longrightarrow> snd (ST_demonize s d) = Continue (d\<lparr>demonized := True\<rparr>)"
  by (simp add: ST_demonize_def Let_def)

lemma hooks_kept:
  "demonized (fst (snd (ST_add_signal_hook s h d))) = demonized d" "op_mode (fst (snd (ST_add_signal_hook s h d))) = op_mode d"
  by (simp_all add: ST_add_signal_hook_def)

lemma to_announced:
  fixes e :: "('f, 'g) env"
  shows "boot_run e (Go # Go # Go # xs) boot_start = boot_run e xs (announced e)"
proof -
  define d where "d = add_hooks [(SIGINT, Stop_hook), (SIGHUP, Reload_hook)] (ST_init_demonizer ST_NOTIFY demonizer_start)"
  define l where "l = fst (ST_logger_init (project_name e) ST_STDOUT logger_start)"
  have d: "\<not> demonized d" "op_mode d = Some ST_NOTIFY"
    by (simp_all add: d_def hooks_kept ST_init_demonizer_def demonizer_start_def)
  define b where "b = (boot_start :: 'f boot)\<lparr>logger_state := l, hooks_state := d, place := Demonizing\<rparr>"
  have 1: "boot_step e Opening boot_start = b"
    by (simp add: b_def d_def l_def boot_start_def logger_ready split_beta)
  have b: "place b = Demonizing" "hooks_state b = d" "logger_state b = l" "lines b = []" by (simp_all add: b_def boot_start_def)
  define b' where "b' = b\<lparr>hooks_state := d\<lparr>demonized := True\<rparr>, place := Announcing\<rparr>"
  have 2: "boot_step e Demonizing b = b'" by (simp add: b'_def b demonized_notify [OF d])
  have 3: "boot_step e Announcing b' = announced e"
    unfolding announced_def d_def [symmetric] l_def [symmetric]
    by (simp add: b'_def say_def calling_def b) (simp add: b_def boot_start_def l_def logger_ready)
  have p: "place boot_start = Opening" "place b' = Announcing" by (simp_all add: boot_start_def b'_def)
  show ?thesis by (simp only: boot_run.simps 1 2 3 b(1) p over_def boot_pc.case occurrence.case if_False)
qed


lemma announced_simps [simp]:
  "place (announced e) = Configuring" "core (announced e) = None" "checker (announced e) = None" "buffer (announced e) = None"
  "server_state (announced e) = srv_start" "address (announced e) = None" "demonized (hooks_state (announced e))"
  by (simp_all add: announced_def boot_start_def)

lemma init_checker_text: "ST_init_mtab_checker c m os = Inr me \<Longrightarrow> \<exists>x. me = Some x"
proof -
  have "stringify_text (JArray []) (Some []) = Some (bytes ''[]'')" by code_simp
  then show "ST_init_mtab_checker c m os = Inr me \<Longrightarrow> \<exists>x. me = Some x"
    by (auto simp: ST_init_mtab_checker_def split: if_splits)
qed

text \<open>The parts of a started daemon.\<close>

definition started_as :: "'f boot \<Rightarrow> 'f daemon \<Rightarrow> bool" where
  "started_as b d \<longleftrightarrow> core b = Some (cstate d, conf d) \<and>
    checker b = Some \<lparr>json_entries = entry_list d, textural = the (texts d (text_block d))\<rparr> \<and>
    buffer b = Some (read_text d (data d)) \<and> stopped (server_state b) = srv_stopped d \<and> mxq (server_state b) = quit_mx d \<and>
    server d = (case address b of None \<Rightarrow> Ended | Some a \<Rightarrow> Setup a) \<and> loop_set b \<and> loop_active b = active d"

lemma quiet_start:
  "case start_daemon (lib e) (op_sys e) (network e) (mtab_opens e) (path e) (fresh e) stack of
     Inl a \<Rightarrow> place (boot_run e (replicate 6 Go) (announced e)) = Gone a
   | Inr d \<Rightarrow>
       if netlink_bind e \<noteq> 0 then place (boot_run e (replicate 6 Go) (announced e)) =
         Gone (Abort (bytes ''Hotplug event netlink socket bind failed''))
       else place (boot_run e (replicate 6 Go) (announced e)) = Ready \<and>
         (\<exists>x. d = Some x \<and> started_as (boot_run e (replicate 6 Go) (announced e)) x)"
proof -
  have six: "replicate 6 Go = [Go, Go, Go, Go, Go, Go]" by (simp add: numeral_eq_Suc)
  show ?thesis
  proof (cases "ST_new_config (lib e) (op_sys e) (path e) \<lparr>cfg = None, file_path = []\<rparr> (fresh e)")
    case (Inl a)
    then show ?thesis unfolding six by (simp add: start_daemon_def over_def calling_def)
  next
    case (Inr sc)
    obtain s c where sc: "sc = (s, c)" by fastforce
    note 1 = Inr [unfolded sc]
    show ?thesis
    proof (cases "ST_init_mtab_checker (Some c) (mtab_opens e) (op_sys e)")
      case (Inl a)
      with 1 show ?thesis unfolding six by (simp add: start_daemon_def over_def calling_def)
    next
      case (Inr me)
      with init_checker_text obtain m where 2: "ST_init_mtab_checker (Some c) (mtab_opens e) (op_sys e) = Inr (Some m)" by blast
      show ?thesis
      proof (cases "ST_init_srv (Some c) (op_sys e) None")
        case (Inl a)
        with 1 2 show ?thesis unfolding six by (simp add: start_daemon_def over_def calling_def)
      next
        case 3: (Inr t)
        show ?thesis
        proof (cases "launch_srv (network e) (op_sys e) c False srv_start")
          case (Inl a)
          with 1 2 3 show ?thesis unfolding six by (simp add: start_daemon_def over_def calling_def)
        next
          case (Inr l)
          obtain v a where l: "l = (v, a)" by fastforce
          with 1 2 3 Inr show ?thesis unfolding six
            by (cases a) (auto simp: start_daemon_def over_def calling_def ST_init_check_loop_def ST_abort_def started_as_def
              launched_def first_state_def split: if_splits)
        qed
      qed
    qed
  qed
qed


section \<open>With signals\<close>

text \<open>The states behind the two calls that install the handlers.\<close>

definition guarded :: "('f, 'g) env \<Rightarrow> 'f boot \<Rightarrow> bool" where
  "guarded e b \<longleftrightarrow> place b \<noteq> Opening \<and> place b \<noteq> Demonizing \<and>
    logger_state b = fst (ST_logger_init (project_name e) ST_STDOUT logger_start) \<and>
    hooks_state b = hooks_state (announced e) \<and> (over (place b) \<or> \<not> loop_active b)"

lemma say_ready: "logger_state b = fst (ST_logger_init n ST_STDOUT l) \<Longrightarrow>
    say m f b = f (b\<lparr>lines := lines b @ [Stdout (msg_fmt ST_MSG_NOTICE (bytes m))]\<rparr>)"
  by (simp add: say_def calling_def logger_ready)

lemma announced_hooks:
  "sigint_handler (hooks_state (announced e)) = [Stop_hook]" "sighup_handler (hooks_state (announced e)) = [Reload_hook]"
proof -
  let ?d = "add_hooks [(SIGINT, Stop_hook), (SIGHUP, Reload_hook)] (ST_init_demonizer ST_NOTIFY demonizer_start)"
  have "hooks (ST_init_demonizer ST_NOTIFY demonizer_start) [] []"
    using hooks_start by (simp add: hooks_def ST_init_demonizer_def)
  from add_hooks_hooks [OF this, of "[(SIGINT, Stop_hook), (SIGHUP, Reload_hook)]"]
  have "hooks ?d [Stop_hook] [Reload_hook]" by (simp add: for_signal_def SIGINT_def SIGHUP_def HOOKS_NUM_def)
  then show "sigint_handler (hooks_state (announced e)) = [Stop_hook]" "sighup_handler (hooks_state (announced e)) = [Reload_hook]"
    by (auto simp: announced_def sigint_handler_def sighup_handler_def hooks_def dest: call_hooks_table simp del: add_hooks.simps)
qed

lemma guarded_step: "guarded e b \<Longrightarrow> \<not> over (place b) \<Longrightarrow> guarded e (boot_step e (place b) b)"
  by (cases "place b") (auto simp: guarded_def over_def calling_def say_ready split: sum.splits option.splits prod.splits)

lemma guarded_interrupt:
  assumes "guarded e b" "\<not> over (place b)"
  shows "boot_signal e SIGINT b = b\<lparr>lines := lines b @ [Stdout (msg_fmt ST_MSG_NOTICE (bytes ''daemon terminating.''))]\<rparr>"
proof -
  have d: "demonized (hooks_state b)" "sigint_handler (hooks_state b) = [Stop_hook]"
    using assms(1) announced_hooks by (simp_all add: guarded_def)
  have l: "logger_state b = fst (ST_logger_init (project_name e) ST_STDOUT logger_start)" "\<not> loop_active b"
    using assms by (simp_all add: guarded_def)
  show ?thesis using d l by (cases b) (simp add: boot_signal_def say_ready Let_def)
qed

text \<open>Two states that differ in what has been written only.\<close>

definition alike :: "'f boot \<Rightarrow> 'f boot \<Rightarrow> bool" where
  "alike b b' \<longleftrightarrow> b\<lparr>lines := []\<rparr> = b'\<lparr>lines := []\<rparr>"

lemma alike_iff: "alike b b' \<longleftrightarrow> (\<exists>ls. b' = b\<lparr>lines := ls\<rparr>)"
  by (cases b; cases b') (auto simp: alike_def)

lemma alike_step:
  assumes "alike b b'" "guarded e b"
  shows "alike (boot_step e p b) (boot_step e p b')"
proof -
  obtain ls where b': "b' = b\<lparr>lines := ls\<rparr>" using assms(1) by (auto simp: alike_iff)
  show ?thesis
    using assms(2) unfolding b'
    by (cases p) (auto simp: alike_def calling_def say_def guarded_def logger_ready ST_logger_init_def
      split: sum.splits option.splits prod.splits demonize_result.splits)
qed

lemma alike_guarded: "alike b b' \<Longrightarrow> guarded e b \<Longrightarrow> guarded e b' \<and> place b' = place b"
  by (auto simp: alike_iff guarded_def)

lemma boot_run_alike:
  "alike b b' \<Longrightarrow> guarded e b \<Longrightarrow> set xs \<subseteq> {Go, Sig SIGINT} \<Longrightarrow> alike (boot_run e (filter (\<lambda>x. x = Go) xs) b) (boot_run e xs b')"
proof (induction xs arbitrary: b b')
  case Nil
  then show ?case by simp
next
  case (Cons x xs)
  have b': "guarded e b'" "place b' = place b" using alike_guarded [OF Cons.prems(1,2)] by auto
  show ?case
  proof (cases "over (place b)")
    case True
    have "boot_run e ys b = b" for ys using True by (cases ys) simp_all
    with True b' Cons.prems(1) show ?thesis by simp
  next
    case False
    show ?thesis
    proof (cases "x = Go")
      case True
      have "alike (boot_step e (place b) b) (boot_step e (place b) b')" by (rule alike_step [OF Cons.prems(1,2)])
      from Cons.IH [OF this guarded_step [OF Cons.prems(2) False]] True False b' Cons.prems(3) show ?thesis by simp
    next
      case n: False
      then have x: "x = Sig SIGINT" using Cons.prems(3) by auto
      have "alike b (boot_signal e SIGINT b')"
        using guarded_interrupt [OF b'(1)] b'(2) False Cons.prems(1) by (auto simp: alike_iff)
      from Cons.IH [OF this Cons.prems(2)] x n False b' Cons.prems(3) show ?thesis by simp
    qed
  qed
qed

lemma to_guarded:
  fixes e :: "('f, 'g) env"
  obtains b where "\<And>xs. boot_run e (Go # Go # xs) boot_start = boot_run e xs b" "guarded e b" "place b = Announcing" "core b = None"
proof -
  let ?b = "boot_step e Demonizing (boot_step e Opening boot_start)"
  have p: "place (boot_step e Opening boot_start) = Demonizing" "place boot_start = Opening"
    by (simp_all add: split_beta boot_start_def)
  have "\<not> demonized (hooks_state (boot_step e Opening boot_start))" "op_mode (hooks_state (boot_step e Opening boot_start)) = Some ST_NOTIFY"
    by (simp_all add: split_beta hooks_kept ST_init_demonizer_def demonizer_start_def boot_start_def)
  from demonized_notify [OF this]
  have q: "?b = (boot_step e Opening boot_start)\<lparr>hooks_state := (hooks_state (boot_step e Opening boot_start))\<lparr>demonized := True\<rparr>,
      place := Announcing\<rparr>" by simp
  show ?thesis
  proof (rule that [of ?b])
    show "boot_run e (Go # Go # xs) boot_start = boot_run e xs ?b" for xs
      by (simp only: boot_run.simps p over_def boot_pc.case occurrence.case if_False)
    show "place ?b = Announcing" unfolding q by simp
    show "core ?b = None" unfolding q by (simp add: split_beta boot_start_def)
    show "guarded e ?b" unfolding q
      by (simp add: guarded_def announced_def over_def split_beta boot_start_def)
  qed
qed


section \<open>Properties\<close>


text \<open>C11: A SIGINT that arrives between the calls of the start is lost, however often it is sent: once the handlers are installed, the
  start goes on as if none had come, apart from what is logged, and the loop runs.\<close>

theorem interrupt_during_start_lost:
  "set xs \<subseteq> {Go, Sig SIGINT} \<Longrightarrow>
    (boot_run e (Go # Go # xs) boot_start)\<lparr>lines := []\<rparr> = (boot_run e (Go # Go # filter (\<lambda>x. x = Go) xs) boot_start)\<lparr>lines := []\<rparr>"
proof -
  assume xs: "set xs \<subseteq> {Go, Sig SIGINT}"
  obtain b where b: "\<And>xs. boot_run e (Go # Go # xs) boot_start = boot_run e xs b" "guarded e b" using to_guarded [of e] by blast
  have "alike b b" by (simp add: alike_def)
  from boot_run_alike [OF this b(2) xs] b(1) show ?thesis by (simp add: alike_def)
qed

text \<open>C10: A SIGHUP that arrives between the first calls of the start ends the process: before the handlers are installed by its default
  action, between them and the configuration by following the NULL pointer to it, and between the
  configuration and the buffer with the message about the missing buffer.\<close>

theorem hangup_during_start:
  "ST_new_config (lib e) (op_sys e) (path e) \<lparr>cfg = None, file_path = []\<rparr> (fresh e) = Inr sc \<Longrightarrow>
    place (boot_run e [Go, Sig SIGHUP] boot_start) = Killed \<and>
    place (boot_run e [Go, Go, Sig SIGHUP] boot_start) = Crashed \<and>
    place (boot_run e [Go, Go, Go, Sig SIGHUP] boot_start) = Crashed \<and>
    place (boot_run e [Go, Go, Go, Go, Sig SIGHUP] boot_start) = Gone (Abort (bytes ''Srv start (b) NPE''))"
proof -
  assume conf: "ST_new_config (lib e) (op_sys e) (path e) \<lparr>cfg = None, file_path = []\<rparr> (fresh e) = Inr sc"
  obtain b where b: "\<And>xs. boot_run e (Go # Go # xs) boot_start = boot_run e xs b" "guarded e b" "place b = Announcing" "core b = None"
    using to_guarded [of e] by blast
  have hangup: "boot_signal e SIGHUP b = call_all e [Reload_hook] b" if "guarded e b" for b
    using that announced_hooks(2) [of e] by (simp add: boot_signal_def guarded_def SIGINT_def SIGHUP_def del: call_all.simps)
  have ga: "guarded e (announced e)" by (simp add: guarded_def) (simp add: announced_def boot_start_def)
  have early: "place (boot_signal e SIGHUP b) = Crashed" if "guarded e b" "core b = None" for b
    using hangup [OF that(1)] that by (simp add: Let_def guarded_def say_ready)
  have ab: "\<not> over Announcing" "\<not> over Configuring" "\<not> over Mounting" "over Crashed" by (simp_all add: over_def)
  let ?m = "boot_step e Configuring (announced e)"
  have m: "?m = (announced e)\<lparr>core := Some sc, place := Mounting\<rparr>" by (simp add: calling_def conf)
  obtain f c where sc: "configured (lib e) (path e) = Inr (f, c)" "sc = (\<lparr>cfg = Some f, file_path = path e\<rparr>, c)"
    using conf load_from_file_configured [of "lib e" "\<lparr>cfg = None, file_path = path e\<rparr>" "fresh e"]
    by (cases "configured (lib e) (path e)") (auto simp: ST_new_config_def split: if_splits)
  have gm: "guarded e ?m" using guarded_step [OF ga] ab by (simp del: boot_step.simps)
  have "ST_reload_config (lib e) Main None \<lparr>cfg = Some f, file_path = path e\<rparr> c = Some (None, Inr sc)"
    using sc by (simp add: ST_reload_config_def ST_lock_def ST_unlock_def load_from_file_configured)
  then have late: "place (boot_signal e SIGHUP ?m) = Gone (Abort (bytes ''Srv start (b) NPE''))"
    using hangup [OF gm [unfolded m]] gm [unfolded m] unfolding m
    by (simp add: guarded_def say_ready Let_def sc(2) calling_def launch_srv_def ST_abort_def)
  have k: "place (boot_run e [Go, Sig SIGHUP] boot_start) = Killed"
    by (simp add: boot_signal_def split_beta hooks_kept ST_init_demonizer_def demonizer_start_def boot_start_def over_def)
  have 2: "place (boot_run e [Go, Go, Sig SIGHUP] boot_start) = Crashed"
    unfolding b(1) using b(3) ab early [OF b(2,4)] by simp
  have 3: "place (boot_run e [Go, Go, Go, Sig SIGHUP] boot_start) = Crashed"
    unfolding to_announced using ab early [OF ga] by simp
  have 4: "place (boot_run e [Go, Go, Go, Go, Sig SIGHUP] boot_start) = Gone (Abort (bytes ''Srv start (b) NPE''))"
    unfolding to_announced using ab late [unfolded m] m by (simp del: boot_step.simps bytes_Cons)
  show ?thesis using k 2 3 4 by blast
qed

definition sample_env :: "(unit, unit) env" where
  "sample_env = \<lparr>project_name = bytes ''stored'', lib = sample_lc 0, op_sys = sample_os, network = sample_net,
     systemd = \<lparr>sd_booted = True, fork1 = 0, setsid = 0, fork2 = 0, open_max = 4\<rparr>, mtab_opens = True, netlink_bind = 0,
     path = [], fresh = sample_conf 0\<rparr>"

theorem interrupt_during_start_lost_witness:
  "(boot_run sample_env [Go, Go, Go, Sig SIGINT, Go] boot_start)\<lparr>lines := []\<rparr> = (boot_run sample_env [Go, Go, Go, Go] boot_start)\<lparr>lines := []\<rparr>"
  using interrupt_during_start_lost [of "[Go, Sig SIGINT, Go]" sample_env] by simp

theorem hangup_during_start_witness:
  "place (boot_run sample_env [Go, Go, Sig SIGHUP] boot_start) = Crashed \<and>
    place (boot_run sample_env [Go, Go, Go, Go, Sig SIGHUP] boot_start) = Gone (Abort (bytes ''Srv start (b) NPE''))"
proof -
  have "ST_new_config (lib sample_env) (op_sys sample_env) (path sample_env) \<lparr>cfg = None, file_path = []\<rparr> (fresh sample_env) =
      Inr (\<lparr>cfg = Some (), file_path = []\<rparr>, sample_conf 0)"
    by (simp add: sample_env_def ST_new_config_def load_from_file_configured sample_configured sample_os_def)
  from hangup_during_start [OF this] show ?thesis by simp
qed

end
