(* ===== verification/Sds.thy ===== *)
theory Sds
  imports Prelude
begin

text \<open>
  The dynamic strings (\<open>src/util/sds.c\<close>, \<open>src/util/sds.h\<close>): headers, allocation, growing, appending and
  copying. A string is its header and the bytes allocated behind it; a NULL result is \<open>Some None\<close>, and
  \<open>None\<close> is undefined behaviour: an access outside the allocation, or through NULL. Sizes are numbers
  that the code reduces modulo 2 to the 64, and every field of a header has its own width.
\<close>

section \<open>Headers\<close>

definition SDS_MAX_PREALLOC :: nat where "SDS_MAX_PREALLOC = 1024 * 1024"

definition SDS_TYPE_5 :: nat where "SDS_TYPE_5 = 0"
definition SDS_TYPE_8 :: nat where "SDS_TYPE_8 = 1"
definition SDS_TYPE_16 :: nat where "SDS_TYPE_16 = 2"
definition SDS_TYPE_32 :: nat where "SDS_TYPE_32 = 3"
definition SDS_TYPE_64 :: nat where "SDS_TYPE_64 = 4"

lemmas sds_types = SDS_TYPE_5_def SDS_TYPE_8_def SDS_TYPE_16_def SDS_TYPE_32_def SDS_TYPE_64_def

text \<open>The five headers in one: a string of type 5 has only the flags. \<open>chars\<close> are the bytes from the
  pointer to the end of the allocation.\<close>

record sds =
  flags :: byte
  len_field :: nat
  alloc_field :: nat
  chars :: "byte list"

definition sds_type :: "sds \<Rightarrow> nat" where
  "sds_type s = unat (flags s AND 7)"

definition SDS_TYPE_5_LEN :: "byte \<Rightarrow> nat" where
  "SDS_TYPE_5_LEN f = unat (drop_bit 3 f)"

text \<open>The bits of the two fields of a header.\<close>

definition width :: "nat \<Rightarrow> nat" where
  "width t = (if t = SDS_TYPE_8 then 8 else if t = SDS_TYPE_16 then 16 else if t = SDS_TYPE_32 then 32 else 64)"

definition size_t :: "nat \<Rightarrow> nat" where
  "size_t n = n mod 2 ^ 64"

definition sdslen :: "sds \<Rightarrow> nat" where
  "sdslen s =
    (if sds_type s = SDS_TYPE_5 then SDS_TYPE_5_LEN (flags s)
     else if sds_type s \<le> SDS_TYPE_64 then len_field s else 0)"

text \<open>The difference of two fields: narrow ones are subtracted as \<open>int\<close>, the others wrap at their width.\<close>

definition field_minus :: "nat \<Rightarrow> nat \<Rightarrow> nat \<Rightarrow> int" where
  "field_minus t a b =
    (if t = SDS_TYPE_8 \<or> t = SDS_TYPE_16 then int a - int b else (int a - int b) mod 2 ^ width t)"

definition sdsavail :: "sds \<Rightarrow> nat" where
  "sdsavail s =
    (if sds_type s = SDS_TYPE_5 then 0
     else if sds_type s \<le> SDS_TYPE_64 then nat (field_minus (sds_type s) (alloc_field s) (len_field s) mod 2 ^ 64)
     else 0)"

definition sdssetlen :: "sds \<Rightarrow> nat \<Rightarrow> sds" where
  "sdssetlen s newlen =
    (if sds_type s = SDS_TYPE_5 then s\<lparr>flags := push_bit 3 (of_nat newlen)\<rparr>
     else if sds_type s \<le> SDS_TYPE_64 then s\<lparr>len_field := newlen mod 2 ^ width (sds_type s)\<rparr>
     else s)"

definition sdsinclen :: "sds \<Rightarrow> nat \<Rightarrow> sds" where
  "sdsinclen s inc =
    (if sds_type s = SDS_TYPE_5 then s\<lparr>flags := push_bit 3 (of_nat (SDS_TYPE_5_LEN (flags s) + inc))\<rparr>
     else if sds_type s \<le> SDS_TYPE_64 then s\<lparr>len_field := (len_field s + inc) mod 2 ^ width (sds_type s)\<rparr>
     else s)"

definition sdsalloc :: "sds \<Rightarrow> nat" where
  "sdsalloc s =
    (if sds_type s = SDS_TYPE_5 then SDS_TYPE_5_LEN (flags s)
     else if sds_type s \<le> SDS_TYPE_64 then alloc_field s else 0)"

definition sdssetalloc :: "sds \<Rightarrow> nat \<Rightarrow> sds" where
  "sdssetalloc s newlen =
    (if sds_type s = SDS_TYPE_5 then s
     else if sds_type s \<le> SDS_TYPE_64 then s\<lparr>alloc_field := newlen mod 2 ^ width (sds_type s)\<rparr>
     else s)"

definition sdsHdrSize :: "nat \<Rightarrow> nat" where
  "sdsHdrSize type =
    (if type = SDS_TYPE_5 then 1 else if type = SDS_TYPE_8 then 3 else if type = SDS_TYPE_16 then 5
     else if type = SDS_TYPE_32 then 9 else if type = SDS_TYPE_64 then 17 else 0)"

definition sdsReqType :: "nat \<Rightarrow> nat" where
  "sdsReqType string_size =
    (if string_size < 2 ^ 5 then SDS_TYPE_5
     else if string_size < 2 ^ 8 then SDS_TYPE_8
     else if string_size < 2 ^ 16 then SDS_TYPE_16
     else if string_size < 2 ^ 32 then SDS_TYPE_32
     else SDS_TYPE_64)"

section \<open>Memory\<close>

text \<open>The allocator: the sizes it can serve, and what fresh memory holds.\<close>

record allocator =
  fits :: "nat \<Rightarrow> bool"
  junk :: "nat \<Rightarrow> byte"

definition fresh :: "allocator \<Rightarrow> nat \<Rightarrow> byte list" where
  "fresh m n = map (junk m) [0..<n]"

text \<open>\<open>memcpy(s + i, bs, n)\<close> and \<open>s[i] = c\<close>.\<close>

definition poke :: "nat \<Rightarrow> byte list \<Rightarrow> sds \<Rightarrow> sds option" where
  "poke i bs s =
    (if i + length bs \<le> length (chars s)
     then Some (s\<lparr>chars := take i (chars s) @ bs @ drop (i + length bs) (chars s)\<rparr>) else None)"

text \<open>\<open>n\<close> bytes read from a pointer.\<close>

definition peek :: "byte list \<Rightarrow> nat \<Rightarrow> byte list option" where
  "peek p n = (if n \<le> length p then Some (take n p) else None)"

text \<open>A result that may be NULL, and its use through the pointer.\<close>

type_synonym sds_ptr = "sds option"

fun through :: "sds_ptr \<Rightarrow> (sds \<Rightarrow> 'b option) \<Rightarrow> 'b option" where
  "through None f = None"
| "through (Some s) f = f s"

section \<open>Creating\<close>

text \<open>With NULL for \<open>init\<close> the memory is cleared before the result of \<open>malloc\<close> is tested.\<close>

definition sdsnewlen :: "allocator \<Rightarrow> byte list option \<Rightarrow> nat \<Rightarrow> sds_ptr option" where
  "sdsnewlen m init initlen =
    (let type = sdsReqType initlen;
         type = (if type = SDS_TYPE_5 \<and> initlen = 0 then SDS_TYPE_8 else type);
         hdrlen = sdsHdrSize type;
         sz = size_t (hdrlen + initlen + 1)
     in if \<not> fits m sz then (if init = None then None else Some None)
     else do {
       let s = \<lparr>flags = (if type = SDS_TYPE_5 then push_bit 3 (of_nat initlen) else of_nat type),
                len_field = initlen mod 2 ^ width type, alloc_field = initlen mod 2 ^ width type,
                chars = (if init = None then replicate (sz - hdrlen) 0 else fresh m (sz - hdrlen))\<rparr>;
       s \<leftarrow> (case init of
           Some p \<Rightarrow> if initlen \<noteq> 0 then do { bs \<leftarrow> peek p initlen; poke 0 bs s } else Some s
         | None \<Rightarrow> Some s);
       s \<leftarrow> poke initlen [0] s;
       Some (Some s) })"

definition sdsempty :: "allocator \<Rightarrow> sds_ptr option" where
  "sdsempty m = sdsnewlen m (Some []) 0"

definition sdsnew :: "allocator \<Rightarrow> byte list option \<Rightarrow> sds_ptr option" where
  "sdsnew m init =
    (case init of
       None \<Rightarrow> sdsnewlen m None 0
     | Some p \<Rightarrow> do { t \<leftarrow> cstr p; sdsnewlen m (Some p) (length t) })"

definition sdsdup :: "allocator \<Rightarrow> sds \<Rightarrow> sds_ptr option" where
  "sdsdup m s = sdsnewlen m (Some (chars s)) (sdslen s)"

text \<open>The length goes through an \<open>int\<close>.\<close>

definition sdsupdatelen :: "sds \<Rightarrow> sds option" where
  "sdsupdatelen s = do {
     t \<leftarrow> cstr (chars s);
     let reallen = signed_take_bit 31 (int (length t));
     Some (sdssetlen s (nat (reallen mod 2 ^ 64))) }"

definition sdsclear :: "sds \<Rightarrow> sds option" where
  "sdsclear s = poke 0 [0] (sdssetlen s 0)"

section \<open>Growing\<close>

text \<open>The string moved into an allocation with \<open>newlen\<close> bytes besides the header and the terminator: in
  place when the header stays the same.\<close>

definition resize :: "allocator \<Rightarrow> nat \<Rightarrow> nat \<Rightarrow> sds \<Rightarrow> sds_ptr option" where
  "resize m type newlen s =
    (let hdrlen = sdsHdrSize type; sz = size_t (hdrlen + newlen + 1); len = sdslen s in
     if \<not> fits m sz then Some None
     else if sds_type s = type then
       Some (Some (sdssetalloc (s\<lparr>chars := take (sz - hdrlen) (chars s) @
         map (junk m) [length (chars s)..<sz - hdrlen]\<rparr>) newlen))
     else do {
       bs \<leftarrow> peek (chars s) (len + 1);
       s \<leftarrow> poke 0 bs \<lparr>flags = of_nat type, len_field = 0, alloc_field = 0, chars = fresh m (sz - hdrlen)\<rparr>;
       Some (Some (sdssetalloc (sdssetlen s len) newlen)) })"

definition sdsMakeRoomFor :: "allocator \<Rightarrow> sds \<Rightarrow> nat \<Rightarrow> sds_ptr option" where
  "sdsMakeRoomFor m s addlen =
    (if sdsavail s \<ge> addlen then Some (Some s)
     else
       let newlen = size_t (sdslen s + addlen);
           newlen = (if newlen < SDS_MAX_PREALLOC then size_t (newlen * 2) else size_t (newlen + SDS_MAX_PREALLOC));
           type = sdsReqType newlen;
           type = (if type = SDS_TYPE_5 then SDS_TYPE_8 else type)
       in resize m type newlen s)"

definition sdsRemoveFreeSpace :: "allocator \<Rightarrow> sds \<Rightarrow> sds_ptr option" where
  "sdsRemoveFreeSpace m s = resize m (sdsReqType (sdslen s)) (sdslen s) s"

definition sdsAllocSize :: "sds \<Rightarrow> nat" where
  "sdsAllocSize s = size_t (sdsHdrSize (sds_type s) + sdsalloc s + 1)"

text \<open>\<open>Some None\<close> is a failed \<open>assert\<close>.\<close>

definition sdsIncrLen :: "sds \<Rightarrow> int \<Rightarrow> sds_ptr option" where
  "sdsIncrLen s incr =
    (if sds_type s = SDS_TYPE_5 then
       let oldlen = int (SDS_TYPE_5_LEN (flags s)) in
       if (0 < incr \<and> oldlen + incr < 32) \<or> (incr < 0 \<and> - incr \<le> oldlen) then do {
         s \<leftarrow> poke (nat (oldlen + incr)) [0] (s\<lparr>flags := push_bit 3 (of_int (oldlen + incr))\<rparr>);
         Some (Some s) }
       else Some None
     else if sds_type s \<le> SDS_TYPE_64 then
       let oldlen = int (len_field s) in
       if (0 \<le> incr \<and> incr \<le> field_minus (sds_type s) (alloc_field s) (len_field s)) \<or> (incr < 0 \<and> - incr \<le> oldlen)
       then do {
         let len = nat ((oldlen + incr) mod 2 ^ width (sds_type s));
         s \<leftarrow> poke len [0] (s\<lparr>len_field := len\<rparr>);
         Some (Some s) }
       else Some None
     else do { s \<leftarrow> poke 0 [0] s; Some (Some s) })"

definition sdsgrowzero :: "allocator \<Rightarrow> sds \<Rightarrow> nat \<Rightarrow> sds_ptr option" where
  "sdsgrowzero m s len =
    (let curlen = sdslen s in
     if len \<le> curlen then Some (Some s)
     else do {
       p \<leftarrow> sdsMakeRoomFor m s (len - curlen);
       case p of
         None \<Rightarrow> Some None
       | Some s \<Rightarrow> do {
           s \<leftarrow> poke curlen (replicate (len - curlen + 1) 0) s;
           Some (Some (sdssetlen s len)) } })"

section \<open>Appending and copying\<close>

definition sdscatlen :: "allocator \<Rightarrow> sds \<Rightarrow> byte list \<Rightarrow> nat \<Rightarrow> sds_ptr option" where
  "sdscatlen m s t len =
    (let curlen = sdslen s in do {
       p \<leftarrow> sdsMakeRoomFor m s len;
       case p of
         None \<Rightarrow> Some None
       | Some s \<Rightarrow> do {
           bs \<leftarrow> peek t len;
           s \<leftarrow> poke curlen bs s;
           s \<leftarrow> poke (size_t (curlen + len)) [0] (sdssetlen s (size_t (curlen + len)));
           Some (Some s) } })"

definition sdscat :: "allocator \<Rightarrow> sds \<Rightarrow> byte list \<Rightarrow> sds_ptr option" where
  "sdscat m s t = do { u \<leftarrow> cstr t; sdscatlen m s t (length u) }"

definition sdscatsds :: "allocator \<Rightarrow> sds \<Rightarrow> sds \<Rightarrow> sds_ptr option" where
  "sdscatsds m s t = sdscatlen m s (chars t) (sdslen t)"

definition sdscpylen :: "allocator \<Rightarrow> sds \<Rightarrow> byte list \<Rightarrow> nat \<Rightarrow> sds_ptr option" where
  "sdscpylen m s t len = do {
     p \<leftarrow> (if sdsalloc s < len then sdsMakeRoomFor m s (len - sdslen s) else Some (Some s));
     case p of
       None \<Rightarrow> Some None
     | Some s \<Rightarrow> do {
         bs \<leftarrow> peek t len;
         s \<leftarrow> poke 0 bs s;
         s \<leftarrow> poke len [0] s;
         Some (Some (sdssetlen s len)) } }"

definition sdscpy :: "allocator \<Rightarrow> sds \<Rightarrow> byte list \<Rightarrow> sds_ptr option" where
  "sdscpy m s t = do { u \<leftarrow> cstr t; sdscpylen m s t (length u) }"

section \<open>Joining\<close>

text \<open>The strings appended one after the other with the separator between them. A result of NULL is used in
  the next round.\<close>

fun join_loop :: "(sds \<Rightarrow> 'x \<Rightarrow> sds_ptr option) \<Rightarrow> (sds \<Rightarrow> sds_ptr option) \<Rightarrow> sds_ptr \<Rightarrow> 'x list \<Rightarrow> sds_ptr option" where
  "join_loop cat cat_sep p [] = Some p"
| "join_loop cat cat_sep p (x # xs) = do {
     p \<leftarrow> through p (\<lambda>s. cat s x);
     p \<leftarrow> (if xs \<noteq> [] then through p cat_sep else Some p);
     join_loop cat cat_sep p xs }"

definition sdsjoin :: "allocator \<Rightarrow> byte list list \<Rightarrow> byte list \<Rightarrow> sds_ptr option" where
  "sdsjoin m argv sep = do {
     join \<leftarrow> sdsempty m;
     join_loop (sdscat m) (\<lambda>s. sdscat m s sep) join argv }"

definition sdsjoinsds :: "allocator \<Rightarrow> sds list \<Rightarrow> byte list \<Rightarrow> nat \<Rightarrow> sds_ptr option" where
  "sdsjoinsds m argv sep seplen = do {
     join \<leftarrow> sdsempty m;
     join_loop (sdscatsds m) (\<lambda>s. sdscatlen m s sep seplen) join argv }"

section \<open>Well-formed strings\<close>

text \<open>The header fits the allocation; a well-formed string has a terminator behind its contents as well.\<close>

definition sds_open :: "sds \<Rightarrow> bool" where
  "sds_open s \<longleftrightarrow> sds_type s \<le> SDS_TYPE_64 \<and>
    (sds_type s \<noteq> SDS_TYPE_5 \<longrightarrow> len_field s \<le> alloc_field s \<and> alloc_field s < 2 ^ width (sds_type s)) \<and>
    sdsalloc s < length (chars s)"

definition sds_ok :: "sds \<Rightarrow> bool" where
  "sds_ok s \<longleftrightarrow> sds_open s \<and> chars s ! sdslen s = 0"

definition contents :: "sds \<Rightarrow> byte list" where
  "contents s = take (sdslen s) (chars s)"

text \<open>The string holds these bytes.\<close>

definition holds :: "sds \<Rightarrow> byte list \<Rightarrow> bool" where
  "holds s t \<longleftrightarrow> sds_ok s \<and> contents s = t"

text \<open>A result that is the string expected, or NULL because some allocation failed.\<close>

definition results :: "allocator \<Rightarrow> sds_ptr option \<Rightarrow> byte list \<Rightarrow> bool" where
  "results m r t \<longleftrightarrow> (\<exists>s. r = Some (Some s) \<and> holds s t) \<or> r = Some None \<and> (\<exists>n. \<not> fits m n)"

text \<open>Lengths for which no size overflows.\<close>

definition short :: "nat \<Rightarrow> bool" where
  "short n \<longleftrightarrow> n < 2 ^ 62"

lemma short_mono: "short n \<Longrightarrow> k \<le> n \<Longrightarrow> short k"
  by (simp add: short_def)

section \<open>Types and fields\<close>

lemma type_push [simp]: "push_bit 3 (w :: byte) AND 7 = 0"
  by (simp add: bit_eq_iff bit_simps) (auto simp: numeral_eq_Suc less_Suc_eq)

lemma type5_div: "SDS_TYPE_5_LEN f = unat f div 8"
proof -
  have "SDS_TYPE_5_LEN f = drop_bit 3 (unat f)" by (simp only: SDS_TYPE_5_LEN_def unat_drop_bit_eq)
  then show ?thesis by (simp add: drop_bit_eq_div)
qed

lemma type5_len [simp]: "n < 32 \<Longrightarrow> SDS_TYPE_5_LEN (push_bit 3 (of_nat n)) = n"
proof -
  assume n: "n < 32"
  have "push_bit 3 (of_nat n :: byte) = of_nat (8 * n)" by (simp add: push_bit_eq_mult)
  moreover have "unat (of_nat (8 * n) :: byte) = 8 * n" using n by (simp only: unat_of_nat) simp
  ultimately show ?thesis by (simp add: type5_div)
qed

lemma type5_bound: "SDS_TYPE_5_LEN f < 32"
  using unsigned_less [of f, where ?'a = nat] by (simp add: type5_div)

lemma type_of_nat [simp]: "t \<le> 4 \<Longrightarrow> unat ((of_nat t :: byte) AND 7) = t"
proof -
  assume "t \<le> 4"
  then have "t = 0 \<or> t = 1 \<or> t = 2 \<or> t = 3 \<or> t = 4" by arith
  then show ?thesis by (elim disjE) simp_all
qed

lemma width_bound: "width t \<le> 64"
  by (simp add: width_def)

lemma width_size: "n < 2 ^ width t \<Longrightarrow> n < (2 :: nat) ^ 64"
  using power_increasing [OF width_bound [of t], of "2 :: nat"] by linarith

lemma type_update [simp]:
  "sds_type (s\<lparr>chars := cs\<rparr>) = sds_type s" "sds_type (s\<lparr>len_field := n\<rparr>) = sds_type s"
  "sds_type (s\<lparr>alloc_field := n\<rparr>) = sds_type s" "sds_type (sdssetlen s n) = sds_type s"
  "sds_type (sdssetalloc s n) = sds_type s" "sds_type (sdsinclen s n) = sds_type s"
  by (simp_all add: sds_type_def sdssetlen_def sdssetalloc_def sdsinclen_def sds_types)

lemma chars_update [simp]:
  "chars (sdssetlen s n) = chars s" "chars (sdssetalloc s n) = chars s" "chars (sdsinclen s n) = chars s"
  by (simp_all add: sdssetlen_def sdssetalloc_def sdsinclen_def)

lemma len_chars [simp]: "sdslen (s\<lparr>chars := cs\<rparr>) = sdslen s" "sdsalloc (s\<lparr>chars := cs\<rparr>) = sdsalloc s"
  "sdssetlen (s\<lparr>chars := cs\<rparr>) n = (sdssetlen s n)\<lparr>chars := cs\<rparr>"
  "sdsavail (s\<lparr>chars := cs\<rparr>) = sdsavail s" "sdsinclen (s\<lparr>chars := cs\<rparr>) n = (sdsinclen s n)\<lparr>chars := cs\<rparr>"
  by (simp_all add: sdslen_def sdsalloc_def sdssetlen_def sdsavail_def sdsinclen_def)

lemma open_len: "sds_open s \<Longrightarrow> sdslen s \<le> sdsalloc s \<and> sdsalloc s < length (chars s) \<and> length (contents s) = sdslen s"
  by (auto simp: sds_open_def sdslen_def sdsalloc_def contents_def)

lemma ok_len: "sds_ok s \<Longrightarrow> sdslen s \<le> sdsalloc s \<and> sdsalloc s < length (chars s) \<and> length (contents s) = sdslen s"
  by (simp add: sds_ok_def open_len)

lemma holds_len: "holds s t \<Longrightarrow> sdslen s = length t"
  using ok_len by (auto simp: holds_def)

lemma open_avail: "sds_open s \<Longrightarrow> sdsavail s = sdsalloc s - sdslen s"
proof -
  assume s: "sds_open s"
  have "nat (field_minus t a b mod 2 ^ 64) = a - b" if "b \<le> a" "a < 2 ^ width t" for t a b
  proof -
    have "a - b < 2 ^ width t" "a - b < 2 ^ 64" using that(2) width_size [OF that(2)] by linarith+
    then have "int (a - b) < 2 ^ width t" "int (a - b) < 2 ^ 64" by (simp_all only: of_nat_less_numeral_power_cancel_iff)
    then have m: "int (a - b) mod 2 ^ width t = int (a - b)" "int (a - b) mod 2 ^ 64 = int (a - b)"
      by (auto intro: mod_pos_pos_trivial)
    have "field_minus t a b = int (a - b)"
      unfolding field_minus_def of_nat_diff [OF that(1), symmetric] by (simp add: m(1))
    then show ?thesis using m(2) by simp
  qed
  with s show ?thesis by (auto simp: sds_open_def sdsavail_def sdsalloc_def sdslen_def)
qed

text \<open>Setting a length that the allocation covers.\<close>

lemma setlen_len:
  assumes "sds_open s" "n \<le> sdsalloc s"
  shows "sdslen (sdssetlen s n) = n" "sdsalloc (sdssetlen s n) \<le> sdsalloc s"
proof -
  have "sdslen (sdssetlen s n) = n \<and> sdsalloc (sdssetlen s n) \<le> sdsalloc s"
  proof (cases "sds_type s = SDS_TYPE_5")
    case True
    with assms(2) have "n < 32" using type5_bound [of "flags s"] by (simp add: sdsalloc_def)
    with True assms(2) show ?thesis by (simp add: sdslen_def sdsalloc_def sdssetlen_def sds_type_def sds_types)
  next
    case False
    with assms show ?thesis by (auto simp: sdslen_def sdsalloc_def sdssetlen_def sds_open_def sds_type_def)
  qed
  then show "sdslen (sdssetlen s n) = n" "sdsalloc (sdssetlen s n) \<le> sdsalloc s" by blast+
qed

lemma setlen_open:
  assumes "sds_open s" "n \<le> sdsalloc s" "length cs = length (chars s)"
  shows "sds_open ((sdssetlen s n)\<lparr>chars := cs\<rparr>)" "contents ((sdssetlen s n)\<lparr>chars := cs\<rparr>) = take n cs"
proof -
  note l = setlen_len [OF assms(1,2)]
  show "sds_open ((sdssetlen s n)\<lparr>chars := cs\<rparr>)"
  proof (cases "sds_type s = SDS_TYPE_5")
    case True
    with l assms show ?thesis by (auto simp: sds_open_def sds_types)
  next
    case False
    then have "len_field (sdssetlen s n) = n" "alloc_field (sdssetlen s n) = alloc_field s"
      using assms(1,2) by (auto simp: sdssetlen_def sds_open_def sdsalloc_def)
    with False l assms show ?thesis by (auto simp: sds_open_def sdsalloc_def)
  qed
  from l show "contents ((sdssetlen s n)\<lparr>chars := cs\<rparr>) = take n cs" by (simp add: contents_def)
qed

lemma setlen_holds:
  assumes "sds_open s" "n \<le> sdsalloc s" "length cs = length (chars s)" "cs ! n = 0"
  shows "holds ((sdssetlen s n)\<lparr>chars := cs\<rparr>) (take n cs)"
  using setlen_open [OF assms(1-3)] setlen_len [OF assms(1,2)] assms(4) by (simp add: holds_def sds_ok_def)

lemma inclen_setlen: "sds_open s \<Longrightarrow> sdslen s + n \<le> sdsalloc s \<Longrightarrow> sdsinclen s n = sdssetlen s (sdslen s + n)"
  by (auto simp: sdsinclen_def sdssetlen_def sdslen_def sds_open_def)

section \<open>Moving\<close>

lemma req_type:
  assumes "n < 2 ^ 64"
  shows "sdsReqType n \<le> SDS_TYPE_64" "sdsReqType n = SDS_TYPE_5 \<longleftrightarrow> n < 32" "32 \<le> n \<Longrightarrow> n < 2 ^ width (sdsReqType n)"
  using assms by (auto simp: sdsReqType_def sds_types width_def)

lemma hdr_size: "t \<le> SDS_TYPE_64 \<Longrightarrow> sdsHdrSize t \<le> 17"
  by (simp add: sdsHdrSize_def sds_types)

lemma size_hdr: "t \<le> SDS_TYPE_64 \<Longrightarrow> n < 2 ^ 63 \<Longrightarrow> size_t (sdsHdrSize t + n + 1) - sdsHdrSize t = n + 1"
  using hdr_size [of t] by (simp add: size_t_def)

lemma length_fresh [simp]: "length (fresh m n) = n"
  by (simp add: fresh_def)

text \<open>A string with a fitting header.\<close>

lemma header_ok:
  assumes "sds_type s = t" "t \<le> SDS_TYPE_64" "t \<noteq> SDS_TYPE_5" "len_field s = l" "alloc_field s = n" "l \<le> n" "n < 2 ^ width t"
    "n < length (chars s)"
  shows "sds_open s" "sdslen s = l" "sdsalloc s = n"
  using assms by (auto simp: sds_open_def sdslen_def sdsalloc_def)

lemma resize_open:
  assumes "sds_open s" "t \<le> SDS_TYPE_64" "t = SDS_TYPE_5 \<longrightarrow> n = sdslen s \<and> n < 32" "t \<noteq> SDS_TYPE_5 \<longrightarrow> n < 2 ^ width t"
    "sdslen s \<le> n" "n < 2 ^ 63"
  shows "(\<exists>s'. resize m t n s = Some (Some s') \<and> sds_open s' \<and> contents s' = contents s \<and>
      chars s' ! sdslen s = chars s ! sdslen s \<and> sdsalloc s' = n) \<or>
    resize m t n s = Some None \<and> (\<exists>k. \<not> fits m k)"
proof (cases "fits m (size_t (sdsHdrSize t + n + 1))")
  case False
  then show ?thesis by (auto simp: resize_def Let_def)
next
  case True
  note len = open_len [OF assms(1)] and sz = size_hdr [OF assms(2,6)]
  show ?thesis
  proof (cases "sds_type s = t")
    case same: True
    define cs where "cs = take (n + 1) (chars s) @ map (junk m) [length (chars s)..<n + 1]"
    have cs: "length cs = n + 1" "take (sdslen s) cs = contents s" "cs ! sdslen s = chars s ! sdslen s"
      using len assms(5) by (auto simp: cs_def contents_def nth_append)
    have r: "resize m t n s = Some (Some (sdssetalloc (s\<lparr>chars := cs\<rparr>) n))"
      using True same sz by (simp add: resize_def Let_def cs_def)
    show ?thesis
    proof (cases "t = SDS_TYPE_5")
      case True
      with same assms(3) cs len have "sds_open (s\<lparr>chars := cs\<rparr>)" "sdsalloc s = n"
        by (auto simp: sds_open_def sds_types sdsalloc_def sdslen_def)
      with r True same cs show ?thesis by (simp add: sdssetalloc_def contents_def sds_types)
    next
      case False
      let ?s = "sdssetalloc (s\<lparr>chars := cs\<rparr>) n"
      have s: "?s = s\<lparr>chars := cs, alloc_field := n\<rparr>"
        using False same assms(2,4) by (simp add: sdssetalloc_def)
      have l: "len_field s = sdslen s" using False same assms(2) by (simp add: sdslen_def)
      from header_ok [of ?s t "sdslen s" n] False same assms cs l
      have "sds_open ?s" "sdslen ?s = sdslen s" "sdsalloc ?s = n" unfolding s by auto
      with r cs show ?thesis unfolding s contents_def by auto
    qed
  next
    case other: False
    let ?l = "sdslen s"
    define cs where "cs = take (?l + 1) (chars s) @ drop (?l + 1) (fresh m (n + 1))"
    have cs: "length cs = n + 1" "take ?l cs = contents s" "cs ! ?l = chars s ! sdslen s"
      using len assms(5) by (auto simp: cs_def contents_def nth_append min_def)
    let ?h = "\<lparr>flags = of_nat t, len_field = 0, alloc_field = 0, chars = cs\<rparr>"
    have r: "resize m t n s = Some (Some (sdssetalloc (sdssetlen ?h ?l) n))"
      using True other sz len assms(5) by (simp add: resize_def Let_def peek_def poke_def cs_def del: take_append)
    have t: "sds_type \<lparr>flags = of_nat t, len_field = a, alloc_field = b, chars = cs\<rparr> = t" for a b
      using assms(2) by (simp add: sds_type_def sds_types)
    show ?thesis
    proof (cases "t = SDS_TYPE_5")
      case True
      let ?s = "?h\<lparr>flags := push_bit 3 (of_nat ?l)\<rparr>"
      have s: "sdssetalloc (sdssetlen ?h ?l) n = ?s"
        using True t by (simp add: sdssetalloc_def sdssetlen_def sds_type_def sds_types)
      have "sds_type ?s = SDS_TYPE_5" by (simp add: sds_type_def sds_types)
      with True assms(3) cs have "sds_open ?s" "sdslen ?s = ?l" "sdsalloc ?s = n"
        by (auto simp: sds_open_def sdslen_def sdsalloc_def sds_types)
      with r cs show ?thesis unfolding s contents_def by auto
    next
      case False
      let ?s = "?h\<lparr>len_field := ?l, alloc_field := n\<rparr>"
      have s: "sdssetalloc (sdssetlen ?h ?l) n = ?s"
        using False t assms(2,4,5) by (simp add: sdssetalloc_def sdssetlen_def)
      from header_ok [of ?s t ?l n] False t assms cs
      have "sds_open ?s" "sdslen ?s = ?l" "sdsalloc ?s = n" by auto
      with r cs show ?thesis unfolding s contents_def by auto
    qed
  qed
qed

lemma make_room_open:
  assumes "sds_open s" "short (sdslen s + addlen)"
  shows "(\<exists>s'. sdsMakeRoomFor m s addlen = Some (Some s') \<and> sds_open s' \<and> contents s' = contents s \<and>
      chars s' ! sdslen s = chars s ! sdslen s \<and> sdslen s + addlen \<le> sdsalloc s') \<or>
    sdsMakeRoomFor m s addlen = Some None \<and> (\<exists>k. \<not> fits m k)"
proof (cases "sdsavail s \<ge> addlen")
  case True
  with open_avail [OF assms(1)] open_len [OF assms(1)] assms(1) show ?thesis
    by (auto simp: sdsMakeRoomFor_def)
next
  case False
  define l where "l = sdslen s + addlen"
  define n where "n = (if l < SDS_MAX_PREALLOC then l * 2 else l + SDS_MAX_PREALLOC)"
  define t where "t = (if sdsReqType n = SDS_TYPE_5 then SDS_TYPE_8 else sdsReqType n)"
  have l: "l < 2 ^ 62" "sdslen s \<le> l" using assms(2) by (simp_all add: short_def l_def)
  have n: "n < 2 ^ 63" "l \<le> n" using l(1) by (simp_all add: n_def SDS_MAX_PREALLOC_def)
  have "sdsMakeRoomFor m s addlen = resize m t n s"
    using False l(1) by (simp add: sdsMakeRoomFor_def Let_def size_t_def l_def [symmetric] n_def t_def SDS_MAX_PREALLOC_def)
  moreover have "t \<le> SDS_TYPE_64" "t \<noteq> SDS_TYPE_5" using req_type(1) [of n] n(1) by (auto simp: t_def sds_types)
  moreover have "n < 2 ^ width t"
  proof (cases "n < 32")
    case True
    with req_type(2) [of n] n(1) show ?thesis by (simp add: t_def width_def sds_types)
  next
    case False
    with req_type(2,3) [of n] n(1) show ?thesis by (simp add: t_def)
  qed
  ultimately show ?thesis using resize_open [OF assms(1), of t n m] n l unfolding l_def by fastforce
qed

lemma contents_same_len: "sds_open s \<Longrightarrow> sds_open s' \<Longrightarrow> contents s' = contents s \<Longrightarrow> sdslen s' = sdslen s"
  using open_len by metis

lemma same_contents_holds:
  "sds_ok s \<Longrightarrow> sds_open s' \<Longrightarrow> contents s' = contents s \<Longrightarrow> chars s' ! sdslen s = chars s ! sdslen s \<Longrightarrow>
    holds s' (contents s)"
  using contents_same_len [of s s'] by (simp add: holds_def sds_ok_def)

lemma resize_ok:
  assumes "sds_ok s" "t \<le> SDS_TYPE_64" "t = SDS_TYPE_5 \<longrightarrow> n = sdslen s \<and> n < 32" "t \<noteq> SDS_TYPE_5 \<longrightarrow> n < 2 ^ width t"
    "sdslen s \<le> n" "n < 2 ^ 63"
  shows "(\<exists>s'. resize m t n s = Some (Some s') \<and> holds s' (contents s) \<and> sdsalloc s' = n) \<or>
    resize m t n s = Some None \<and> (\<exists>k. \<not> fits m k)"
  using resize_open [OF _ assms(2-6), of m] same_contents_holds [OF assms(1)] assms(1) by (auto simp: sds_ok_def)

lemma make_room:
  assumes "sds_ok s" "short (sdslen s + addlen)"
  shows "(\<exists>s'. sdsMakeRoomFor m s addlen = Some (Some s') \<and> holds s' (contents s) \<and> sdslen s + addlen \<le> sdsalloc s') \<or>
    sdsMakeRoomFor m s addlen = Some None \<and> (\<exists>k. \<not> fits m k)"
  using make_room_open [OF _ assms(2), of m] same_contents_holds [OF assms(1)] assms(1) by (auto simp: sds_ok_def)

end
