(* ===== verification/SdsOps.thy ===== *)
theory SdsOps
  imports Sds
begin

text \<open>
  What the basic operations on dynamic strings promise: each yields a well-formed string with the
  contents expected, or NULL because an allocation failed; appending is a byte sink, and joining is
  a sequence of appends.
\<close>

section \<open>Writing\<close>

lemma poke_setlen: "poke i bs (sdssetlen s n) = map_option (\<lambda>s. sdssetlen s n) (poke i bs s)"
  by (simp add: poke_def)

lemma poke_append:
  "poke i (bs @ [0]) s = do { s \<leftarrow> poke i bs s; poke (i + length bs) [0] s }"
  by (auto simp: poke_def min_def)

text \<open>Bytes stored at the end of the string or before it, with a terminator behind them.\<close>

lemma write_end:
  assumes "sds_ok s" "i \<le> sdslen s" "i + n \<le> sdsalloc s" "length bs = n"
  shows "\<exists>s'. (do { s \<leftarrow> poke i bs s; s \<leftarrow> poke (i + n) [0] s; Some (sdssetlen s (i + n)) }) = Some s' \<and>
    holds s' (take i (contents s) @ bs)"
proof -
  note len = ok_len [OF assms(1)]
  define cs where "cs = take i (chars s) @ bs @ 0 # drop (Suc (i + n)) (chars s)"
  have "holds ((sdssetlen s (i + n))\<lparr>chars := cs\<rparr>) (take (i + n) cs)"
    using assms len by (intro setlen_holds) (auto simp: sds_ok_def cs_def nth_append)
  moreover have "take (i + n) cs = take i (contents s) @ bs"
    using assms len by (simp add: cs_def contents_def)
  moreover have "(do { s \<leftarrow> poke i bs s; s \<leftarrow> poke (i + n) [0] s; Some (sdssetlen s (i + n)) }) =
      Some ((sdssetlen s (i + n))\<lparr>chars := cs\<rparr>)"
    using assms len by (simp add: poke_def cs_def)
  ultimately show ?thesis by auto
qed

lemma write_end_set:
  assumes "sds_ok s" "i \<le> sdslen s" "i + n \<le> sdsalloc s" "length bs = n"
  shows "\<exists>s'. (do { s \<leftarrow> poke i bs s; poke (i + n) [0] (sdssetlen s (i + n)) }) = Some s' \<and>
    holds s' (take i (contents s) @ bs)"
  using write_end [OF assms] by (cases "poke i bs s") (auto simp: poke_setlen bind_eq_Some_conv)

section \<open>The operations\<close>

lemma results_bind:
  assumes "(\<exists>s'. r = Some (Some s') \<and> P s') \<or> r = Some None \<and> (\<exists>n. \<not> fits m n)" "\<And>s'. P s' \<Longrightarrow> results m (f s') t"
  shows "results m (do { p \<leftarrow> r; case p of None \<Rightarrow> Some None | Some s \<Rightarrow> f s }) t"
  using assms(1)
proof (elim disjE exE conjE)
  fix s' assume "r = Some (Some s')" "P s'"
  with assms(2) [of s'] show ?thesis by simp
next
  fix n assume "r = Some None" "\<not> fits m n"
  then show ?thesis by (auto simp: results_def)
qed

lemma sdsnewlen_ok:
  assumes "n \<le> length p" "short n"
  shows "results m (sdsnewlen m (Some p) n) (take n p)"
proof -
  define t where "t = (if sdsReqType n = SDS_TYPE_5 \<and> n = 0 then SDS_TYPE_8 else sdsReqType n)"
  have n: "n < 2 ^ 63" using assms(2) by (simp add: short_def)
  then have t: "t \<le> SDS_TYPE_64" using req_type(1) [of n] by (auto simp: t_def sds_types)
  have sz: "size_t (sdsHdrSize t + n + 1) - sdsHdrSize t = n + 1" by (rule size_hdr [OF t n])
  let ?f = "if t = SDS_TYPE_5 then push_bit 3 (of_nat n) else of_nat t"
  let ?s0 = "\<lparr>flags = ?f, len_field = n mod 2 ^ width t, alloc_field = n mod 2 ^ width t, chars = fresh m (n + 1)\<rparr>"
  have d: "sdsnewlen m (Some p) n =
      (if \<not> fits m (size_t (sdsHdrSize t + n + 1)) then Some None
       else do {
         s \<leftarrow> (if n \<noteq> 0 then do { bs \<leftarrow> peek p n; poke 0 bs ?s0 } else Some ?s0);
         s \<leftarrow> poke n [0] s;
         Some (Some s) })"
    unfolding sdsnewlen_def Let_def t_def [symmetric] sz by simp
  show ?thesis
  proof (cases "fits m (size_t (sdsHdrSize t + n + 1))")
    case False
    then show ?thesis by (auto simp: results_def d)
  next
    case True
    define cs where "cs = take n p @ [0]"
    let ?s = "\<lparr>flags = ?f, len_field = n mod 2 ^ width t, alloc_field = n mod 2 ^ width t, chars = cs\<rparr>"
    have "sdsnewlen m (Some p) n = Some (Some ?s)"
      unfolding d using True assms(1) by (cases "n = 0") (simp_all add: peek_def poke_def cs_def fresh_def)
    moreover have "sds_ok ?s \<and> sdslen ?s = n"
    proof (cases "t = SDS_TYPE_5")
      case True
      then have "n < 32" using req_type(2) [of n] n by (auto simp: t_def sds_types split: if_splits)
      moreover have "sds_type ?s = SDS_TYPE_5" using True by (simp add: sds_type_def sds_types)
      ultimately show ?thesis
        using True assms(1) by (auto simp: sds_ok_def sds_open_def sdslen_def sdsalloc_def sds_types cs_def nth_append)
    next
      case False
      have "n < 2 ^ width t"
      proof (cases "n < 32")
        case True
        with False have "t = SDS_TYPE_8" using req_type(2) [of n] n by (auto simp: t_def split: if_splits)
        with True show ?thesis by (simp add: width_def)
      next
        case False
        with req_type(3) [of n] n show ?thesis by (auto simp: t_def)
      qed
      with header_ok [of ?s t n n] False t assms(1) show ?thesis
        by (auto simp: sds_ok_def sds_type_def sds_types cs_def nth_append)
    qed
    moreover have "take n cs = take n p" using assms(1) by (simp add: cs_def)
    ultimately show ?thesis by (auto simp: results_def holds_def contents_def)
  qed
qed

lemma short_small: "n < 2 ^ 62 \<Longrightarrow> short n"
  by (simp add: short_def)

lemma sdsempty_ok: "results m (sdsempty m) []"
  using sdsnewlen_ok [of 0 "[]" m] by (simp add: sdsempty_def short_def)

lemma sdsnew_ok: "nul_free t \<Longrightarrow> short (length t) \<Longrightarrow> results m (sdsnew m (Some (t @ 0 # r))) t"
  using sdsnewlen_ok [of "length t" "t @ 0 # r" m] by (simp add: sdsnew_def c_simps)

lemma holds_chars: "holds s t \<Longrightarrow> sdslen s = length t \<and> length t < length (chars s) \<and> take (length t) (chars s) = t"
proof -
  assume h: "holds s t"
  then have "sds_ok s" "take (sdslen s) (chars s) = t" by (simp_all add: holds_def contents_def)
  with ok_len [of s] holds_len [OF h] show ?thesis by simp
qed

lemma sdsdup_ok: "holds s t \<Longrightarrow> short (length t) \<Longrightarrow> results m (sdsdup m s) t"
  using sdsnewlen_ok [of "length t" "chars s" m] holds_chars [of s t] by (simp add: sdsdup_def)

lemma sdscatlen_ok:
  assumes "holds s t" "n \<le> length u" "short (length t + n)"
  shows "results m (sdscatlen m s u n) (t @ take n u)"
proof -
  have s: "sds_ok s" "contents s = t" "sdslen s = length t" using assms(1) holds_len by (auto simp: holds_def)
  have z: "size_t (length t + n) = length t + n" using assms(3) by (simp add: short_def size_t_def)
  show ?thesis
    unfolding sdscatlen_def Let_def s(3) z
  proof (rule results_bind)
    show "(\<exists>s'. sdsMakeRoomFor m s n = Some (Some s') \<and> (holds s' t \<and> length t + n \<le> sdsalloc s')) \<or>
        sdsMakeRoomFor m s n = Some None \<and> (\<exists>k. \<not> fits m k)"
      using make_room [OF s(1), of n m] assms(3) s by simp
    fix s' assume s': "holds s' t \<and> length t + n \<le> sdsalloc s'"
    from write_end_set [of s' "length t" n "take n u"] s' holds_len [of s' t] assms(2)
    obtain s'' where "(do { s \<leftarrow> poke (length t) (take n u) s'; poke (length t + n) [0] (sdssetlen s (length t + n)) }) = Some s''"
      "holds s'' (t @ take n u)" by (auto simp: holds_def)
    then show "results m (do { bs \<leftarrow> peek u n; s \<leftarrow> poke (length t) bs s';
        s \<leftarrow> poke (length t + n) [0] (sdssetlen s (length t + n)); Some (Some s) }) (t @ take n u)"
      using assms(2) by (auto simp: results_def peek_def bind_eq_Some_conv)
  qed
qed

lemma sdscat_ok:
  assumes "holds s t" "nul_free u" "short (length t + length u)"
  shows "results m (sdscat m s (u @ 0 # r)) (t @ u)"
  using sdscatlen_ok [OF assms(1), of "length u" "u @ 0 # r"] assms by (simp add: sdscat_def c_simps)

lemma sdscatsds_ok:
  assumes "holds s t" "holds s2 u" "short (length t + length u)"
  shows "results m (sdscatsds m s s2) (t @ u)"
proof -
  note u = holds_chars [OF assms(2)]
  with sdscatlen_ok [OF assms(1), of "length u" "chars s2" m] assms(3) show ?thesis by (simp add: sdscatsds_def)
qed

lemma sdscpylen_ok:
  assumes "holds s t" "n \<le> length u" "short n" "short (length t)"
  shows "results m (sdscpylen m s u n) (take n u)"
proof -
  have s: "sds_ok s" "contents s = t" "sdslen s = length t" using assms(1) holds_len by (auto simp: holds_def)
  show ?thesis
    unfolding sdscpylen_def
  proof (rule results_bind)
    show "(\<exists>s'. (if sdsalloc s < n then sdsMakeRoomFor m s (n - sdslen s) else Some (Some s)) = Some (Some s') \<and>
          (sds_ok s' \<and> n \<le> sdsalloc s')) \<or>
        (if sdsalloc s < n then sdsMakeRoomFor m s (n - sdslen s) else Some (Some s)) = Some None \<and> (\<exists>k. \<not> fits m k)"
      using make_room [OF s(1), of "n - sdslen s" m] ok_len [OF s(1)] s assms(3)
      by (auto simp: holds_def)
    fix s' assume s': "sds_ok s' \<and> n \<le> sdsalloc s'"
    from write_end [of s' 0 n "take n u"] s' assms(2)
    obtain s'' where "(do { s \<leftarrow> poke 0 (take n u) s'; s \<leftarrow> poke n [0] s; Some (sdssetlen s n) }) = Some s''"
      "holds s'' (take n u)" by auto
    then show "results m (do { bs \<leftarrow> peek u n; s \<leftarrow> poke 0 bs s'; s \<leftarrow> poke n [0] s; Some (Some (sdssetlen s n)) }) (take n u)"
      using assms(2) by (auto simp: results_def peek_def bind_eq_Some_conv)
  qed
qed

lemma sdscpy_ok:
  assumes "holds s t" "nul_free u" "short (length u)" "short (length t)"
  shows "results m (sdscpy m s (u @ 0 # r)) u"
  using sdscpylen_ok [OF assms(1), of "length u" "u @ 0 # r" m] assms by (simp add: sdscpy_def c_simps)

lemma sdsgrowzero_ok:
  assumes "holds s t" "short n"
  shows "results m (sdsgrowzero m s n) (t @ replicate (n - length t) 0)"
proof (cases "n \<le> length t")
  case True
  with assms holds_len show ?thesis by (auto simp: sdsgrowzero_def Let_def results_def)
next
  case False
  have s: "sds_ok s" "contents s = t" "sdslen s = length t" using assms(1) holds_len by (auto simp: holds_def)
  let ?z = "replicate (n - length t) (0 :: byte)"
  have g: "sdsgrowzero m s n = do { p \<leftarrow> sdsMakeRoomFor m s (n - length t);
      case p of None \<Rightarrow> Some None | Some s \<Rightarrow> do { s \<leftarrow> poke (length t) (?z @ [0]) s; Some (Some (sdssetlen s n)) } }"
  proof -
    have "replicate (n - length t + 1) 0 = ?z @ [0]" by (simp add: replicate_append_same)
    then show ?thesis using False s unfolding sdsgrowzero_def Let_def by (simp cong: option.case_cong)
  qed
  show ?thesis
    unfolding g
  proof (rule results_bind)
    show "(\<exists>s'. sdsMakeRoomFor m s (n - length t) = Some (Some s') \<and> (holds s' t \<and> n \<le> sdsalloc s')) \<or>
        sdsMakeRoomFor m s (n - length t) = Some None \<and> (\<exists>k. \<not> fits m k)"
      using make_room [OF s(1), of "n - length t" m] False s assms(2) by simp
    fix s' assume s': "holds s' t \<and> n \<le> sdsalloc s'"
    from write_end [of s' "length t" "n - length t" ?z] s' holds_len [of s' t] False
    obtain s'' where "(do { s \<leftarrow> poke (length t) ?z s'; s \<leftarrow> poke n [0] s; Some (sdssetlen s n) }) = Some s''"
      "holds s'' (t @ ?z)" by (auto simp: holds_def)
    then show "results m (do { s \<leftarrow> poke (length t) (?z @ [0]) s'; Some (Some (sdssetlen s n)) }) (t @ ?z)"
      using False by (auto simp: results_def poke_append bind_eq_Some_conv)
  qed
qed

lemma sdsRemoveFreeSpace_ok:
  assumes "holds s t" "short (length t)"
  shows "results m (sdsRemoveFreeSpace m s) t"
proof -
  have s: "sds_ok s" "contents s = t" "sdslen s = length t" using assms(1) holds_len by (auto simp: holds_def)
  have n: "length t < 2 ^ 64" "length t < 2 ^ 63" using assms(2) by (simp_all add: short_def)
  have "sdsReqType (length t) \<noteq> SDS_TYPE_5 \<longrightarrow> length t < 2 ^ width (sdsReqType (length t))"
    using req_type(2,3) [OF n(1)] by auto
  with resize_ok [OF s(1) req_type(1) [OF n(1)], of "length t" m] req_type(2) [OF n(1)] n(2) s show ?thesis
    by (fastforce simp: sdsRemoveFreeSpace_def results_def)
qed

lemma sdsclear_ok: "holds s t \<Longrightarrow> \<exists>s'. sdsclear s = Some s' \<and> holds s' []"
  using write_end_set [of s 0 0 "[]"] by (auto simp: holds_def sdsclear_def poke_def)

text \<open>The terminator may have been overwritten by then.\<close>

lemma sdsIncrLen_open:
  assumes "sds_open s" "sds_type s \<noteq> SDS_TYPE_5" "0 \<le> int (sdslen s) + i" "int (sdslen s) + i \<le> int (sdsalloc s)"
  shows "\<exists>s'. sdsIncrLen s i = Some (Some s') \<and> holds s' (take (nat (int (sdslen s) + i)) (chars s))"
proof -
  define l where "l = sdslen s"
  note s = assms(1) l_def
  let ?n = "nat (int l + i)"
  have ty: "sds_type s \<le> SDS_TYPE_64" "len_field s = l" "alloc_field s = sdsalloc s"
    using s assms(2) by (auto simp: sds_open_def sdslen_def sdsalloc_def)
  have b: "sdsalloc s < 2 ^ width (sds_type s)" "l \<le> sdsalloc s" "sdsalloc s < length (chars s)"
    using s assms(2) ty by (auto simp: sds_open_def)
  define cs where "cs = take ?n (chars s) @ 0 # drop (Suc ?n) (chars s)"
  have n: "?n \<le> sdsalloc s" using assms(4) s by simp
  have "int l + i < 2 ^ width (sds_type s)"
    using assms(4) [folded l_def] b(1) by (metis le_less_trans of_nat_less_numeral_power_cancel_iff)
  then have m: "(int l + i) mod 2 ^ width (sds_type s) = int l + i"
    using assms(3) [folded l_def] by (rule mod_pos_pos_trivial [rotated])
  have fm: "field_minus (sds_type s) (sdsalloc s) l = int (sdsalloc s) - int l"
  proof -
    have "int (sdsalloc s) - int l < 2 ^ width (sds_type s)"
      using b(1) by (metis diff_le_self of_nat_diff b(2) le_less_trans of_nat_less_numeral_power_cancel_iff)
    then show ?thesis using b(2) by (auto simp: field_minus_def intro: mod_pos_pos_trivial)
  qed
  have "sdsIncrLen s i = Some (Some ((sdssetlen s ?n)\<lparr>chars := cs\<rparr>))"
    using assms(2) assms(3,4) [folded l_def] ty n b m fm
    by (auto simp: sdsIncrLen_def Let_def poke_def cs_def sdssetlen_def le_less_trans)
  moreover have "holds ((sdssetlen s ?n)\<lparr>chars := cs\<rparr>) (take ?n cs)"
    by (rule setlen_holds) (use s n b in \<open>auto simp: cs_def nth_append\<close>)
  ultimately show ?thesis using n b by (simp add: cs_def min_def l_def)
qed

lemma sdsIncrLen_ok:
  assumes "holds s t" "sds_type s \<noteq> SDS_TYPE_5" "0 \<le> int (length t) + i" "int (length t) + i \<le> int (sdsalloc s)"
  shows "\<exists>s'. sdsIncrLen s i = Some (Some s') \<and> holds s' (take (nat (int (length t) + i)) (chars s))"
  using sdsIncrLen_open [of s i] assms holds_len [OF assms(1)] by (simp add: holds_def sds_ok_def)

section \<open>Appending as a sink\<close>

text \<open>With an allocator that never fails.\<close>

definition plenty :: "(nat \<Rightarrow> byte) \<Rightarrow> allocator" where
  "plenty j = \<lparr>fits = (\<lambda>_. True), junk = j\<rparr>"

definition sds_append :: "(nat \<Rightarrow> byte) \<Rightarrow> sds \<Rightarrow> byte list \<Rightarrow> sds option" where
  "sds_append j s bs = Option.bind (sdscatlen (plenty j) s bs (length bs)) id"

lemma plenty_results: "results (plenty j) r t \<longleftrightarrow> (\<exists>s. r = Some (Some s) \<and> holds s t)"
  by (simp add: results_def plenty_def)

interpretation sds_sink: bounded_sink "sds_append j" contents sds_ok short for j
proof unfold_locales
  show "short n \<Longrightarrow> k \<le> n \<Longrightarrow> short k" for n k by (rule short_mono)
  fix s and bs :: "byte list" assume "sds_ok s" "short (length (contents s) + length bs)"
  with sdscatlen_ok [of s "contents s" "length bs" bs "plenty j"]
  show "\<exists>s'. sds_append j s bs = Some s' \<and> sds_ok s' \<and> contents s' = contents s @ bs"
    by (auto simp: holds_def plenty_results sds_append_def)
qed

lemma catlen_append:
  assumes "sds_ok s" "n \<le> length u" "short (length (contents s) + n)"
  shows "sdscatlen (plenty j) s u n = map_option Some (sds_append j s (take n u))"
proof -
  have "sdscatlen (plenty j) s u n = sdscatlen (plenty j) s (take n u) n"
    using assms(2) by (simp add: sdscatlen_def peek_def)
  moreover obtain s' where "sdscatlen (plenty j) s (take n u) n = Some (Some s')"
    using sdscatlen_ok [of s "contents s" n "take n u" "plenty j"] assms by (auto simp: plenty_results holds_def)
  ultimately show ?thesis using assms(2) by (simp add: sds_append_def min_def)
qed

text \<open>The pieces of a joined text.\<close>

fun pieces :: "byte list \<Rightarrow> byte list list \<Rightarrow> byte list list" where
  "pieces sep [] = []"
| "pieces sep (x # xs) = x # (if xs \<noteq> [] then [sep] else []) @ pieces sep xs"

definition joined :: "byte list \<Rightarrow> byte list list \<Rightarrow> byte list" where
  "joined sep ts = concat (pieces sep ts)"

lemma join_loop_pieces:
  assumes "\<And>s x. x \<in> set xs \<Longrightarrow> sds_ok s \<Longrightarrow> short (length (contents s) + length (f x)) \<Longrightarrow>
      cat s x = map_option Some (sds_append j s (f x))"
    and "\<And>s. sds_ok s \<Longrightarrow> short (length (contents s) + length sep) \<Longrightarrow> cat_sep s = map_option Some (sds_append j s sep)"
    and "sds_ok s" "short (length (contents s) + length (joined sep (map f xs)))"
  shows "join_loop cat cat_sep (Some s) xs = map_option Some (put_all (sds_append j) s (pieces sep (map f xs)))"
  using assms(1,3,4)
proof (induction xs arbitrary: s)
  case (Cons x xs)
  have sh: "short (length (contents s) + length (f x))" "xs \<noteq> [] \<Longrightarrow> short (length (contents s) + length (f x) + length sep)"
    using Cons.prems(3) by (auto elim!: short_mono simp: joined_def)
  from sds_sink.put_room [OF Cons.prems(2) sh(1), of j] obtain s1
    where s1: "sds_append j s (f x) = Some s1" "sds_ok s1" "contents s1 = contents s @ f x" by blast
  have c: "cat s x = Some (Some s1)" using Cons.prems(1) [of x s] Cons.prems(2) sh(1) s1(1) by simp
  show ?case
  proof (cases "xs = []")
    case True
    with c s1 show ?thesis by simp
  next
    case False
    from sds_sink.put_room [OF s1(2), of sep j] sh(2) [OF False] s1(3) obtain s2
      where s2: "sds_append j s1 sep = Some s2" "sds_ok s2" "contents s2 = contents s1 @ sep" by (auto simp: add.assoc)
    have c2: "cat_sep s1 = Some (Some s2)" using assms(2) [OF s1(2)] sh(2) [OF False] s1(3) s2(1) by (simp add: add.assoc)
    have "join_loop cat cat_sep (Some s2) xs = map_option Some (put_all (sds_append j) s2 (pieces sep (map f xs)))"
      using Cons.prems(1,3) s1(3) s2(2,3) False by (intro Cons.IH) (auto elim!: short_mono simp: joined_def add.assoc)
    with False c c2 s1 s2 show ?thesis by simp
  qed
qed simp

lemma join_result:
  assumes "\<And>s x. x \<in> set xs \<Longrightarrow> sds_ok s \<Longrightarrow> short (length (contents s) + length (f x)) \<Longrightarrow>
      cat s x = map_option Some (sds_append j s (f x))"
    and "\<And>s. sds_ok s \<Longrightarrow> short (length (contents s) + length sep) \<Longrightarrow> cat_sep s = map_option Some (sds_append j s sep)"
    and "short (length (joined sep (map f xs)))"
  shows "\<exists>s. (do { p \<leftarrow> sdsempty (plenty j); join_loop cat cat_sep p xs }) = Some (Some s) \<and> holds s (joined sep (map f xs))"
proof -
  obtain s where s: "sdsempty (plenty j) = Some (Some s)" "sds_ok s" "contents s = []"
    using sdsempty_ok [of "plenty j"] by (auto simp: plenty_results holds_def)
  obtain s' where "put_all (sds_append j) s (pieces sep (map f xs)) = Some s'" "sds_ok s'"
    "contents s' = joined sep (map f xs)"
    using sds_sink.put_all_room [OF s(2), of "pieces sep (map f xs)" j] s(3) assms(3) by (auto simp: joined_def)
  with join_loop_pieces [of xs f cat j sep cat_sep, OF assms(1,2) s(2)] s assms(3) show ?thesis
    by (simp add: holds_def)
qed

lemma sdsjoin_ok:
  assumes "list_all nul_free ts" "nul_free sep" "short (length (joined sep ts))"
  shows "\<exists>s. sdsjoin (plenty j) (map (\<lambda>t. t @ [0]) ts) (sep @ [0]) = Some (Some s) \<and> holds s (joined sep ts)"
proof -
  have cat: "sdscat (plenty j) s (u @ [0]) = map_option Some (sds_append j s u)"
    if "sds_ok s" "nul_free u" "short (length (contents s) + length u)" for s u
    using catlen_append [OF that(1), of "length u" "u @ [0]"] that by (simp add: sdscat_def c_simps)
  have m: "map butlast (map (\<lambda>t. t @ [0]) ts) = ts" by (induction ts) simp_all
  have "\<exists>s. (do { p \<leftarrow> sdsempty (plenty j); join_loop (sdscat (plenty j)) (\<lambda>s. sdscat (plenty j) s (sep @ [0])) p
      (map (\<lambda>t. t @ [0]) ts) }) = Some (Some s) \<and> holds s (joined sep (map butlast (map (\<lambda>t. t @ [0]) ts)))"
  proof (rule join_result)
    fix s x assume "x \<in> set (map (\<lambda>t. t @ [0]) ts)" "sds_ok s" "short (length (contents s) + length (butlast x))"
    with cat assms(1) show "sdscat (plenty j) s x = map_option Some (sds_append j s (butlast x))"
      by (auto simp: list_all_iff)
  qed (use cat assms(2,3) m in auto)
  then show ?thesis unfolding m sdsjoin_def .
qed

lemma sdsjoinsds_ok:
  assumes "list_all2 holds ss ts" "n \<le> length sep" "short (length (joined (take n sep) ts))"
  shows "\<exists>s. sdsjoinsds (plenty j) ss sep n = Some (Some s) \<and> holds s (joined (take n sep) ts)"
proof -
  have m: "map contents ss = ts" using assms(1) by (induction rule: list_all2_induct) (simp_all add: holds_def)
  have "\<exists>s. (do { p \<leftarrow> sdsempty (plenty j); join_loop (sdscatsds (plenty j)) (\<lambda>s. sdscatlen (plenty j) s sep n) p ss }) =
      Some (Some s) \<and> holds s (joined (take n sep) (map contents ss))"
  proof (rule join_result)
    fix s x assume x: "x \<in> set ss" "sds_ok s" "short (length (contents s) + length (contents x))"
    from assms(1) x(1) have "holds x (contents x)" by (auto simp: list_all2_conv_all_nth in_set_conv_nth holds_def)
    from holds_chars [OF this] catlen_append [OF x(2), of "sdslen x" "chars x"] x(3)
    show "sdscatsds (plenty j) s x = map_option Some (sds_append j s (contents x))" by (simp add: sdscatsds_def)
  next
    fix s assume "sds_ok s" "short (length (contents s) + length (take n sep))"
    moreover have "length (take n sep) = n" using assms(2) by simp
    ultimately have s: "sds_ok s" "short (length (contents s) + n)" by simp_all
    with catlen_append [OF s(1) assms(2)]
    show "sdscatlen (plenty j) s sep n = map_option Some (sds_append j s (take n sep))" by simp
  qed (use assms(3) m in simp)
  then show ?thesis unfolding m sdsjoinsds_def .
qed

end
