(* ===== verification/SdsText.thy ===== *)
theory SdsText
  imports SdsOps NumText
begin

text \<open>
  The integer printers of \<open>sds.c\<close>: the digits are written from the last to the first and reversed. The
  result is the decimal text, for every value but the least one, which the code negates.
\<close>

section \<open>Integers\<close>

definition SDS_LLSTR_SIZE :: nat where "SDS_LLSTR_SIZE = 21"

text \<open>\<open>buf[i] = c\<close> in a local buffer.\<close>

definition store :: "nat \<Rightarrow> byte \<Rightarrow> byte list \<Rightarrow> byte list option" where
  "store i c buf = (if i < length buf then Some (buf[i := c]) else None)"

text \<open>The loop that writes the digits from the last to the first, and the loop that reverses them.\<close>

function digits_loop :: "nat \<Rightarrow> u64 \<Rightarrow> byte list \<Rightarrow> (nat \<times> byte list) option" where
  "digits_loop p v buf = do {
     buf \<leftarrow> store p (0x30 + ucast (v mod 10)) buf;
     if v div 10 \<noteq> 0 then digits_loop (p + 1) (v div 10) buf else Some (p + 1, buf) }"
  by pat_completeness auto

lemma div10_less: "v div 10 \<noteq> 0 \<Longrightarrow> unat (v div 10) < unat (v :: u64)"
proof -
  assume "v div 10 \<noteq> 0"
  then have "unat v div 10 \<noteq> 0" by (simp add: unat_div unat_eq_zero [symmetric] del: unat_eq_zero)
  then show ?thesis by (simp add: unat_div)
qed

termination digits_loop
  by (relation "measure (\<lambda>(p, v, buf). unat v)") (simp_all add: div10_less)

fun reverse_loop :: "nat \<Rightarrow> nat \<Rightarrow> byte list \<Rightarrow> byte list option" where
  "reverse_loop s p buf =
    (if s < p then do {
       aux \<leftarrow> deref (drop s buf);
       c \<leftarrow> deref (drop p buf);
       buf \<leftarrow> store s c buf;
       buf \<leftarrow> store p aux buf;
       reverse_loop (s + 1) (p - 1) buf }
     else Some buf)"

declare digits_loop.simps [simp del] reverse_loop.simps [simp del]

text \<open>Negating the least \<open>long long\<close> overflows.\<close>

definition sdsll2str :: "byte list \<Rightarrow> 64 word \<Rightarrow> (nat \<times> byte list) option" where
  "sdsll2str s value = do {
     v \<leftarrow> (if value <s 0 then if sint value = - (2 ^ 63) then None else Some (- value) else Some value);
     (p, s) \<leftarrow> digits_loop 0 v s;
     (p, s) \<leftarrow> (if value <s 0 then do { s \<leftarrow> store p 0x2D s; Some (p + 1, s) } else Some (p, s));
     s \<leftarrow> store p 0 s;
     s \<leftarrow> reverse_loop 0 (p - 1) s;
     Some (p, s) }"

definition sdsull2str :: "byte list \<Rightarrow> u64 \<Rightarrow> (nat \<times> byte list) option" where
  "sdsull2str s v = do {
     (p, s) \<leftarrow> digits_loop 0 v s;
     s \<leftarrow> store p 0 s;
     s \<leftarrow> reverse_loop 0 (p - 1) s;
     Some (p, s) }"

definition sdsfromlonglong :: "allocator \<Rightarrow> 64 word \<Rightarrow> sds_ptr option" where
  "sdsfromlonglong m value = do {
     (len, buf) \<leftarrow> sdsll2str (fresh m SDS_LLSTR_SIZE) value;
     sdsnewlen m (Some buf) len }"

lemma store_append: "length xs = i \<Longrightarrow> store i c (xs @ y # ys) = Some (xs @ c # ys)"
  by (auto simp: store_def)

lemma store_after: "length xs = i \<Longrightarrow> zs \<noteq> [] \<Longrightarrow> store i c (xs @ zs) = Some (xs @ c # tl zs)"
  by (cases zs) (auto simp: store_append)

lemma digit_of_word: "0x30 + ucast (v mod 10 :: u64) = digit_byte (unat v mod 10)"
proof -
  have "unat (v mod 10) = unat v mod 10" by (simp add: unat_mod)
  then have "(ucast (v mod 10) :: byte) = of_nat (unat v mod 10)" by (metis of_nat_unat)
  then show ?thesis by (simp add: digit_byte_def)
qed

lemma digits_loop_spec:
  assumes "length xs = p" "length zs \<ge> length (dec (unat v))"
  shows "digits_loop p v (xs @ zs) =
    Some (p + length (dec (unat v)), xs @ rev (dec (unat v)) @ drop (length (dec (unat v))) zs)"
  using assms
proof (induction p v "xs @ zs" arbitrary: xs zs rule: digits_loop.induct)
  case (1 p v)
  have z: "unat (v div 10) = unat v div 10" "v div 10 = 0 \<longleftrightarrow> unat v < 10"
    by (simp_all add: unat_div unat_eq_zero [symmetric] div_eq_0_iff del: unat_eq_zero)
  have d: "dec (unat v) = (if unat v < 10 then [digit_byte (unat v mod 10)]
      else dec (unat v div 10) @ [digit_byte (unat v mod 10)])"
    by (subst dec.simps) simp
  have zs: "zs \<noteq> []" using 1(3) dec_nonempty [of "unat v"] by auto
  then have s: "store p (0x30 + ucast (v mod 10)) (xs @ zs) = Some (xs @ digit_byte (unat v mod 10) # tl zs)"
    using 1(2) by (simp add: store_after digit_of_word)
  show ?case
  proof (cases "unat v < 10")
    case True
    with s z zs d show ?thesis by (subst digits_loop.simps) (simp add: drop_Suc)
  next
    case False
    then have n: "v div 10 \<noteq> 0" using z by simp
    have "digits_loop (p + 1) (v div 10) ((xs @ [digit_byte (unat v mod 10)]) @ tl zs) =
        Some (p + 1 + length (dec (unat (v div 10))), (xs @ [digit_byte (unat v mod 10)]) @
          rev (dec (unat (v div 10))) @ drop (length (dec (unat (v div 10)))) (tl zs))"
      by (rule 1(1)) (use s n 1(2,3) z d False in auto)
    with s n z d False show ?thesis
      by (subst digits_loop.simps) (simp add: drop_Suc del: dec.simps)
  qed
qed

lemma reverse_loop_spec:
  assumes "length xs = s" "p + 1 = s + length ys" "ys \<noteq> []"
  shows "reverse_loop s p (xs @ ys @ zs) = Some (xs @ rev ys @ zs)"
  using assms
proof (induction "length ys" arbitrary: s p xs ys zs rule: less_induct)
  case less
  show ?case
  proof (cases "s < p")
    case False
    with less.prems have "length ys = 1" by (cases ys) auto
    then obtain y where "ys = [y]" by (auto simp: length_Suc_conv)
    with False show ?thesis by (simp add: reverse_loop.simps)
  next
    case True
    with less.prems obtain a ys' where "ys = a # ys'" "ys' \<noteq> []" by (cases ys) auto
    then obtain b mid where ys: "ys = a # mid @ [b]" by (metis append_butlast_last_id)
    have p: "p = s + length mid + 1" using less.prems ys by simp
    have "reverse_loop s p (xs @ ys @ zs) = reverse_loop (s + 1) (p - 1) (xs @ (b # mid @ [a]) @ zs)"
    proof -
      have "store p a (xs @ b # mid @ b # zs) = Some (xs @ b # mid @ a # zs)"
        using store_append [of "xs @ b # mid" p a b zs] p less.prems(1) by simp
      with True less.prems(1) p show ?thesis
        by (subst reverse_loop.simps) (simp add: ys store_append)
    qed
    also have "\<dots> = Some (xs @ rev ys @ zs)"
    proof (cases "mid = []")
      case True
      with p ys less.prems(1) show ?thesis by (simp add: reverse_loop.simps)
    next
      case False
      have "reverse_loop (s + 1) (p - 1) ((xs @ [b]) @ mid @ a # zs) = Some ((xs @ [b]) @ rev mid @ a # zs)"
        by (rule less.hyps) (use False ys p less.prems(1) in auto)
      then show ?thesis by (simp add: ys)
    qed
    finally show ?thesis .
  qed
qed

lemma sdsull2str_spec:
  assumes "length (dec (unat v)) < length buf"
  shows "sdsull2str buf v = Some (length (dec (unat v)), dec (unat v) @ 0 # drop (Suc (length (dec (unat v)))) buf)"
proof -
  let ?d = "dec (unat v)"
  have "drop (length ?d) buf \<noteq> []" using assms by simp
  then have "store (length ?d) 0 (rev ?d @ drop (length ?d) buf) = Some (rev ?d @ 0 # tl (drop (length ?d) buf))"
    by (intro store_after) simp_all
  moreover have "tl (drop (length ?d) buf) = drop (Suc (length ?d)) buf" by (simp add: drop_Suc drop_tl)
  ultimately show ?thesis
    using digits_loop_spec [of "[]" 0 v buf] assms dec_nonempty [of "unat v"]
      reverse_loop_spec [of "[]" 0 "length ?d - 1" "rev ?d" "0 # drop (Suc (length ?d)) buf"]
    by (simp add: sdsull2str_def Suc_leI)
qed

lemma unat_of_sint: "unat (word_of_int i :: u64) = nat i" if "0 \<le> i" "i < 2 ^ 63" for i
proof -
  have "uint (word_of_int i :: u64) = i" using that by (simp add: uint_word_of_int_eq take_bit_int_eq_self)
  then show ?thesis by (simp only: unat_eq_nat_uint)
qed

lemma unat_magnitude:
  fixes v :: u64
  shows "0 \<le> sint v \<Longrightarrow> unat v = nat \<bar>sint v\<bar>"
    "sint v < 0 \<Longrightarrow> sint v \<noteq> - (2 ^ 63) \<Longrightarrow> unat (- v) = nat \<bar>sint v\<bar>"
proof -
  have r: "- (2 ^ 63) \<le> sint v" "sint v < 2 ^ 63" using sint_greater_eq [of v] sint_less [of v] by simp_all
  show "unat v = nat \<bar>sint v\<bar>" if "0 \<le> sint v" using unat_of_sint [OF that r(2)] that by simp
  show "unat (- v) = nat \<bar>sint v\<bar>" if "sint v < 0" "sint v \<noteq> - (2 ^ 63)"
  proof -
    have "word_of_int (- sint v) = - v" by simp
    with unat_of_sint [of "- sint v"] that r(1) show ?thesis by simp
  qed
qed

lemma sdsll2str_spec:
  assumes "sint v \<noteq> - (2 ^ 63)" "length (fmt_int (sint v)) < length buf"
  shows "sdsll2str buf v =
    Some (length (fmt_int (sint v)), fmt_int (sint v) @ 0 # drop (Suc (length (fmt_int (sint v)))) buf)"
proof (cases "v <s 0")
  case False
  then have "0 \<le> sint v" by (simp add: word_sless_alt)
  then have "fmt_int (sint v) = dec (unat v)" by (simp add: fmt_int_def unat_magnitude(1))
  with False sdsull2str_spec [of v buf] assms(2) show ?thesis by (simp add: sdsll2str_def sdsull2str_def)
next
  case True
  then have neg: "sint v < 0" by (simp add: word_sless_alt)
  let ?d = "dec (unat (- v))"
  have f: "fmt_int (sint v) = 0x2D # ?d" using neg assms(1) unat_magnitude(2) [of v] by (simp add: fmt_int_def)
  then have len: "Suc (length ?d) < length buf" using assms(2) by simp
  then have "drop (length ?d) buf = buf ! length ?d # buf ! Suc (length ?d) # drop (Suc (Suc (length ?d))) buf"
    by (simp add: Cons_nth_drop_Suc)
  then obtain a b zs where zs: "drop (length ?d) buf = a # b # zs" "zs = drop (Suc (Suc (length ?d))) buf" by blast
  have st: "store (length ?d) 0x2D (rev ?d @ a # b # zs) = Some (rev ?d @ 0x2D # b # zs)"
     "store (Suc (length ?d)) 0 ((rev ?d @ [0x2D]) @ b # zs) = Some ((rev ?d @ [0x2D]) @ 0 # zs)"
    by (intro store_append; simp)+
  then show ?thesis
    using digits_loop_spec [of "[]" 0 "- v" buf] len True assms(1) zs
      reverse_loop_spec [of "[]" 0 "length ?d" "rev ?d @ [0x2D]" "0 # zs"]
    by (simp add: sdsll2str_def f)
qed

section \<open>The buffers are long enough\<close>

lemma number_lengths: "length (dec (unat (v :: u64))) < SDS_LLSTR_SIZE" "length (fmt_int (sint v)) < SDS_LLSTR_SIZE"
proof -
  have "unat v < 10 ^ Suc 19" using unsigned_less [of v, where ?'a = nat] by simp
  from dec_short [OF this] show "length (dec (unat v)) < SDS_LLSTR_SIZE" by (simp add: SDS_LLSTR_SIZE_def)
  have "nat \<bar>sint v\<bar> < 10 ^ Suc 18" using sint_greater_eq [of v] sint_less [of v] by simp
  from dec_short [OF this] show "length (fmt_int (sint v)) < SDS_LLSTR_SIZE"
    by (auto simp: fmt_int_def SDS_LLSTR_SIZE_def less_Suc_eq_le)
qed

lemma local_buffer:
  "sdsull2str (fresh m SDS_LLSTR_SIZE) v = Some (length (dec (unat v)),
    dec (unat v) @ 0 # drop (Suc (length (dec (unat v)))) (fresh m SDS_LLSTR_SIZE))"
  "sint v \<noteq> - (2 ^ 63) \<Longrightarrow> sdsll2str (fresh m SDS_LLSTR_SIZE) v = Some (length (fmt_int (sint v)),
    fmt_int (sint v) @ 0 # drop (Suc (length (fmt_int (sint v)))) (fresh m SDS_LLSTR_SIZE))"
  by (simp_all add: sdsull2str_spec sdsll2str_spec number_lengths)

lemma sdsfromlonglong_ok: "sint v \<noteq> - (2 ^ 63) \<Longrightarrow> results m (sdsfromlonglong m v) (fmt_int (sint v))"
proof -
  let ?t = "fmt_int (sint v)"
  assume v: "sint v \<noteq> - (2 ^ 63)"
  have "short (length ?t)" using number_lengths(2) [of v] by (simp add: short_def SDS_LLSTR_SIZE_def)
  with sdsnewlen_ok [of "length ?t" "?t @ 0 # drop (Suc (length ?t)) (fresh m SDS_LLSTR_SIZE)" m] show ?thesis
    by (simp add: sdsfromlonglong_def local_buffer(2) [OF v])
qed

end
