(* ===== verification/SdsFormat.thy ===== *)
theory SdsFormat
  imports SdsText
begin

text \<open>
  Formatted appending (\<open>sds.c\<close>): \<open>sdscatprintf\<close>, which doubles a buffer until the text of the C
  library fits, and the format loop of \<open>sdscatfmt\<close>. The latter appends its rendering, a function of
  the format and the arguments, whenever the format does not end in a lone percent sign.
\<close>

section \<open>Formats of the C library\<close>

text \<open>\<open>vsnprintf\<close> of a call whose text is \<open>out\<close>.\<close>

definition vsnprintf :: "byte list \<Rightarrow> nat \<Rightarrow> byte list \<Rightarrow> byte list" where
  "vsnprintf out n buf = take (n - 1) out @ 0 # drop (Suc (length (take (n - 1) out))) buf"

text \<open>The buffer is full when the last byte but one is no terminator.\<close>

partial_function (option) format_loop :: "allocator \<Rightarrow> byte list \<Rightarrow> nat \<Rightarrow> byte list option option" where
  "format_loop m out buflen =
    (if buflen < 2 then None
     else
       let buf = vsnprintf out buflen ((fresh m buflen)[buflen - 2 := 0]) in
       if buf ! (buflen - 2) \<noteq> 0 then
         if fits m (size_t (buflen * 2)) then format_loop m out (size_t (buflen * 2)) else Some None
       else Some (Some buf))"

definition sdscatvprintf :: "allocator \<Rightarrow> sds \<Rightarrow> byte list \<Rightarrow> byte list \<Rightarrow> sds_ptr option" where
  "sdscatvprintf m s fmt out = do {
     f \<leftarrow> cstr fmt;
     let buflen = size_t (length f * 2);
     p \<leftarrow> (if buflen > 1024 then if fits m buflen then format_loop m out buflen else Some None
          else format_loop m out 1024);
     case p of
       None \<Rightarrow> Some None
     | Some buf \<Rightarrow> sdscat m s buf }"

definition sdscatprintf :: "allocator \<Rightarrow> sds \<Rightarrow> byte list \<Rightarrow> byte list \<Rightarrow> sds_ptr option" where
  "sdscatprintf m s fmt out = sdscatvprintf m s fmt out"

lemma format_loop_ok:
  assumes "nul_free out" "short (length out)" "2 \<le> n" "n \<le> 2 ^ 63"
  shows "(\<exists>r. format_loop m out n = Some (Some (out @ 0 # r))) \<or> format_loop m out n = Some None \<and> (\<exists>k. \<not> fits m k)"
  using assms(3,4)
proof (induction "length out + 2 - n" arbitrary: n rule: less_induct)
  case less
  let ?buf = "vsnprintf out n ((fresh m n)[n - 2 := 0])"
  show ?case
  proof (cases "n \<le> length out + 1")
    case True
    then have "n - 2 < n - 1" "n - 2 < length out" using less.prems(1) by simp_all
    then have "?buf ! (n - 2) = out ! (n - 2)" by (simp add: vsnprintf_def nth_append)
    moreover from \<open>n - 2 < length out\<close> have "out ! (n - 2) \<noteq> 0" using assms(1) less.prems(1) by (auto simp: nul_free_def in_set_conv_nth)
    moreover have s: "size_t (n * 2) = n * 2" "n * 2 \<le> 2 ^ 63"
      using True assms(2) less.prems(2) by (simp_all add: size_t_def short_def)
    ultimately have "format_loop m out n = (if fits m (n * 2) then format_loop m out (n * 2) else Some None)"
      using less.prems(1) by (subst format_loop.simps) (simp add: Let_def)
    with less.hyps [of "n * 2"] less.prems(1) True s(2) show ?thesis by auto
  next
    case False
    then have t: "take (n - 1) out = out" by simp
    have "?buf ! (n - 2) = 0"
    proof (cases "n - 2 = length out")
      case True
      then show ?thesis by (simp add: vsnprintf_def t nth_append)
    next
      case ne: False
      with False have "length out < n - 2" by linarith
      then obtain k where k: "n - 2 = Suc (length out + k)" using less_imp_Suc_add by blast
      then show ?thesis using less.prems(1) by (simp add: vsnprintf_def t nth_append)
    qed
    then have "format_loop m out n = Some (Some ?buf)"
      using less.prems(1) by (subst format_loop.simps) (simp add: Let_def)
    then show ?thesis unfolding vsnprintf_def t by simp
  qed
qed

lemma sdscatprintf_ok:
  assumes "holds s t" "nul_free f" "nul_free out" "short (length f)" "short (length t + length out)"
  shows "results m (sdscatprintf m s (f @ 0 # r) out) (t @ out)"
proof -
  have f: "size_t (length f * 2) = length f * 2" "length f * 2 < 2 ^ 63" "length (f :: byte list) < 2 ^ 62"
    using assms(4) by (simp_all add: size_t_def short_def)
  have out: "short (length out)" using assms(5) by (rule short_mono) simp
  let ?p = "if length f * 2 > 1024 then if fits m (length f * 2) then format_loop m out (length f * 2) else Some None
    else format_loop m out 1024"
  have p: "(\<exists>buf. ?p = Some (Some buf) \<and> (\<exists>r. buf = out @ 0 # r)) \<or> ?p = Some None \<and> (\<exists>k. \<not> fits m k)"
    using format_loop_ok [OF assms(3) out, of "length f * 2" m] format_loop_ok [OF assms(3) out, of 1024 m] f(2) by auto
  have "sdscatprintf m s (f @ 0 # r) out =
      do { p \<leftarrow> ?p; case p of None \<Rightarrow> Some None | Some buf \<Rightarrow> sdscat m s buf }"
    using assms(2) by (simp add: sdscatprintf_def sdscatvprintf_def c_simps f(1) Let_def)
  moreover have "results m (do { p \<leftarrow> ?p; case p of None \<Rightarrow> Some None | Some buf \<Rightarrow> sdscat m s buf }) (t @ out)"
    by (rule results_bind [OF p]) (use sdscat_ok [OF assms(1,3,5)] in auto)
  ultimately show ?thesis by simp
qed

section \<open>The format loop\<close>

text \<open>The arguments by the type they are fetched with.\<close>

datatype fmt_arg =
    Chars "byte list" | Dynamic sds
  | Signed "32 word" | LongLong "64 word" | Unsigned "32 word" | UnsignedLongLong "64 word"

text \<open>A write at the position kept in an \<open>int\<close>.\<close>

definition poke_at :: "int \<Rightarrow> byte list \<Rightarrow> sds \<Rightarrow> sds option" where
  "poke_at i bs s = (if i < 0 then None else poke (nat i) bs s)"

definition int32 :: "int \<Rightarrow> int" where
  "int32 i = signed_take_bit 31 i"

definition fmt_put :: "allocator \<Rightarrow> sds \<times> int \<Rightarrow> byte list \<Rightarrow> nat \<Rightarrow> (sds \<times> int) option" where
  "fmt_put m si str l = (case si of (s, i) \<Rightarrow> do {
     p \<leftarrow> (if sdsavail s < l then sdsMakeRoomFor m s l else Some (Some s));
     s \<leftarrow> p;
     bs \<leftarrow> peek str l;
     s \<leftarrow> poke_at i bs s;
     Some (sdsinclen s l, int32 (i + int l)) })"

definition fmt_char :: "sds \<times> int \<Rightarrow> byte \<Rightarrow> (sds \<times> int) option" where
  "fmt_char si c = (case si of (s, i) \<Rightarrow>
     if i = 2 ^ 31 - 1 then None
     else do {
       s \<leftarrow> poke_at i [c] s;
       Some (sdsinclen s 1, i + 1) })"

text \<open>The text of an argument and its length, in memory. Fetching an argument of another type is undefined.\<close>

definition arg_chars :: "byte \<Rightarrow> fmt_arg \<Rightarrow> (byte list \<times> nat) option" where
  "arg_chars c a =
    (case a of
       Chars t \<Rightarrow> if c = 0x73 then do { u \<leftarrow> cstr t; Some (t, length u) } else None
     | Dynamic x \<Rightarrow> if c = 0x73 then do { u \<leftarrow> cstr (chars x); Some (chars x, length u) }
         else Some (chars x, sdslen x)
     | _ \<Rightarrow> None)"

definition arg_number :: "allocator \<Rightarrow> byte \<Rightarrow> fmt_arg \<Rightarrow> (nat \<times> byte list) option" where
  "arg_number m c a =
    (let buf = fresh m SDS_LLSTR_SIZE in
     case a of
       Signed w \<Rightarrow> if c = 0x69 then sdsll2str buf (scast w) else None
     | LongLong w \<Rightarrow> if c = 0x49 then sdsll2str buf w else None
     | Unsigned w \<Rightarrow> if c = 0x75 then sdsull2str buf (ucast w) else None
     | UnsignedLongLong w \<Rightarrow> if c = 0x55 then sdsull2str buf w else None
     | _ \<Rightarrow> None)"

fun fmt_spec :: "allocator \<Rightarrow> fmt_arg list \<Rightarrow> byte \<Rightarrow> sds \<times> int \<Rightarrow> (fmt_arg list \<times> sds \<times> int) option" where
  "fmt_spec m args c si =
    (if c = 0x73 \<or> c = 0x53 then
       case args of
         [] \<Rightarrow> None
       | a # args \<Rightarrow> do {
           (str, l) \<leftarrow> arg_chars c a;
           si \<leftarrow> fmt_put m si str l;
           Some (args, si) }
     else if c = 0x69 \<or> c = 0x49 \<or> c = 0x75 \<or> c = 0x55 then
       case args of
         [] \<Rightarrow> None
       | a # args \<Rightarrow> do {
           (l, buf) \<leftarrow> arg_number m c a;
           si \<leftarrow> fmt_put m si buf l;
           Some (args, si) }
     else do { si \<leftarrow> fmt_char si c; Some (args, si) })"

text \<open>The loop reads one byte beyond the current one in every round that does not end it.\<close>

definition fmt_room :: "allocator \<Rightarrow> sds \<times> int \<Rightarrow> (sds \<times> int) option" where
  "fmt_room m si = (case si of (s, i) \<Rightarrow> do {
     p \<leftarrow> (if sdsavail s = 0 then sdsMakeRoomFor m s 1 else Some (Some s));
     s \<leftarrow> p;
     Some (s, i) })"

fun fmt_loop :: "allocator \<Rightarrow> fmt_arg list \<Rightarrow> byte list \<Rightarrow> sds \<times> int \<Rightarrow> (sds \<times> int) option" where
  "fmt_loop m args [] si = None"
| "fmt_loop m args [c] si = (if c = 0 then Some si else None)"
| "fmt_loop m args (c # next # f) si =
    (if c = 0 then Some si
     else do {
       si \<leftarrow> fmt_room m si;
       if c = 0x25 then do {
         (args, si) \<leftarrow> fmt_spec m args next si;
         fmt_loop m args f si }
       else do {
         si \<leftarrow> fmt_char si c;
         fmt_loop m args (next # f) si } })"

definition sdscatfmt :: "allocator \<Rightarrow> sds \<Rightarrow> byte list \<Rightarrow> fmt_arg list \<Rightarrow> sds option" where
  "sdscatfmt m s fmt args = do {
     (s, i) \<leftarrow> fmt_loop m args fmt (s, int32 (int (sdslen s)));
     poke_at i [0] s }"

section \<open>What a format renders\<close>

definition arg_text :: "byte \<Rightarrow> fmt_arg \<Rightarrow> byte list option" where
  "arg_text c a =
    (case a of
       Chars t \<Rightarrow> if c = 0x73 then cstr t else None
     | Dynamic x \<Rightarrow> if \<not> sds_ok x then None else if c = 0x73 then cstr (chars x)
         else if c = 0x53 then Some (contents x) else None
     | Signed w \<Rightarrow> if c = 0x69 then Some (fmt_int (sint w)) else None
     | LongLong w \<Rightarrow> if c = 0x49 \<and> sint w \<noteq> - (2 ^ 63) then Some (fmt_int (sint w)) else None
     | Unsigned w \<Rightarrow> if c = 0x75 then Some (dec (unat w)) else None
     | UnsignedLongLong w \<Rightarrow> if c = 0x55 then Some (dec (unat w)) else None)"

definition spec_text :: "fmt_arg list \<Rightarrow> byte \<Rightarrow> (fmt_arg list \<times> byte list) option" where
  "spec_text args c =
    (if c \<in> {0x73, 0x53, 0x69, 0x49, 0x75, 0x55} then
       case args of [] \<Rightarrow> None | a # args \<Rightarrow> map_option (Pair args) (arg_text c a)
     else Some (args, [c]))"

text \<open>The arguments left and the text.\<close>

fun rendered :: "fmt_arg list \<Rightarrow> byte list \<Rightarrow> (fmt_arg list \<times> byte list) option" where
  "rendered args [] = Some (args, [])"
| "rendered args [c] = (if c = 0x25 then None else Some (args, [c]))"
| "rendered args (c # next # f) =
    (if c = 0x25 then do {
       (args, t) \<leftarrow> spec_text args next;
       (args, u) \<leftarrow> rendered args f;
       Some (args, t @ u) }
     else map_option (\<lambda>(args, u). (args, c # u)) (rendered args (next # f)))"

section \<open>The loop appends the rendering\<close>

definition fmt_ok :: "sds \<times> int \<Rightarrow> bool" where
  "fmt_ok si \<longleftrightarrow> sds_open (fst si) \<and> snd si = int (sdslen (fst si))"

definition fmt_contents :: "sds \<times> int \<Rightarrow> byte list" where
  "fmt_contents si = contents (fst si)"

lemma open_write:
  assumes "sds_open s" "sdslen s + length bs \<le> sdsalloc s"
  shows "\<exists>s'. poke (sdslen s) bs s = Some s' \<and> sds_open (sdsinclen s' (length bs)) \<and>
    contents (sdsinclen s' (length bs)) = contents s @ bs"
proof -
  let ?n = "sdslen s + length bs"
  define cs where "cs = take (sdslen s) (chars s) @ bs @ drop ?n (chars s)"
  note len = open_len [OF assms(1)]
  have "poke (sdslen s) bs s = Some (s\<lparr>chars := cs\<rparr>)" using assms(2) len by (simp add: poke_def cs_def)
  moreover have "sdsinclen (s\<lparr>chars := cs\<rparr>) (length bs) = (sdssetlen s ?n)\<lparr>chars := cs\<rparr>"
    using inclen_setlen [OF assms] by simp
  moreover have "length cs = length (chars s)" "take ?n cs = contents s @ bs"
    using assms(2) len by (simp_all add: cs_def contents_def)
  ultimately show ?thesis using setlen_open [OF assms, of cs] by simp
qed

lemma plenty_room:
  assumes "sds_open s" "short (sdslen s + n)"
  shows "\<exists>s'. (if sdsavail s < n then sdsMakeRoomFor (plenty j) s n else Some (Some s)) = Some (Some s') \<and>
    sds_open s' \<and> contents s' = contents s \<and> sdslen s + n \<le> sdsalloc s'"
  using make_room_open [OF assms, of "plenty j"] open_avail [OF assms(1)] open_len [OF assms(1)] assms(1)
  by (auto simp: plenty_def)

lemma int32_id: "n < 2 ^ 31 \<Longrightarrow> int32 (int n) = int n"
  by (simp add: int32_def signed_take_bit_int_eq_self)

lemma fmt_put_ok:
  assumes "fmt_ok si" "l \<le> length str" "length (fmt_contents si) + l < 2 ^ 31"
  shows "\<exists>si'. fmt_put (plenty j) si str l = Some si' \<and> fmt_ok si' \<and> fmt_contents si' = fmt_contents si @ take l str"
proof -
  obtain s where s: "si = (s, int (sdslen s))" "sds_open s" using assms(1) by (cases si) (auto simp: fmt_ok_def)
  have n: "length (contents s) = sdslen s" "sdslen s + l < 2 ^ 31"
    using open_len [OF s(2)] assms(3) s(1) by (auto simp: fmt_contents_def)
  have "short (sdslen s + l)" using n(2) by (simp add: short_def)
  from plenty_room [OF s(2) this, of j] obtain s1 where s1:
    "(if sdsavail s < l then sdsMakeRoomFor (plenty j) s l else Some (Some s)) = Some (Some s1)"
    "sds_open s1" "contents s1 = contents s" "sdslen s + l \<le> sdsalloc s1" by blast
  have l1: "sdslen s1 = sdslen s" using contents_same_len [OF s(2) s1(2,3)] .
  have tl: "length (take l str) = l" using assms(2) by simp
  from open_write [OF s1(2), of "take l str", unfolded tl l1] s1(4) obtain s2 where s2:
    "poke (sdslen s) (take l str) s1 = Some s2" "sds_open (sdsinclen s2 l)"
    "contents (sdsinclen s2 l) = contents s @ take l str" using s1(3) by auto
  have "sdslen (sdsinclen s2 l) = sdslen s + l" using open_len [OF s2(2)] s2(3) n(1) assms(2) by simp
  moreover have "int32 (int (sdslen s) + int l) = int (sdslen s + l)" using int32_id [OF n(2)] by simp
  ultimately have "fmt_put (plenty j) si str l = Some (sdsinclen s2 l, int (sdslen (sdsinclen s2 l)))"
    using s1(1) s2(1) assms(2) by (simp add: fmt_put_def s(1) peek_def poke_at_def)
  with s2 s(1) show ?thesis by (auto simp: fmt_ok_def fmt_contents_def)
qed

lemma fmt_room_ok:
  assumes "fmt_ok si" "length (fmt_contents si) < 2 ^ 31"
  shows "\<exists>si'. fmt_room (plenty j) si = Some si' \<and> fmt_ok si' \<and> fmt_contents si' = fmt_contents si \<and> sdsavail (fst si') > 0"
proof -
  obtain s where s: "si = (s, int (sdslen s))" "sds_open s" using assms(1) by (cases si) (auto simp: fmt_ok_def)
  have "short (sdslen s + 1)" using open_len [OF s(2)] assms(2) s(1) by (auto simp: fmt_contents_def short_def)
  from plenty_room [OF s(2) this, of j] obtain s1 where s1:
    "(if sdsavail s < 1 then sdsMakeRoomFor (plenty j) s 1 else Some (Some s)) = Some (Some s1)"
    "sds_open s1" "contents s1 = contents s" "sdslen s + 1 \<le> sdsalloc s1" by blast
  have l1: "sdslen s1 = sdslen s" using contents_same_len [OF s(2) s1(2,3)] .
  have "fmt_room (plenty j) si = Some (s1, int (sdslen s))" using s1(1) by (simp add: fmt_room_def s(1))
  with s1 s l1 open_avail [OF s1(2)] show ?thesis by (auto simp: fmt_ok_def fmt_contents_def)
qed

lemma fmt_char_ok:
  assumes "fmt_ok si" "sdsavail (fst si) > 0" "length (fmt_contents si) + 1 < 2 ^ 31"
  shows "\<exists>si'. fmt_char si c = Some si' \<and> fmt_ok si' \<and> fmt_contents si' = fmt_contents si @ [c]"
proof -
  obtain s where s: "si = (s, int (sdslen s))" "sds_open s" using assms(1) by (cases si) (auto simp: fmt_ok_def)
  have n: "length (contents s) = sdslen s" "sdslen s + 1 < 2 ^ 31"
    using open_len [OF s(2)] assms(3) s(1) by (auto simp: fmt_contents_def)
  have "sdslen s + 1 \<le> sdsalloc s" using open_avail [OF s(2)] assms(2) s(1) by simp
  from open_write [OF s(2), of "[c]"] this obtain s2 where s2:
    "poke (sdslen s) [c] s = Some s2" "sds_open (sdsinclen s2 1)" "contents (sdsinclen s2 1) = contents s @ [c]" by auto
  have "sdslen (sdsinclen s2 1) = sdslen s + 1" using open_len [OF s2(2)] s2(3) n(1) by simp
  with n(2) s2 have "fmt_char si c = Some (sdsinclen s2 1, int (sdslen (sdsinclen s2 1)))"
    by (simp add: fmt_char_def s(1) poke_at_def)
  with s2 s(1) show ?thesis by (auto simp: fmt_ok_def fmt_contents_def)
qed

lemma cstr_length: "cstr p = Some u \<Longrightarrow> length u \<le> length p \<and> take (length u) p = u"
  using cstr_split by fastforce

lemma arg_chars_text:
  assumes "arg_text c a = Some t" "c \<in> {0x73, 0x53}"
  shows "\<exists>str. arg_chars c a = Some (str, length t) \<and> length t \<le> length str \<and> take (length t) str = t"
proof (cases a)
  case (Chars p)
  with assms show ?thesis by (auto simp: arg_text_def arg_chars_def cstr_length split: if_splits)
next
  case (Dynamic x)
  have "sds_ok x \<Longrightarrow> sdslen x \<le> length (chars x)" using ok_len [of x] by simp
  with Dynamic assms show ?thesis
    by (auto simp: arg_text_def arg_chars_def cstr_length contents_def min_absorb2 split: if_splits)
qed (use assms in \<open>auto simp: arg_text_def split: if_splits\<close>)

lemma widen: "unat (ucast (w :: 32 word) :: 64 word) = unat w" "sint (scast w :: 64 word) = sint w"
  "sint w \<noteq> - (2 ^ 63)"
proof -
  have "unat w < 2 ^ 64" using unsigned_less [of w, where ?'a = nat] by simp
  then show "unat (ucast w :: 64 word) = unat w" by (simp add: unsigned_ucast_eq take_bit_nat_eq_self)
  show "sint (scast w :: 64 word) = sint w" by (simp add: sint_up_scast is_up)
  show "sint w \<noteq> - (2 ^ 63)" using sint_greater_eq [of w] by simp
qed

lemma arg_number_text:
  assumes "arg_text c a = Some t" "c \<in> {0x69, 0x49, 0x75, 0x55}"
  shows "\<exists>buf. arg_number m c a = Some (length t, buf) \<and> length t \<le> length buf \<and> take (length t) buf = t"
proof -
  let ?b = "fresh m SDS_LLSTR_SIZE"
  have n: "\<exists>buf. sdsull2str ?b v = Some (length (dec (unat v)), buf) \<and> length (dec (unat v)) \<le> length buf \<and>
      take (length (dec (unat v))) buf = dec (unat v)"
    "sint v \<noteq> - (2 ^ 63) \<Longrightarrow> \<exists>buf. sdsll2str ?b v = Some (length (fmt_int (sint v)), buf) \<and>
      length (fmt_int (sint v)) \<le> length buf \<and> take (length (fmt_int (sint v))) buf = fmt_int (sint v)" for v
    using local_buffer [where m = m and v = v] by simp_all
  show ?thesis
  proof (cases a)
    case (Signed w)
    with assms n(2) [of "scast w", unfolded widen, OF widen(3)] show ?thesis
      by (simp add: arg_text_def arg_number_def Let_def split: if_splits)
  next
    case (Unsigned w)
    with assms n(1) [of "ucast w"] show ?thesis
      by (simp add: arg_text_def arg_number_def Let_def widen split: if_splits)
  qed (use assms n in \<open>auto simp: arg_text_def arg_number_def Let_def split: if_splits\<close>)
qed

lemma fmt_spec_ok:
  assumes "spec_text args c = Some (args', t)" "fmt_ok si" "sdsavail (fst si) > 0"
    "length (fmt_contents si) + length t < 2 ^ 31"
  shows "\<exists>si'. fmt_spec (plenty j) args c si = Some (args', si') \<and> fmt_ok si' \<and> fmt_contents si' = fmt_contents si @ t"
proof (cases "c \<in> {0x73, 0x53, 0x69, 0x49, 0x75, 0x55}")
  case True
  with assms(1) obtain a where a: "args = a # args'" "arg_text c a = Some t"
    by (auto simp: spec_text_def split: list.splits)
  show ?thesis
  proof (cases "c \<in> {0x73, 0x53}")
    case True
    from arg_chars_text [OF a(2) True] obtain str
      where str: "arg_chars c a = Some (str, length t)" "length t \<le> length str" "take (length t) str = t" by blast
    from fmt_put_ok [OF assms(2) str(2) assms(4), of j] str a(1) True show ?thesis by auto
  next
    case False
    with True have c: "c \<in> {0x69, 0x49, 0x75, 0x55}" by auto
    from arg_number_text [OF a(2) c, of "plenty j"] obtain buf
      where buf: "arg_number (plenty j) c a = Some (length t, buf)" "length t \<le> length buf" "take (length t) buf = t" by blast
    from fmt_put_ok [OF assms(2) buf(2) assms(4), of j] buf a(1) c show ?thesis by auto
  qed
next
  case False
  with assms(1) have t: "t = [c]" "args' = args" by (auto simp: spec_text_def)
  with fmt_char_ok [OF assms(2,3), of c] assms(4) False show ?thesis by auto
qed

lemma fmt_loop_rendered:
  assumes "rendered args f = Some (args', t)" "nul_free f" "fmt_ok si" "length (fmt_contents si) + length t < 2 ^ 31"
  shows "\<exists>si'. fmt_loop (plenty j) args (f @ x # r) si = fmt_loop (plenty j) args' (x # r) si' \<and>
    fmt_ok si' \<and> fmt_contents si' = fmt_contents si @ t"
  using assms
proof (induction args f arbitrary: t si rule: rendered.induct)
  case (1 args)
  then show ?case by (cases si) auto
next
  case (2 args c)
  then have c: "c \<noteq> 0x25" "args' = args" "t = [c]" "c \<noteq> 0" by (auto split: if_splits)
  from fmt_room_ok [OF 2(3), of j] 2(4) obtain si1 where si1: "fmt_room (plenty j) si = Some si1" "fmt_ok si1"
    "fmt_contents si1 = fmt_contents si" "sdsavail (fst si1) > 0" by auto
  from fmt_char_ok [OF si1(2,4), of c] 2(4) c si1(3) obtain si2
    where si2: "fmt_char si1 c = Some si2" "fmt_ok si2" "fmt_contents si2 = fmt_contents si @ [c]" by auto
  with c si1 show ?case by (intro exI [of _ si2]) simp
next
  case (3 args c n f)
  have c: "c \<noteq> 0" "nul_free f" "nul_free (n # f)" using 3(4) by simp_all
  from fmt_room_ok [OF 3(5), of j] 3(6) obtain si1 where si1: "fmt_room (plenty j) si = Some si1" "fmt_ok si1"
    "fmt_contents si1 = fmt_contents si" "sdsavail (fst si1) > 0" by auto
  show ?case
  proof (cases "c = 0x25")
    case True
    with 3(3) obtain args1 t1 t2 where sp: "spec_text args n = Some (args1, t1)" "rendered args1 f = Some (args', t2)"
      "t = t1 @ t2" by (auto simp: bind_eq_Some_conv)
    from fmt_spec_ok [OF sp(1) si1(2,4), of j] 3(6) sp(3) si1(3) obtain si2
      where si2: "fmt_spec (plenty j) args n si1 = Some (args1, si2)" "fmt_ok si2" "fmt_contents si2 = fmt_contents si @ t1"
      by auto
    from 3(1) [OF True sp(1) refl sp(2) c(2) si2(2)] 3(6) sp(3) si2(3) obtain si3
      where "fmt_loop (plenty j) args1 (f @ x # r) si2 = fmt_loop (plenty j) args' (x # r) si3" "fmt_ok si3"
      "fmt_contents si3 = fmt_contents si2 @ t2" by auto
    with True c si1 si2 sp(3) show ?thesis by (intro exI [of _ si3]) (simp del: fmt_spec.simps)
  next
    case False
    with 3(3) obtain t2 where t: "rendered args (n # f) = Some (args', t2)" "t = c # t2" by auto
    from fmt_char_ok [OF si1(2,4), of c] 3(6) t(2) si1(3) obtain si2
      where si2: "fmt_char si1 c = Some si2" "fmt_ok si2" "fmt_contents si2 = fmt_contents si @ [c]" by auto
    from 3(2) [OF False t(1) c(3) si2(2)] 3(6) t(2) si2(3) obtain si3
      where "fmt_loop (plenty j) args ((n # f) @ x # r) si2 = fmt_loop (plenty j) args' (x # r) si3" "fmt_ok si3"
      "fmt_contents si3 = fmt_contents si2 @ t2" by auto
    with False c si1 si2 t(2) show ?thesis by (intro exI [of _ si3]) simp
  qed
qed

lemma fmt_loop_end: "fmt_loop m args (0 # r) si = Some si"
  by (cases r) simp_all

lemma catfmt_start: "sds_ok s \<Longrightarrow> sdslen s < 2 ^ 31 \<Longrightarrow>
    fmt_ok (s, int32 (int (sdslen s))) \<and> fmt_contents (s, int32 (int (sdslen s))) = contents s"
  by (simp add: fmt_ok_def fmt_contents_def sds_ok_def int32_id)

lemma sdscatfmt_ok:
  assumes "holds s t" "rendered args f = Some (args', u)" "nul_free f" "length t + length u < 2 ^ 31"
  shows "\<exists>s'. sdscatfmt (plenty j) s (f @ 0 # r) args = Some s' \<and> holds s' (t @ u)"
proof -
  have s: "sds_ok s" "contents s = t" "sdslen s < 2 ^ 31" using assms(1,4) holds_len by (auto simp: holds_def)
  from fmt_loop_rendered [OF assms(2,3), of "(s, int32 (int (sdslen s)))" j 0 r] catfmt_start [OF s(1,3)] s(2) assms(4)
  obtain si where si: "fmt_loop (plenty j) args (f @ 0 # r) (s, int32 (int (sdslen s))) = Some si" "fmt_ok si"
    "fmt_contents si = t @ u" by (auto simp: fmt_loop_end)
  then obtain s1 where s1: "si = (s1, int (sdslen s1))" "sds_open s1" "contents s1 = t @ u"
    by (cases si) (auto simp: fmt_ok_def fmt_contents_def)
  note len = open_len [OF s1(2)]
  define cs where "cs = (chars s1)[sdslen s1 := 0]"
  have "poke (sdslen s1) [0] s1 = Some (s1\<lparr>chars := cs\<rparr>)"
    using len by (simp add: poke_def cs_def upd_conv_take_nth_drop)
  moreover have "holds (s1\<lparr>chars := cs\<rparr>) (t @ u)"
    using s1(2,3) len by (auto simp: holds_def sds_ok_def sds_open_def contents_def cs_def sdsalloc_def)
  ultimately show ?thesis by (simp add: sdscatfmt_def si(1) s1(1) poke_at_def)
qed

text \<open>A format that ends in a percent sign is read past its terminator.\<close>

lemma sdscatfmt_trailing_percent:
  assumes "holds s t" "rendered args f = Some (args', u)" "nul_free f" "length t + length u < 2 ^ 31"
  shows "sdscatfmt (plenty j) s (f @ [0x25, 0]) args = None"
proof -
  have s: "sds_ok s" "contents s = t" "sdslen s < 2 ^ 31" using assms(1,4) holds_len by (auto simp: holds_def)
  have "fmt_loop (plenty j) args (f @ [0x25, 0]) (s, int32 (int (sdslen s))) = None"
    using fmt_loop_rendered [OF assms(2,3), of "(s, int32 (int (sdslen s)))" j "0x25" "[0]"] catfmt_start [OF s(1,3)] s(2) assms(4)
    by (auto split: option.splits)
  then show ?thesis by (simp add: sdscatfmt_def)
qed

end
