(* ===== verification/SdsArgs.thy ===== *)
theory SdsArgs
  imports SdsFormat
begin

text \<open>
  Quoting and splitting (\<open>sds.c\<close>): \<open>sdscatrepr\<close> appends the quoted form of a byte string and
  \<open>sdssplitargs\<close> splits a line into arguments. The splitter never reads past the terminator of the
  line, and it gives back the strings whose quoted forms make up the line.
\<close>

section \<open>Quoting\<close>

text \<open>The character classes of the C locale.\<close>

definition isprint :: "byte \<Rightarrow> bool" where
  "isprint c \<longleftrightarrow> 0x20 \<le> c \<and> c \<le> 0x7E"

definition isspace :: "byte \<Rightarrow> bool" where
  "isspace c \<longleftrightarrow> c = 0x20 \<or> 0x09 \<le> c \<and> c \<le> 0x0D"

text \<open>A digit of the conversion \<open>%02x\<close>.\<close>

definition lower_hex :: "nat \<Rightarrow> byte" where
  "lower_hex n = (if n < 10 then 0x30 + of_nat n else 0x57 + of_nat n)"

definition repr_char :: "allocator \<Rightarrow> sds \<Rightarrow> byte \<Rightarrow> sds_ptr option" where
  "repr_char m s c =
    (if c = 0x5C \<or> c = 0x22 then sdscatprintf m s [0x5C, 0x25, 0x63, 0] [0x5C, c]
     else if c = 0x0A then sdscatlen m s [0x5C, 0x6E] 2
     else if c = 0x0D then sdscatlen m s [0x5C, 0x72] 2
     else if c = 0x09 then sdscatlen m s [0x5C, 0x74] 2
     else if c = 0x07 then sdscatlen m s [0x5C, 0x61] 2
     else if c = 0x08 then sdscatlen m s [0x5C, 0x62] 2
     else if isprint c then sdscatprintf m s [0x25, 0x63, 0] [c]
     else sdscatprintf m s [0x5C, 0x78, 0x25, 0x30, 0x32, 0x78, 0]
       [0x5C, 0x78, lower_hex (unat c div 16), lower_hex (unat c mod 16)])"

fun repr_loop :: "allocator \<Rightarrow> sds_ptr \<Rightarrow> byte list \<Rightarrow> nat \<Rightarrow> sds_ptr option" where
  "repr_loop m s p 0 = Some s"
| "repr_loop m s [] (Suc len) = None"
| "repr_loop m s (c # p) (Suc len) = do { s \<leftarrow> through s (\<lambda>s. repr_char m s c); repr_loop m s p len }"

definition sdscatrepr :: "allocator \<Rightarrow> sds \<Rightarrow> byte list \<Rightarrow> nat \<Rightarrow> sds_ptr option" where
  "sdscatrepr m s p len = do {
     s \<leftarrow> sdscatlen m s [0x22] 1;
     s \<leftarrow> repr_loop m s p len;
     through s (\<lambda>s. sdscatlen m s [0x22] 1) }"

section \<open>Splitting a line\<close>

definition is_hex_digit :: "byte \<Rightarrow> bool" where
  "is_hex_digit c \<longleftrightarrow> 0x30 \<le> c \<and> c \<le> 0x39 \<or> 0x61 \<le> c \<and> c \<le> 0x66 \<or> 0x41 \<le> c \<and> c \<le> 0x46"

definition hex_digit_to_int :: "byte \<Rightarrow> nat" where
  "hex_digit_to_int c =
    (if 0x30 \<le> c \<and> c \<le> 0x39 then unat c - 0x30
     else if c = 0x61 \<or> c = 0x41 then 10
     else if c = 0x62 \<or> c = 0x42 then 11
     else if c = 0x63 \<or> c = 0x43 then 12
     else if c = 0x64 \<or> c = 0x44 then 13
     else if c = 0x65 \<or> c = 0x45 then 14
     else if c = 0x66 \<or> c = 0x46 then 15
     else 0)"

text \<open>The byte of a hexadecimal escape at the pointer, if there is one.\<close>

definition hex_escape :: "byte list \<Rightarrow> byte option option" where
  "hex_escape p = do {
     c \<leftarrow> deref p;
     if c \<noteq> 0x5C then Some None
     else do {
       x \<leftarrow> deref (drop 1 p);
       if x \<noteq> 0x78 then Some None
       else do {
         h \<leftarrow> deref (drop 2 p);
         if \<not> is_hex_digit h then Some None
         else do {
           l \<leftarrow> deref (drop 3 p);
           if \<not> is_hex_digit l then Some None
           else Some (Some (of_nat (hex_digit_to_int h * 16 + hex_digit_to_int l))) } } } }"

definition unescape :: "byte \<Rightarrow> byte" where
  "unescape c =
    (if c = 0x6E then 0x0A else if c = 0x72 then 0x0D else if c = 0x74 then 0x09
     else if c = 0x62 then 0x08 else if c = 0x61 then 0x07 else c)"

text \<open>A closing quote is followed by a blank or the end of the line.\<close>

definition quote_closed :: "byte list \<Rightarrow> bool option" where
  "quote_closed p = do { c \<leftarrow> deref p; Some (c = 0 \<or> isspace c) }"

datatype 'c token = Token (current: 'c) (rest: "byte list") | Unbalanced

text \<open>One token, built up with the given append operation.\<close>

fun token_loop :: "('c \<Rightarrow> byte \<Rightarrow> 'c option) \<Rightarrow> bool \<Rightarrow> bool \<Rightarrow> 'c \<Rightarrow> byte list \<Rightarrow> 'c token option" where
  "token_loop cat inq insq cur [] = None"
| "token_loop cat inq insq cur (c # p) =
    (if inq then do {
       h \<leftarrow> hex_escape (c # p);
       case h of
         Some byte \<Rightarrow> do { cur \<leftarrow> cat cur byte; token_loop cat inq insq cur (drop 3 p) }
       | None \<Rightarrow> do {
           escape \<leftarrow> (if c = 0x5C then do { d \<leftarrow> deref p; Some (d \<noteq> 0) } else Some False);
           if escape then do { cur \<leftarrow> cat cur (unescape (hd p)); token_loop cat inq insq cur (tl p) }
           else if c = 0x22 then do { ok \<leftarrow> quote_closed p; Some (if ok then Token cur p else Unbalanced) }
           else if c = 0 then Some Unbalanced
           else do { cur \<leftarrow> cat cur c; token_loop cat inq insq cur p } } }
     else if insq then do {
       escape \<leftarrow> (if c = 0x5C then do { d \<leftarrow> deref p; Some (d = 0x27) } else Some False);
       if escape then do { cur \<leftarrow> cat cur 0x27; token_loop cat inq insq cur (tl p) }
       else if c = 0x27 then do { ok \<leftarrow> quote_closed p; Some (if ok then Token cur p else Unbalanced) }
       else if c = 0 then Some Unbalanced
       else do { cur \<leftarrow> cat cur c; token_loop cat inq insq cur p } }
     else if c = 0x20 \<or> c = 0x0A \<or> c = 0x0D \<or> c = 0x09 \<or> c = 0 then
       Some (Token cur (if c \<noteq> 0 then p else c # p))
     else if c = 0x22 then token_loop cat True insq cur p
     else if c = 0x27 then token_loop cat inq True cur p
     else do { cur \<leftarrow> cat cur c; token_loop cat inq insq cur p })"

declare token_loop.simps(2) [simp del]

fun skip_blanks :: "byte list \<Rightarrow> byte list option" where
  "skip_blanks [] = None"
| "skip_blanks (c # p) = (if c \<noteq> 0 \<and> isspace c then skip_blanks p else Some (c # p))"

lemma skip_blanks_length: "skip_blanks p = Some q \<Longrightarrow> length q \<le> length p"
  by (induction p) (auto split: if_splits)

lemma token_loop_length:
  "token_loop cat inq insq cur p = Some (Token cur' p') \<Longrightarrow>
    length p' \<le> length p \<and> (deref p \<noteq> Some 0 \<longrightarrow> length p' < length p)"
proof (induction "length p" arbitrary: inq insq cur p rule: less_induct)
  case less
  have IH: "length p' < length p"
    if "token_loop cat inq insq cur q = Some (Token cur' p')" "length q < length p" for inq insq cur q
    using less.hyps [OF that(2,1)] that(2) by simp
  show ?case
  proof (cases p)
    case (Cons c ps)
    with less.prems show ?thesis
      by (auto simp: token_loop.simps(2) bind_eq_Some_conv Cons dest!: IH split: if_splits option.splits)
  qed (use less.prems in simp)
qed

text \<open>The arguments, with the allocations and the append operation left open.\<close>

function split_loop :: "(nat \<Rightarrow> bool) \<Rightarrow> 'c option \<Rightarrow> ('c \<Rightarrow> byte \<Rightarrow> 'c option) \<Rightarrow> 'c list \<Rightarrow> byte list \<Rightarrow>
    'c list option option" where
  "split_loop allocs new cat vector p = do {
     p \<leftarrow> skip_blanks p;
     c \<leftarrow> deref p;
     if c \<noteq> 0 then do {
       cur \<leftarrow> new;
       t \<leftarrow> token_loop cat False False cur p;
       case t of
         Unbalanced \<Rightarrow> Some None
       | Token cur p \<Rightarrow>
           if allocs (size_t ((length vector + 1) * 8)) then split_loop allocs new cat (vector @ [cur]) p else None }
     else if vector = [] \<and> \<not> allocs 8 then Some None
     else Some (Some vector) }"
  by pat_completeness auto
termination
  by (relation "measure (\<lambda>(allocs, new, cat, vector, p). length p)")
    (auto dest!: skip_blanks_length token_loop_length)

declare split_loop.simps [simp del]

definition sdssplitargs :: "allocator \<Rightarrow> byte list \<Rightarrow> sds_ptr list option option" where
  "sdssplitargs m line =
    split_loop (fits m) (sdsempty m) (\<lambda>cur c. through cur (\<lambda>s. sdscatlen m s [c] 1)) [] line"

section \<open>The arguments of a line\<close>

text \<open>The same tokens on plain byte lists.\<close>

definition snoc :: "byte list \<Rightarrow> byte \<Rightarrow> byte list option" where
  "snoc t c = Some (t @ [c])"

definition args_of :: "byte list \<Rightarrow> byte list list option option" where
  "args_of line = split_loop (\<lambda>_. True) (Some []) snoc [] line"

text \<open>Whatever appends bytes to its contents builds the same tokens.\<close>

lemma rel_if: "(b \<Longrightarrow> rel_option R x y) \<Longrightarrow> (\<not> b \<Longrightarrow> rel_option R x' y') \<Longrightarrow>
    rel_option R (if b then x else x') (if b then y else y')"
  by simp

lemma rel_same_bind: "(\<And>x. h = Some x \<Longrightarrow> rel_option R (f x) (g x)) \<Longrightarrow> rel_option R (do { x \<leftarrow> h; f x }) (do { x \<leftarrow> h; g x })"
  by (cases h) simp_all

lemma rel_same_case: "(h = None \<Longrightarrow> rel_option R x y) \<Longrightarrow> (\<And>z. h = Some z \<Longrightarrow> rel_option R (f z) (g z)) \<Longrightarrow>
    rel_option R (case h of None \<Rightarrow> x | Some z \<Rightarrow> f z) (case h of None \<Rightarrow> y | Some z \<Rightarrow> g z)"
  by (cases h) simp_all

context bounded_sink begin

definition builds :: "'s \<Rightarrow> byte list \<Rightarrow> bool" where
  "builds cur t \<longleftrightarrow> ok cur \<and> contents cur = t"

lemma put_builds:
  assumes "ok cur" "room (length (contents cur) + Suc n)"
  shows "\<exists>cur'. put cur [c] = Some cur' \<and> ok cur' \<and> contents cur' = contents cur @ [c] \<and>
    room (length (contents cur') + n)"
  using put_room [OF assms(1), of "[c]"] room_mono [OF assms(2)] by fastforce

lemma token_builds:
  "ok cur \<Longrightarrow> room (length (contents cur) + length p) \<Longrightarrow>
    rel_option (rel_token builds) (token_loop (\<lambda>cur c. put cur [c]) inq insq cur p) (token_loop snoc inq insq (contents cur) p)"
proof (induction "length p" arbitrary: inq insq cur p rule: less_induct)
  case less
  show ?case
  proof (cases p)
    case (Cons c ps)
    have IH: "rel_option (rel_token builds) (token_loop (\<lambda>cur c. put cur [c]) a b cur q) (token_loop snoc a b (contents cur) q)"
      if "length q \<le> length ps" for a b q
      using less.hyps [of q cur a b] less.prems(1) room_mono [OF less.prems(2), of "length (contents cur) + length q"] that
      by (simp add: Cons)
    have put: "rel_option (rel_token builds) (do { cur \<leftarrow> put cur [d]; token_loop (\<lambda>cur c. put cur [c]) a b cur q })
        (do { t \<leftarrow> snoc (contents cur) d; token_loop snoc a b t q })"
      if "length q \<le> length ps" for a b d q
    proof -
      from put_builds [OF less.prems(1), of "length ps" d] less.prems(2) obtain cur'
        where c: "put cur [d] = Some cur'" "ok cur'" "contents cur' = contents cur @ [d]"
          "room (length (contents cur') + length ps)" by (auto simp: Cons)
      with less.hyps [of q cur' a b] that room_mono [OF c(4), of "length (contents cur') + length q"] show ?thesis
        by (simp add: Cons snoc_def)
    qed
    have fin: "rel_option (rel_token builds) (Some (Token cur q)) (Some (Token (contents cur) q))" for q
      using less.prems(1) by (simp add: builds_def)
    show ?thesis
      unfolding Cons token_loop.simps(2)
      by (intro rel_if rel_same_bind rel_same_case put IH fin) (simp_all add: builds_def less.prems(1))
  qed simp
qed

lemma split_builds:
  "ok c0 \<Longrightarrow> contents c0 = [] \<Longrightarrow> room (length p) \<Longrightarrow> list_all2 builds v w \<Longrightarrow>
    rel_option (rel_option (list_all2 builds)) (split_loop (\<lambda>_. True) (Some c0) (\<lambda>cur c. put cur [c]) v p)
      (split_loop (\<lambda>_. True) (Some []) snoc w p)"
proof (induction "length p" arbitrary: v w p rule: less_induct)
  case less
  show ?case
  proof (cases "skip_blanks p")
    case None
    then show ?thesis by (simp add: split_loop.simps)
  next
    case (Some q)
    note q = skip_blanks_length [OF Some]
    have tok: "rel_option (rel_token builds) (token_loop (\<lambda>cur c. put cur [c]) False False c0 q) (token_loop snoc False False [] q)"
      using token_builds [of c0 q False False] less.prems(1-3) q room_mono by auto
    have rec: "rel_option (rel_option (list_all2 builds)) (split_loop (\<lambda>_. True) (Some c0) (\<lambda>cur c. put cur [c]) (v @ [cur]) r)
        (split_loop (\<lambda>_. True) (Some []) snoc (w @ [t]) r)"
      if "length r < length q" "builds cur t" for r cur t
      using that q less.prems room_mono [OF less.prems(3), of "length r"]
      by (intro less.hyps) (auto intro: list_all2_appendI)
    show ?thesis
    proof (cases "deref q = Some 0 \<or> deref q = None")
      case True
      with Some less.prems(4) show ?thesis by (auto simp: split_loop.simps)
    next
      case False
      from tok show ?thesis
      proof (cases rule: option.rel_cases)
        case None
        with Some False show ?thesis by (auto simp: split_loop.simps [of _ _ _ _ p])
      next
        case (Some x y)
        from Some(3) show ?thesis
        proof (cases rule: token.rel_cases)
          case (Token cur r t r')
          with token_loop_length [of "\<lambda>cur c. put cur [c]" False False c0 q cur r] Some False
          have "length r < length q" by auto
          from rec [OF this] Token Some False \<open>skip_blanks p = Some q\<close> show ?thesis
            by (auto simp: split_loop.simps [of _ _ _ _ p])
        next
          case Unbalanced
          with Some False \<open>skip_blanks p = Some q\<close> show ?thesis by (auto simp: split_loop.simps [of _ _ _ _ p])
        qed
      qed
    qed
  qed
qed

end

text \<open>Appending through a pointer.\<close>

definition ptr_put :: "(nat \<Rightarrow> byte) \<Rightarrow> sds_ptr \<Rightarrow> byte list \<Rightarrow> sds_ptr option" where
  "ptr_put j p bs = through p (\<lambda>s. sdscatlen (plenty j) s bs (length bs))"

definition ptr_contents :: "sds_ptr \<Rightarrow> byte list" where
  "ptr_contents p = (case p of None \<Rightarrow> [] | Some s \<Rightarrow> contents s)"

definition ptr_ok :: "sds_ptr \<Rightarrow> bool" where
  "ptr_ok p \<longleftrightarrow> (case p of None \<Rightarrow> False | Some s \<Rightarrow> sds_ok s)"

interpretation ptr_sink: bounded_sink "ptr_put j" ptr_contents ptr_ok short for j
proof unfold_locales
  show "short n \<Longrightarrow> k \<le> n \<Longrightarrow> short k" for n k by (rule short_mono)
  fix p and bs :: "byte list" assume "ptr_ok p" "short (length (ptr_contents p) + length bs)"
  then obtain s where "p = Some s" "sds_ok s" "short (length (contents s) + length bs)"
    by (auto simp: ptr_ok_def ptr_contents_def split: option.splits)
  with sdscatlen_ok [of s "contents s" "length bs" bs "plenty j"]
  show "\<exists>p'. ptr_put j p bs = Some p' \<and> ptr_ok p' \<and> ptr_contents p' = ptr_contents p @ bs"
    by (auto simp: ptr_put_def ptr_ok_def ptr_contents_def plenty_results holds_def)
qed

definition points_to :: "sds_ptr \<Rightarrow> byte list \<Rightarrow> bool" where
  "points_to p t \<longleftrightarrow> (\<exists>s. p = Some s \<and> holds s t)"

lemma splitargs_refines:
  assumes "short (length line)"
  shows "rel_option (rel_option (list_all2 points_to)) (sdssplitargs (plenty j) line) (args_of line)"
proof -
  obtain s where s: "sdsempty (plenty j) = Some (Some s)" "holds s []"
    using sdsempty_ok [of "plenty j"] by (auto simp: plenty_results)
  then have "ptr_ok (Some s)" "ptr_contents (Some s) = []" by (simp_all add: ptr_ok_def ptr_contents_def holds_def)
  from ptr_sink.split_builds [OF this assms, of "[]" "[]" j] s(1)
  have "rel_option (rel_option (list_all2 ptr_sink.builds)) (sdssplitargs (plenty j) line) (args_of line)"
    by (simp add: sdssplitargs_def args_of_def ptr_put_def plenty_def)
  moreover have "ptr_sink.builds = points_to"
    by (auto simp: fun_eq_iff ptr_sink.builds_def points_to_def ptr_ok_def ptr_contents_def holds_def split: option.splits)
  ultimately show ?thesis by simp
qed

section \<open>Lines end at their terminator\<close>

lemma hex_escape_defined:
  "0 \<in> set p \<Longrightarrow> \<exists>h. hex_escape p = Some h \<and> (h \<noteq> None \<longrightarrow> 0 \<in> set (drop 4 p))"
proof -
  assume p: "0 \<in> set p"
  have z: "\<not> is_hex_digit 0" by (simp add: is_hex_digit_def)
  obtain a p1 where 1: "p = a # p1" using p by (cases p) auto
  show ?thesis
  proof (cases "a = 0x5C")
    case True
    with p 1 obtain b p2 where 2: "p1 = b # p2" "b = 0x78 \<longrightarrow> 0 \<in> set p2" by (cases p1) auto
    show ?thesis
    proof (cases "b = 0x78")
      case True
      with 2 obtain c p3 where 3: "p2 = c # p3" "c \<noteq> 0 \<longrightarrow> 0 \<in> set p3" by (cases p2) auto
      show ?thesis
      proof (cases "is_hex_digit c")
        case True
        with z 3(2) obtain d p4 where 4: "p3 = d # p4" "d \<noteq> 0 \<longrightarrow> 0 \<in> set p4" by (cases p3) auto
        with 1 2 3 z show ?thesis by (cases "is_hex_digit d") (auto simp: hex_escape_def numeral_eq_Suc)
      qed (simp add: 1 2 3 hex_escape_def numeral_eq_Suc)
    qed (simp add: 1 2 hex_escape_def)
  qed (simp add: 1 hex_escape_def)
qed

lemma deref_terminated: "0 \<in> set p \<Longrightarrow> \<exists>c. deref p = Some c \<and> (c \<noteq> 0 \<longrightarrow> 0 \<in> set (tl p)) \<and> hd p = c"
  by (cases p) auto

lemma token_defined:
  "0 \<in> set p \<Longrightarrow> \<exists>r. token_loop snoc inq insq t p = Some r \<and> (case r of Token t' q \<Rightarrow> 0 \<in> set q | Unbalanced \<Rightarrow> True)"
proof (induction "length p" arbitrary: inq insq t p rule: less_induct)
  case less
  obtain c ps where p: "p = c # ps" using less.prems by (cases p) auto
  have IH: "\<exists>r. token_loop snoc a b u q = Some r \<and> (case r of Token t' q \<Rightarrow> 0 \<in> set q | Unbalanced \<Rightarrow> True)"
    if "length q \<le> length ps" "0 \<in> set q" for a b u q
    using less.hyps [of q a b u] that p by simp
  have ps: "c \<noteq> 0 \<Longrightarrow> 0 \<in> set ps" using less.prems p by auto
  obtain h where h: "hex_escape (c # ps) = Some h" "h \<noteq> None \<Longrightarrow> 0 \<in> set (drop 3 ps)"
    using hex_escape_defined [OF less.prems] p by (auto simp: numeral_eq_Suc)
  show ?case
  proof (cases "c = 0")
    case True
    with h p less.prems show ?thesis by (auto simp: token_loop.simps(2) hex_escape_def)
  next
    case False
    obtain d where d: "deref ps = Some d" "d \<noteq> 0 \<longrightarrow> 0 \<in> set (tl ps)" "hd ps = d"
      using deref_terminated [OF ps [OF False]] by auto
    show ?thesis
      using False h d ps [OF False] unfolding p token_loop.simps(2)
      by (auto simp: snoc_def quote_closed_def intro!: IH split: option.splits)
  qed
qed

lemma skip_blanks_defined: "0 \<in> set p \<Longrightarrow> \<exists>q. skip_blanks p = Some q \<and> 0 \<in> set q"
  by (induction p) auto

lemma args_of_defined:
  assumes "0 \<in> set line"
  shows "\<exists>r. args_of line = Some r"
proof -
  have "0 \<in> set p \<Longrightarrow> \<exists>r. split_loop (\<lambda>_. True) (Some []) snoc v p = Some r" for v and p :: "byte list"
  proof (induction "length p" arbitrary: v p rule: less_induct)
    case less
    obtain q where q: "skip_blanks p = Some q" "0 \<in> set q" using skip_blanks_defined [OF less.prems] by auto
    obtain c where c: "deref q = Some c" using deref_terminated [OF q(2)] by auto
    obtain r where r: "token_loop snoc False False [] q = Some r" "case r of Token t' q \<Rightarrow> 0 \<in> set q | Unbalanced \<Rightarrow> True"
      using token_defined [OF q(2), of False False "[]"] by auto
    show ?case
    proof (cases "c \<noteq> 0 \<and> r \<noteq> Unbalanced")
      case False
      with q c r show ?thesis by (auto simp: split_loop.simps [of _ _ _ _ p] split: token.splits)
    next
      case True
      then obtain t q' where t: "r = Token t q'" by (cases r) auto
      have "length q' < length p"
        using token_loop_length [of snoc False False "[]" q t q'] skip_blanks_length [OF q(1)] r t c True by simp
      with less.hyps [of q' "v @ [t]"] r t obtain r' where "split_loop (\<lambda>_. True) (Some []) snoc (v @ [t]) q' = Some r'" by auto
      with q c r t True show ?thesis by (auto simp: split_loop.simps [of _ _ _ _ p])
    qed
  qed
  then show ?thesis using assms by (simp add: args_of_def)
qed

section \<open>Quoted forms\<close>

definition repr_of :: "byte \<Rightarrow> byte list" where
  "repr_of c =
    (if c = 0x5C \<or> c = 0x22 then [0x5C, c]
     else if c = 0x0A then [0x5C, 0x6E] else if c = 0x0D then [0x5C, 0x72] else if c = 0x09 then [0x5C, 0x74]
     else if c = 0x07 then [0x5C, 0x61] else if c = 0x08 then [0x5C, 0x62]
     else if isprint c then [c]
     else [0x5C, 0x78, lower_hex (unat c div 16), lower_hex (unat c mod 16)])"

definition quoted :: "byte list \<Rightarrow> byte list" where
  "quoted t = 0x22 # concat (map repr_of t) @ [0x22]"

lemma lower_hex: "n < 16 \<Longrightarrow> is_hex_digit (lower_hex n) \<and> hex_digit_to_int (lower_hex n) = n \<and> lower_hex n \<noteq> 0"
proof -
  have "\<forall>n \<in> set [0..<16]. is_hex_digit (lower_hex n) \<and> hex_digit_to_int (lower_hex n) = n \<and> lower_hex n \<noteq> 0"
    by code_simp
  then show "n < 16 \<Longrightarrow> ?thesis" by simp
qed

lemma hex_value: "of_nat (unat c div 16 * 16 + unat c mod 16) = (c :: byte)"
  by simp

lemma token_repr:
  "token_loop snoc True False t (repr_of c @ p) = token_loop snoc True False (t @ [c]) p"
proof -
  have h: "unat c div 16 < 16" "unat c mod 16 < 16" using unsigned_less [of c, where ?'a = nat] by simp_all
  show ?thesis
    using lower_hex [OF h(1)] lower_hex [OF h(2)]
    by (simp add: repr_of_def token_loop.simps(2) hex_escape_def snoc_def unescape_def isprint_def)
qed

lemma token_quoted:
  assumes "d = 0 \<or> isspace d"
  shows "token_loop snoc False False [] (quoted t @ d # p) = Some (Token t (d # p))"
proof -
  have "token_loop snoc True False u (concat (map repr_of t) @ 0x22 # d # p) = Some (Token (u @ t) (d # p))" for u
  proof (induction t arbitrary: u)
    case Nil
    show ?case using assms by (simp add: token_loop.simps(2) hex_escape_def quote_closed_def)
  next
    case (Cons c t)
    show ?case using Cons.IH [of "u @ [c]"] by (simp add: token_repr)
  qed
  from this [of "[]"] show ?thesis by (simp add: quoted_def token_loop.simps(2))
qed

lemma split_quoted:
  "split_loop (\<lambda>_. True) (Some []) snoc v (concat (map (\<lambda>t. 0x20 # quoted t) ts) @ 0 # r) = Some (Some (v @ ts))"
proof (induction ts arbitrary: v)
  case Nil
  show ?case by (simp add: split_loop.simps)
next
  case (Cons t ts)
  have sp: "skip_blanks (0x20 # quoted t @ q) = Some (quoted t @ q)" for q
    by (simp add: isspace_def quoted_def)
  obtain d p where d: "concat (map (\<lambda>t. 0x20 # quoted t) ts) @ 0 # r = d # p" "d = 0 \<or> isspace d"
    by (cases ts) (auto simp: isspace_def)
  have line: "concat (map (\<lambda>t. 0x20 # quoted t) (t # ts)) @ 0 # r = 0x20 # quoted t @ d # p" using d(1) by simp
  have hd: "deref (quoted t @ d # p) = Some 0x22" by (simp add: quoted_def)
  show ?case
    unfolding line using Cons.IH [of "v @ [t]"] token_quoted [OF d(2), of t p] d(1)
    by (subst split_loop.simps) (simp add: sp hd del: skip_blanks.simps)
qed

lemma repr_char_ok:
  assumes "holds s t" "short (length t + 4)"
  shows "\<exists>s'. repr_char (plenty j) s c = Some (Some s') \<and> holds s' (t @ repr_of c)"
proof -
  have sh: "short (length t + n)" if "n \<le> 4" for n using assms(2) that by (auto elim: short_mono)
  have cat: "\<exists>s'. sdscatlen (plenty j) s [a, b] 2 = Some (Some s') \<and> holds s' (t @ [a, b])" for a b
    using sdscatlen_ok [OF assms(1), of 2 "[a, b]" "plenty j"] sh [of 2] by (simp add: plenty_results numeral_eq_Suc)
  have fmt: "\<exists>s'. sdscatprintf (plenty j) s (f @ [0]) out = Some (Some s') \<and> holds s' (t @ out)"
    if "nul_free f" "nul_free out" "length f \<le> 6" "length out \<le> 4" for f out
    using sdscatprintf_ok [OF assms(1) that(1,2), of "plenty j" "[]"] sh [OF that(4)] that(3)
    by (simp add: plenty_results short_def)
  have h: "lower_hex (unat c div 16) \<noteq> 0" "lower_hex (unat c mod 16) \<noteq> 0"
    using lower_hex unsigned_less [of c, where ?'a = nat] by simp_all
  have z: "isprint c \<Longrightarrow> c \<noteq> 0" by (auto simp: isprint_def)
  show ?thesis
    using cat fmt [of "[0x5C, 0x25, 0x63]" "[0x5C, c]"] fmt [of "[0x25, 0x63]" "[c]"] z h
      fmt [of "[0x5C, 0x78, 0x25, 0x30, 0x32, 0x78]" "[0x5C, 0x78, lower_hex (unat c div 16), lower_hex (unat c mod 16)]"]
    by (auto simp: repr_char_def repr_of_def)
qed

lemma repr_of_length: "length (repr_of c) \<le> 4"
  by (simp add: repr_of_def)

lemma repr_loop_ok:
  "holds s t \<Longrightarrow> n \<le> length p \<Longrightarrow> short (length t + 4 * n) \<Longrightarrow>
    \<exists>s'. repr_loop (plenty j) (Some s) p n = Some (Some s') \<and> holds s' (t @ concat (map repr_of (take n p)))"
proof (induction n arbitrary: s t p)
  case (Suc n)
  then obtain c q where p: "p = c # q" by (cases p) auto
  have "short (length t + 4)" using Suc.prems(3) by (rule short_mono) simp
  from repr_char_ok [OF Suc.prems(1) this, of j c] obtain s1
    where s1: "repr_char (plenty j) s c = Some (Some s1)" "holds s1 (t @ repr_of c)" by blast
  have "short (length (t @ repr_of c) + 4 * n)"
    using Suc.prems(3) by (rule short_mono) (use repr_of_length [of c] in simp)
  from Suc.IH [OF s1(2) _ this, of q] Suc.prems(2) s1 p show ?case by simp
qed simp

lemma sdscatrepr_ok:
  assumes "holds s t" "n \<le> length p" "short (length t + 4 * n + 2)"
  shows "\<exists>s'. sdscatrepr (plenty j) s p n = Some (Some s') \<and> holds s' (t @ quoted (take n p))"
proof -
  have sh: "short (length t + 1)" "short (length (t @ [0x22 :: byte]) + 4 * n)"
    using assms(3) by (auto elim: short_mono)
  from sdscatlen_ok [OF assms(1), of 1 "[0x22]" "plenty j"] sh(1) obtain s1
    where s1: "sdscatlen (plenty j) s [0x22] 1 = Some (Some s1)" "holds s1 (t @ [0x22])" by (auto simp: plenty_results)
  from repr_loop_ok [OF s1(2) assms(2) sh(2), of j] obtain s2
    where s2: "repr_loop (plenty j) (Some s1) p n = Some (Some s2)" "holds s2 ((t @ [0x22]) @ concat (map repr_of (take n p)))"
    by blast
  have "length (concat (map repr_of xs)) \<le> 4 * length xs" for xs
    by (induction xs) (auto intro: add_mono [OF repr_of_length, simplified])
  from this [of "take n p"] have "short (length ((t @ [0x22]) @ concat (map repr_of (take n p))) + 1)"
    using assms(2) by (intro short_mono [OF assms(3)]) simp
  from sdscatlen_ok [OF s2(2) _ this, of "[0x22]" "plenty j"] s1(1) s2(1) show ?thesis
    by (simp add: sdscatrepr_def plenty_results quoted_def)
qed

end
