(* ===== verification/SdsEdit.thy ===== *)
theory SdsEdit
  imports SdsArgs "HOL-Library.List_Lexorder"
begin

text \<open>
  Editing in place, comparing and splitting (\<open>sds.c\<close>): trimming, ranges, character maps, the comparison
  and the split at a separator, each with what it does to the contents.
\<close>

section \<open>Trimming\<close>

text \<open>\<open>strchr\<close> finds the terminator too.\<close>

definition strchr :: "byte list \<Rightarrow> byte \<Rightarrow> bool option" where
  "strchr cset c = do { u \<leftarrow> cstr cset; Some (c = 0 \<or> c \<in> set u) }"

function trim_left :: "byte list \<Rightarrow> byte list \<Rightarrow> nat \<Rightarrow> int \<Rightarrow> nat option" where
  "trim_left s cset sp till =
    (if int sp \<le> till then do {
       c \<leftarrow> deref (drop sp s);
       found \<leftarrow> strchr cset c;
       if found then trim_left s cset (sp + 1) till else Some sp }
     else Some sp)"
  by pat_completeness auto
termination
  by (relation "measure (\<lambda>(s, cset, sp, e). nat (e + 1 - int sp))") auto

function trim_right :: "byte list \<Rightarrow> byte list \<Rightarrow> nat \<Rightarrow> int \<Rightarrow> int option" where
  "trim_right s cset sp ep =
    (if int sp < ep then do {
       c \<leftarrow> deref (drop (nat ep) s);
       found \<leftarrow> strchr cset c;
       if found then trim_right s cset sp (ep - 1) else Some ep }
     else Some ep)"
  by pat_completeness auto
termination
  by (relation "measure (\<lambda>(s, cset, sp, ep). nat (ep - int sp))") auto

declare trim_left.simps [simp del] trim_right.simps [simp del]

text \<open>\<open>memmove(s, s + i, n)\<close>.\<close>

definition move_down :: "nat \<Rightarrow> nat \<Rightarrow> sds \<Rightarrow> sds option" where
  "move_down i n s = do { bs \<leftarrow> peek (drop i (chars s)) n; poke 0 bs s }"

definition sdstrim :: "sds \<Rightarrow> byte list \<Rightarrow> sds option" where
  "sdstrim s cset = do {
     let till = int (sdslen s) - 1;
     sp \<leftarrow> trim_left (chars s) cset 0 till;
     ep \<leftarrow> trim_right (chars s) cset sp till;
     let len = (if int sp > ep then 0 else nat (ep - int sp) + 1);
     s \<leftarrow> (if sp \<noteq> 0 then move_down sp len s else Some s);
     s \<leftarrow> poke len [0] s;
     Some (sdssetlen s len) }"

section \<open>Ranges\<close>

text \<open>A negative index counts from the end; the sum goes through an \<open>int\<close>.\<close>

definition from_end :: "nat \<Rightarrow> int \<Rightarrow> int" where
  "from_end len i = (if i < 0 then if int32 (int len + i) < 0 then 0 else int32 (int len + i) else i)"

definition sdsrange :: "sds \<Rightarrow> int \<Rightarrow> int \<Rightarrow> sds option" where
  "sdsrange s start till =
    (let len = sdslen s in
     if len = 0 then Some s
     else
       let start = from_end len start; till = from_end len till in
       if start \<le> till \<and> till - start + 1 \<ge> 2 ^ 31 then None
       else
         let newlen = (if start > till then 0 else till - start + 1);
             (start, newlen) =
               (if newlen \<noteq> 0 then
                  if start \<ge> int32 (int len) then (start, 0)
                  else if till \<ge> int32 (int len) then
                    let till = int32 (int (len - 1)) in (start, if start > till then 0 else till - start + 1)
                  else (start, newlen)
                else (0, newlen))
         in do {
           s \<leftarrow> (if start \<noteq> 0 \<and> newlen \<noteq> 0 then move_down (nat start) (nat newlen) s else Some s);
           s \<leftarrow> poke (nat newlen) [0] s;
           Some (sdssetlen s (nat newlen)) })"

section \<open>Character maps\<close>

text \<open>\<open>k\<close> characters from position \<open>j\<close> on, each replaced.\<close>

fun chars_loop :: "(byte \<Rightarrow> byte option) \<Rightarrow> nat \<Rightarrow> nat \<Rightarrow> sds \<Rightarrow> sds option" where
  "chars_loop f j 0 s = Some s"
| "chars_loop f j (Suc k) s = do {
     c \<leftarrow> deref (drop j (chars s));
     d \<leftarrow> f c;
     s \<leftarrow> poke j [d] s;
     chars_loop f (j + 1) k s }"

definition tolower :: "byte \<Rightarrow> byte" where
  "tolower c = (if 0x41 \<le> c \<and> c \<le> 0x5A then c + 0x20 else c)"

definition toupper :: "byte \<Rightarrow> byte" where
  "toupper c = (if 0x61 \<le> c \<and> c \<le> 0x7A then c - 0x20 else c)"

definition sdstolower :: "sds \<Rightarrow> sds option" where
  "sdstolower s = chars_loop (Some \<circ> tolower) 0 (nat (int32 (int (sdslen s)))) s"

definition sdstoupper :: "sds \<Rightarrow> sds option" where
  "sdstoupper s = chars_loop (Some \<circ> toupper) 0 (nat (int32 (int (sdslen s)))) s"

fun subst_char :: "byte list \<Rightarrow> byte list \<Rightarrow> nat \<Rightarrow> byte \<Rightarrow> byte option" where
  "subst_char src dst 0 c = Some c"
| "subst_char src dst (Suc n) c = do {
     a \<leftarrow> deref src;
     if c = a then deref dst else subst_char (tl src) (tl dst) n c }"

definition sdsmapchars :: "sds \<Rightarrow> byte list \<Rightarrow> byte list \<Rightarrow> nat \<Rightarrow> sds option" where
  "sdsmapchars s src dst setlen = chars_loop (subst_char src dst setlen) 0 (sdslen s) s"

section \<open>Comparing\<close>

text \<open>Of \<open>memcmp\<close> only the sign is specified.\<close>

fun memcmp :: "byte list \<Rightarrow> byte list \<Rightarrow> nat \<Rightarrow> int option" where
  "memcmp p q 0 = Some 0"
| "memcmp p q (Suc n) = do {
     a \<leftarrow> deref p;
     b \<leftarrow> deref q;
     if a < b then Some (- 1) else if b < a then Some 1 else memcmp (tl p) (tl q) n }"

definition sdscmp :: "sds \<Rightarrow> sds \<Rightarrow> int option" where
  "sdscmp s1 s2 = do {
     let l1 = sdslen s1;
     let l2 = sdslen s2;
     cmp \<leftarrow> memcmp (chars s1) (chars s2) (if l1 < l2 then l1 else l2);
     Some (if cmp = 0 then int32 (int l1 - int l2) else cmp) }"

section \<open>Splitting at a separator\<close>

definition found_at :: "byte list \<Rightarrow> byte list \<Rightarrow> nat \<Rightarrow> nat \<Rightarrow> bool option" where
  "found_at s sep seplen j = do {
     same \<leftarrow> (if seplen = 1 then do { c \<leftarrow> deref (drop j s); d \<leftarrow> deref sep; Some (c = d) } else Some False);
     if same then Some True
     else do { cmp \<leftarrow> memcmp (drop j s) sep seplen; Some (cmp = 0) } }"

text \<open>The array grows by doubling; its size is an \<open>int\<close>.\<close>

definition more_slots :: "allocator \<Rightarrow> nat \<Rightarrow> nat \<Rightarrow> nat option option" where
  "more_slots m slots elements =
    (if slots < elements + 2 then
       if 2 ^ 31 \<le> slots * 2 then None
       else if fits m (size_t (8 * (slots * 2))) then Some (Some (slots * 2)) else Some None
     else Some (Some slots))"

definition add_token :: "allocator \<Rightarrow> nat \<Rightarrow> sds list \<Rightarrow> byte list \<Rightarrow> nat \<Rightarrow> sds list option option" where
  "add_token m slots tokens p n = do {
     t \<leftarrow> sdsnewlen m (Some p) n;
     if length tokens < slots then Some (map_option (\<lambda>t. tokens @ [t]) t) else None }"

function splitlen_loop ::
  "allocator \<Rightarrow> byte list \<Rightarrow> nat \<Rightarrow> byte list \<Rightarrow> nat \<Rightarrow> nat \<Rightarrow> nat \<Rightarrow> nat \<Rightarrow> sds list \<Rightarrow> sds list option option" where
  "splitlen_loop m s len sep seplen j start slots tokens =
    (if 0 < seplen \<and> j + (seplen - 1) < len then do {
       p \<leftarrow> more_slots m slots (length tokens);
       case p of
         None \<Rightarrow> Some None
       | Some slots \<Rightarrow> do {
           found \<leftarrow> found_at s sep seplen j;
           if found then do {
             q \<leftarrow> add_token m slots tokens (drop start s) (j - start);
             case q of
               None \<Rightarrow> Some None
             | Some tokens \<Rightarrow> splitlen_loop m s len sep seplen (j + seplen) (j + seplen) slots tokens }
           else splitlen_loop m s len sep seplen (j + 1) start slots tokens } }
     else add_token m slots tokens (drop start s) (len - start))"
  by pat_completeness auto
termination
  by (relation "measure (\<lambda>(m, s, len, sep, seplen, j, start, slots, tokens). len - j)") auto

declare splitlen_loop.simps [simp del]

definition sdssplitlen :: "allocator \<Rightarrow> byte list \<Rightarrow> int \<Rightarrow> byte list \<Rightarrow> int \<Rightarrow> sds list option option" where
  "sdssplitlen m s len sep seplen =
    (if seplen < 1 \<or> len < 0 then Some None
     else if \<not> fits m (8 * 5) then Some None
     else if len = 0 then Some (Some [])
     else splitlen_loop m s (nat len) sep (nat seplen) 0 0 5 [])"

section \<open>What the edits do\<close>

lemma holds_nth:
  assumes "holds s t"
  shows "sds_ok s" "contents s = t" "sdslen s = length t" "length t < length (chars s)" "i < length t \<Longrightarrow> chars s ! i = t ! i"
proof -
  show a: "sds_ok s" "contents s = t" "sdslen s = length t" "length t < length (chars s)"
    using assms holds_len holds_chars [OF assms] by (auto simp: holds_def)
  show "i < length t \<Longrightarrow> chars s ! i = t ! i"
    using holds_chars [OF assms] by (metis nth_take)
qed

lemma deref_drop: "i < length p \<Longrightarrow> deref (drop i p) = Some (p ! i)"
  by (simp add: Cons_nth_drop_Suc [symmetric])

text \<open>A substring moved to the front and terminated.\<close>

lemma keep_slice:
  assumes "holds s t" "i + n \<le> length t" "b \<longleftrightarrow> i \<noteq> 0 \<and> c"  "n \<noteq> 0 \<Longrightarrow> c"
  shows "\<exists>s'. (do { s \<leftarrow> (if b then move_down i n s else Some s); s \<leftarrow> poke n [0] s; Some (sdssetlen s n) }) = Some s' \<and>
    holds s' (take n (drop i t))"
proof -
  note s = holds_nth [OF assms(1)]
  define bs where "bs = take n (drop i (chars s))"
  have bs: "length bs = n" "bs = take n (drop i t)"
  proof -
    have "chars s = t @ drop (length t) (chars s)" using holds_chars [OF assms(1)] by (metis append_take_drop_id)
    then obtain r where "chars s = t @ r" by blast
    then show "bs = take n (drop i t)" using assms(2) by (simp add: bs_def)
    then show "length bs = n" using assms(2) by simp
  qed
  have "(if b then move_down i n s else Some s) = poke 0 bs s"
  proof (cases b)
    case True
    moreover have "n \<le> length (chars s) - i" using assms(2) s(4) by simp
    ultimately show ?thesis by (simp add: move_down_def peek_def bs_def)
  next
    case False
    with assms(3,4) have "i = 0 \<or> n = 0" by auto
    then have "take n (chars s) = bs" by (auto simp: bs_def)
    then show ?thesis using False bs(1) assms(2) s(4) by (auto simp: poke_def)
  qed
  moreover have "n \<le> sdsalloc s" using assms(2) ok_len [OF s(1)] s(3) by simp
  ultimately show ?thesis using write_end [OF s(1), of 0 n bs] bs by simp
qed

definition trimmed :: "byte list \<Rightarrow> byte list \<Rightarrow> byte list" where
  "trimmed u t =
    (let drop = dropWhile (\<lambda>c. c = 0 \<or> c \<in> set u) in rev (drop (rev (drop t))))"

lemma trim_left_spec:
  assumes "holds s t" "cstr cset = Some u" "i \<le> length t"
  shows "trim_left (chars s) cset i (int (length t) - 1) =
    Some (i + length (takeWhile (\<lambda>c. c = 0 \<or> c \<in> set u) (drop i t)))"
  using assms(3)
proof (induction "length t - i" arbitrary: i)
  case 0
  then show ?case by (subst trim_left.simps) simp
next
  case (Suc n)
  then have i: "i < length t" "i < length (chars s)" "chars s ! i = t ! i"
    using holds_nth [OF assms(1)] by simp_all
  with Suc(1) [of "i + 1"] Suc(2) assms(2) show ?case
    by (subst trim_left.simps) (simp add: deref_drop strchr_def Cons_nth_drop_Suc [symmetric])
qed

lemma trim_right_spec:
  assumes "holds s t" "cstr cset = Some u" "i < k" "k \<le> length t"
    "\<not> (t ! i = 0 \<or> t ! i \<in> set u)"
  shows "trim_right (chars s) cset i (int k - 1) =
    Some (int k - 1 - int (length (takeWhile (\<lambda>c. c = 0 \<or> c \<in> set u) (rev (take k t)))))"
  using assms(3,4)
proof (induction k)
  case (Suc k)
  have k: "k < length (chars s)" "chars s ! k = t ! k" "k < length t"
    using Suc.prems holds_nth [OF assms(1)] by simp_all
  show ?case
  proof (cases "k = i")
    case True
    with k assms(5) show ?thesis by (subst trim_right.simps) (simp add: take_Suc_conv_app_nth)
  next
    case False
    with Suc k assms(2) show ?thesis
      by (subst trim_right.simps) (simp add: deref_drop strchr_def take_Suc_conv_app_nth)
  qed
qed simp

lemma sdstrim_ok:
  assumes "holds s t" "nul_free u"
  shows "\<exists>s'. sdstrim s (u @ 0 # r) = Some s' \<and> holds s' (trimmed u t)"
proof -
  note s = holds_nth [OF assms(1)]
  have c: "cstr (u @ 0 # r) = Some u" using assms(2) by (simp add: c_simps)
  let ?P = "\<lambda>c. c = 0 \<or> c \<in> set u"
  define i where "i = length (takeWhile ?P t)"
  have l: "trim_left (chars s) (u @ 0 # r) 0 (int (length t) - 1) = Some i"
    using trim_left_spec [OF assms(1) c, of 0] by (simp add: i_def)
  have dr: "dropWhile ?P t = drop i t" by (simp add: i_def dropWhile_eq_drop)
  show ?thesis
  proof (cases "i < length t")
    case False
    then have "trim_right (chars s) (u @ 0 # r) i (int (length t) - 1) = Some (int (length t) - 1)"
      by (subst trim_right.simps) simp
    moreover have "trimmed u t = take 0 (drop i t)" using False by (simp add: trimmed_def Let_def dr)
    moreover have "i = length t" using False length_takeWhile_le [of ?P t] by (simp add: i_def)
    ultimately show ?thesis
      using keep_slice [OF assms(1), of 0 0 False False] keep_slice [OF assms(1), of i 0 True True] l s(3)
      by (cases "i = 0") (simp_all add: sdstrim_def Let_def)
  next
    case True
    then have nP: "\<not> ?P (t ! i)" using nth_length_takeWhile [of ?P t] by (simp add: i_def)
    let ?d = "drop i t" and ?k = "length (takeWhile ?P (rev t))"
    have hd: "t ! i \<in> set (rev ?d)" using True by (simp add: Cons_nth_drop_Suc [symmetric])
    have "rev t = rev ?d @ rev (take i t)" by (simp flip: rev_append)
    then have tw: "takeWhile ?P (rev t) = takeWhile ?P (rev ?d)"
      using takeWhile_append1 [of "t ! i" "rev ?d" ?P, OF hd nP] by simp
    define e where "e = int (length t) - 1 - int ?k"
    define n where "n = length t - i - ?k"
    have k: "?k < length t - i"
    proof -
      have "dropWhile ?P (rev ?d) \<noteq> []" using hd nP unfolding dropWhile_eq_Nil_conv by blast
      moreover have "length (takeWhile ?P (rev ?d)) + length (dropWhile ?P (rev ?d)) = length (rev ?d)"
        by (simp only: length_append [symmetric] takeWhile_dropWhile_id)
      ultimately show ?thesis unfolding tw by (cases "dropWhile ?P (rev ?d)") simp_all
    qed
    have r: "trim_right (chars s) (u @ 0 # r) i (int (length t) - 1) = Some e"
      using trim_right_spec [OF assms(1) c True le_refl nP] by (simp add: e_def)
    have "trimmed u t = rev (dropWhile ?P (rev ?d))" by (simp add: trimmed_def Let_def dr)
    then have t: "trimmed u t = take n ?d"
      unfolding n_def tw by (simp add: dropWhile_eq_drop [of ?P "rev ?d"] drop_rev)
    have "e = int i + int n - 1" "0 < n" using k by (simp_all add: e_def n_def of_nat_diff)
    then have n: "(if e < int i then 0 else nat (e - int i) + 1) = n" by auto
    have "sdstrim s (u @ 0 # r) =
        do { s \<leftarrow> (if i \<noteq> 0 then move_down i n s else Some s); s \<leftarrow> poke n [0] s; Some (sdssetlen s n) }"
      unfolding sdstrim_def Let_def s(3) by (simp only: l r n Option.bind.simps)
    then show ?thesis
      using keep_slice [OF assms(1), of i n "i \<noteq> 0" True] k by (simp add: t n_def)
  qed
qed

text \<open>The slice from one index to another, inclusive, negative ones counted from the end. Both are raised to
  0, so an end before the first character still keeps that character.\<close>

definition slice :: "int \<Rightarrow> int \<Rightarrow> byte list \<Rightarrow> byte list" where
  "slice start till t =
    (let n = int (length t); idx = (\<lambda>i. if i < 0 then max 0 (n + i) else i)
     in take (nat (idx till - idx start + 1)) (drop (nat (idx start)) t))"

definition c_int :: "int \<Rightarrow> bool" where
  "c_int i \<longleftrightarrow> - (2 ^ 31) \<le> i \<and> i < 2 ^ 31"

lemma int32_fits: "c_int i \<Longrightarrow> int32 i = i"
  by (simp add: c_int_def int32_def signed_take_bit_int_eq_self)

lemma from_end_idx: "c_int i \<Longrightarrow> n < 2 ^ 31 \<Longrightarrow> from_end n i = (if i < 0 then max 0 (int n + i) else i)"
  by (auto simp: from_end_def int32_fits c_int_def max_def)

lemma sdsrange_ok:
  assumes "holds s t" "length t < 2 ^ 31" "c_int start" "c_int till"
    "from_end (length t) till - from_end (length t) start + 1 < 2 ^ 31"
  shows "\<exists>s'. sdsrange s start till = Some s' \<and> holds s' (slice start till t)"
proof (cases "t = []")
  case True
  with assms(1) show ?thesis by (auto simp: sdsrange_def slice_def Let_def holds_len)
next
  case False
  define a where "a = from_end (length t) start"
  define b where "b = from_end (length t) till"
  note s = holds_nth [OF assms(1)]
  have ab: "0 \<le> a" "0 \<le> b" using assms(2-4) by (auto simp: a_def b_def from_end_idx)
  have sl: "slice start till t = take (nat (b - a + 1)) (drop (nat a) t)"
    using assms(2-4) by (simp add: slice_def Let_def a_def b_def from_end_idx)
  define l where "l = int (length t)"
  have l: "int32 l = l" "int32 (l - 1) = l - 1" "0 < l" "int (length t - 1) = l - 1"
    using False assms(2) by (auto simp: l_def int32_fits c_int_def of_nat_diff Suc_leI)
  let ?e = "if b < l then b else l - 1"
  let ?n = "if a \<le> b \<and> a < l then ?e - a + 1 else 0" and ?a = "if a \<le> b then a else 0"
  have r: "sdsrange s start till = do {
      s \<leftarrow> (if ?a \<noteq> 0 \<and> ?n \<noteq> 0 then move_down (nat ?a) (nat ?n) s else Some s);
      s \<leftarrow> poke (nat ?n) [0] s;
      Some (sdssetlen s (nat ?n)) }"
    using False assms(5) s(3) l
    by (simp add: sdsrange_def Let_def a_def [symmetric] b_def [symmetric] l_def [symmetric])
  have t: "slice start till t = take (nat ?n) (drop (nat ?a) t)"
  proof (cases "a \<le> b \<and> a < l \<and> \<not> b < l")
    case True
    then have "length (drop (nat a) t) \<le> nat (b - a + 1)" "length (drop (nat a) t) \<le> nat (l - a)"
      using ab unfolding l_def length_drop by arith+
    with True show ?thesis by (simp add: sl)
  next
    case False
    then show ?thesis using ab by (auto simp: sl l_def)
  qed
  show ?thesis
  proof (cases "?n = 0")
    case True
    then show ?thesis unfolding r t using keep_slice [OF assms(1), of 0 0 False False] by simp
  next
    case False
    then show ?thesis
      unfolding r t by (intro keep_slice [OF assms(1), of _ _ _ True]) (use ab l(3) in \<open>auto simp: l_def split: if_splits\<close>)
  qed
qed

lemma chars_loop_spec:
  assumes "chars s = xs @ ys @ zs" "length xs = j" "length ys = k" "map f ys = map Some ws"
  shows "chars_loop f j k s = Some (s\<lparr>chars := xs @ ws @ zs\<rparr>)"
  using assms
proof (induction k arbitrary: j s xs ys ws)
  case (Suc k)
  then obtain y ys' where y: "ys = y # ys'" "length ys' = k" by (cases ys) auto
  with Suc.prems(4) obtain w ws' where w: "ws = w # ws'" "f y = Some w" "map f ys' = map Some ws'" by (cases ws) auto
  have "poke j [w] s = Some (s\<lparr>chars := (xs @ [w]) @ ys' @ zs\<rparr>)" using Suc.prems(1,2) y by (simp add: poke_def)
  with Suc.IH [of "s\<lparr>chars := (xs @ [w]) @ ys' @ zs\<rparr>" "xs @ [w]" ys' "j + 1" ws'] Suc.prems(1,2) y w show ?case by simp
qed simp

lemma chars_loop_ok:
  assumes "holds s t" "map f t = map Some u"
  shows "\<exists>s'. chars_loop f 0 (length t) s = Some s' \<and> holds s' u"
proof -
  note s = holds_nth [OF assms(1)]
  define zs where "zs = drop (length t) (chars s)"
  have len: "length u = length t" using assms(2) by (metis length_map)
  have c: "chars s = t @ zs" using holds_chars [OF assms(1)] by (metis append_take_drop_id zs_def)
  have "chars_loop f 0 (length t) s = Some (s\<lparr>chars := u @ zs\<rparr>)"
    using chars_loop_spec [of s "[]" t zs 0 "length t" f u] c assms(2) by simp
  moreover have "holds (s\<lparr>chars := u @ zs\<rparr>) u"
    using s c len by (auto simp: holds_def sds_ok_def sds_open_def contents_def sdsalloc_def nth_append)
  ultimately show ?thesis by blast
qed

lemma case_loop_ok:
  assumes "holds s t" "length t < 2 ^ 31"
  shows "\<exists>s'. sdstolower s = Some s' \<and> holds s' (map tolower t)" "\<exists>s'. sdstoupper s = Some s' \<and> holds s' (map toupper t)"
  using chars_loop_ok [OF assms(1), of "Some \<circ> tolower"] chars_loop_ok [OF assms(1), of "Some \<circ> toupper"]
    holds_nth(3) [OF assms(1)] int32_id [OF assms(2)]
  by (simp_all add: sdstolower_def sdstoupper_def)

text \<open>The character that another one is mapped to.\<close>

definition mapped :: "byte list \<Rightarrow> byte list \<Rightarrow> byte \<Rightarrow> byte" where
  "mapped u v c = (case map_of (zip u v) c of None \<Rightarrow> c | Some d \<Rightarrow> d)"

lemma subst_char_spec: "n \<le> length u \<Longrightarrow> n \<le> length v \<Longrightarrow> subst_char u v n c = Some (mapped (take n u) (take n v) c)"
proof (induction n arbitrary: u v)
  case (Suc n)
  then obtain a u' b v' where "u = a # u'" "v = b # v'" by (cases u; cases v) auto
  with Suc show ?case by (simp add: mapped_def)
qed (simp add: mapped_def)

lemma sdsmapchars_ok:
  assumes "holds s t" "n \<le> length u" "n \<le> length v"
  shows "\<exists>s'. sdsmapchars s u v n = Some s' \<and> holds s' (map (mapped (take n u) (take n v)) t)"
proof -
  have "map (subst_char u v n) t = map Some (map (mapped (take n u) (take n v)) t)"
    using assms(2,3) by (simp add: subst_char_spec)
  from chars_loop_ok [OF assms(1) this] show ?thesis by (simp add: sdsmapchars_def holds_nth(3) [OF assms(1)])
qed

text \<open>The order of strings.\<close>

definition order_of :: "byte list \<Rightarrow> byte list \<Rightarrow> int" where
  "order_of t u = (if t < u then - 1 else if u < t then 1 else 0)"

lemma memcmp_spec:
  "n \<le> length p \<Longrightarrow> n \<le> length q \<Longrightarrow> memcmp p q n = Some (order_of (take n p) (take n q))"
proof (induction n arbitrary: p q)
  case (Suc n)
  then obtain a p' b q' where "p = a # p'" "q = b # q'" by (cases p; cases q) auto
  with Suc show ?case by (auto simp: order_of_def)
qed (simp add: order_of_def)

lemma order_of_prefix:
  "order_of (take (length u) t) (take (length t) u) \<noteq> 0 \<Longrightarrow>
    order_of t u = order_of (take (length u) t) (take (length t) u)"
  "order_of (take (length u) t) (take (length t) u) = 0 \<Longrightarrow> order_of t u = sgn (int (length t) - int (length u))"
proof -
  have "(order_of (take (length u) t) (take (length t) u) \<noteq> 0 \<longrightarrow>
      order_of t u = order_of (take (length u) t) (take (length t) u)) \<and>
    (order_of (take (length u) t) (take (length t) u) = 0 \<longrightarrow> order_of t u = sgn (int (length t) - int (length u)))"
    by (induction t u rule: list_induct2') (auto simp: order_of_def split: if_splits)
  then show "order_of (take (length u) t) (take (length t) u) \<noteq> 0 \<Longrightarrow>
    order_of t u = order_of (take (length u) t) (take (length t) u)"
  "order_of (take (length u) t) (take (length t) u) = 0 \<Longrightarrow> order_of t u = sgn (int (length t) - int (length u))"
    by blast+
qed

lemma sdscmp_ok:
  assumes "holds s t" "holds s' u" "length t < 2 ^ 31" "length u < 2 ^ 31"
  shows "\<exists>k. sdscmp s s' = Some k \<and> sgn k = order_of t u"
proof -
  let ?n = "min (length t) (length u)"
  have t: "take (length t) (chars s) = t" "length t \<le> length (chars s)" and u: "take (length u) (chars s') = u" "length u \<le> length (chars s')"
    using holds_chars [OF assms(1)] holds_chars [OF assms(2)] by simp_all
  have tk: "take ?n (chars s) = take (length u) t" "take ?n (chars s') = take (length t) u"
    using t(1) u(1) by (metis min.commute take_take)+
  have m: "memcmp (chars s) (chars s') ?n = Some (order_of (take (length u) t) (take (length t) u))"
    using memcmp_spec [of ?n "chars s" "chars s'"] t(2) u(2) unfolding tk by simp
  have i: "int32 (int (length t) - int (length u)) = int (length t) - int (length u)"
    using assms(3,4) by (intro int32_fits) (simp add: c_int_def)
  have n: "(if length t < length u then length t else length u) = ?n" by simp
  have sg: "sgn (order_of v w) = order_of v w" for v w by (simp add: order_of_def)
  show ?thesis
    using order_of_prefix [of u t] i unfolding sdscmp_def Let_def holds_nth(3) [OF assms(1)] holds_nth(3) [OF assms(2)] n m
    by (auto simp: sg)
qed

section \<open>Splitting and joining\<close>

text \<open>The tokens of a text, the current one read up to \<open>acc\<close>.\<close>

function split_text :: "byte list \<Rightarrow> byte list \<Rightarrow> byte list \<Rightarrow> byte list list" where
  "split_text sep acc t =
    (if sep \<noteq> [] \<and> length sep \<le> length t then
       if take (length sep) t = sep then acc # split_text sep [] (drop (length sep) t)
       else split_text sep (acc @ [hd t]) (tl t)
     else [acc @ t])"
  by pat_completeness auto
termination
  by (relation "measure (\<lambda>(sep, acc, t). length t)") (auto simp: length_greater_0_conv [symmetric] simp del: length_greater_0_conv)

declare split_text.simps [simp del]

lemma split_text_eqs:
  "sep \<noteq> [] \<and> length sep \<le> length t \<Longrightarrow> take (length sep) t = sep \<Longrightarrow>
    split_text sep acc t = acc # split_text sep [] (drop (length sep) t)"
  "sep \<noteq> [] \<and> length sep \<le> length t \<Longrightarrow> take (length sep) t \<noteq> sep \<Longrightarrow>
    split_text sep acc t = split_text sep (acc @ [hd t]) (tl t)"
  "\<not> (sep \<noteq> [] \<and> length sep \<le> length t) \<Longrightarrow> split_text sep acc t = [acc @ t]"
  using split_text.simps [of sep acc t] by (simp_all only: if_True if_False simp_thms)

lemma split_text_nonempty: "split_text sep acc t \<noteq> []"
proof (induction sep acc t rule: split_text.induct)
  case (1 sep acc t)
  show ?case
  proof (cases "sep \<noteq> [] \<and> length sep \<le> length t")
    case True
    show ?thesis
    proof (cases "take (length sep) t = sep")
      case False
      from 1(2) [OF True False] show ?thesis unfolding split_text_eqs(2) [OF True False] .
    qed (simp add: split_text_eqs(1) [OF True])
  qed (simp only: split_text_eqs(3) not_Cons_self2 not_False_eq_True list.simps)
qed

lemma joined_simps: "joined sep [] = []" "joined sep (x # xs) = x @ (if xs \<noteq> [] then sep @ joined sep xs else [])"
  by (simp_all add: joined_def)

lemma joined_split: "joined sep (split_text sep acc t) = acc @ t"
proof (induction sep acc t rule: split_text.induct)
  case (1 sep acc t)
  show ?case
  proof (cases "sep \<noteq> [] \<and> length sep \<le> length t")
    case True
    show ?thesis
    proof (cases "take (length sep) t = sep")
      case m: True
      then have "sep @ drop (length sep) t = t" by (metis append_take_drop_id)
      with 1(1) [OF True m] show ?thesis
        by (simp add: split_text_eqs(1) [OF True m] joined_simps split_text_nonempty)
    next
      case False
      have "t \<noteq> []" using True by auto
      with 1(2) [OF True False] show ?thesis by (simp add: split_text_eqs(2) [OF True False])
    qed
  next
    case False
    then show ?thesis by (simp add: split_text_eqs(3) [OF False] joined_simps)
  qed
qed

text \<open>No token holds the separator.\<close>

definition occurs :: "byte list \<Rightarrow> byte list \<Rightarrow> bool" where
  "occurs sep t \<longleftrightarrow> (\<exists>u v. t = u @ sep @ v)"

definition no_earlier :: "byte list \<Rightarrow> byte list \<Rightarrow> byte list \<Rightarrow> bool" where
  "no_earlier sep acc t \<longleftrightarrow> (\<forall>u v. acc @ t = u @ sep @ v \<longrightarrow> length acc \<le> length u)"

lemma split_text_tokens:
  "sep \<noteq> [] \<Longrightarrow> no_earlier sep acc t \<Longrightarrow> x \<in> set (split_text sep acc t) \<Longrightarrow> \<not> occurs sep x"
proof (induction sep acc t rule: split_text.induct)
  case (1 sep acc t)
  show ?case
  proof (cases "length sep \<le> length t")
    case True
    with 1(3) have c: "sep \<noteq> [] \<and> length sep \<le> length t" by simp
    show ?thesis
    proof (cases "take (length sep) t = sep")
      case m: True
      have "\<not> occurs sep acc"
      proof
        assume "occurs sep acc"
        then obtain u v where "acc = u @ sep @ v" by (auto simp: occurs_def)
        with 1(3,4) show False by (auto simp: no_earlier_def)
      qed
      with 1(1) [OF c m 1(3)] 1(5) show ?thesis by (auto simp: split_text_eqs(1) [OF c m] no_earlier_def)
    next
      case False
      have "no_earlier sep (acc @ [hd t]) (tl t)"
        unfolding no_earlier_def
      proof (intro allI impI)
        fix u v assume a: "(acc @ [hd t]) @ tl t = u @ sep @ v"
        have "t \<noteq> []" using c by auto
        then have a2: "acc @ t = u @ sep @ v" using a by simp
        with 1(4) have "length acc \<le> length u" by (auto simp: no_earlier_def)
        moreover have "length acc \<noteq> length u"
        proof
          assume "length acc = length u"
          with a2 have "t = sep @ v" by simp
          with False show False by simp
        qed
        ultimately show "length (acc @ [hd t]) \<le> length u" by simp
      qed
      with 1(2) [OF c False 1(3)] 1(5) show ?thesis by (simp add: split_text_eqs(2) [OF c False])
    qed
  next
    case False
    then have "x = acc @ t" using 1(5) by (simp add: split_text_eqs(3))
    moreover have "\<not> occurs sep (acc @ t)"
    proof
      assume "occurs sep (acc @ t)"
      then obtain u v where a: "acc @ t = u @ sep @ v" by (auto simp: occurs_def)
      with 1(4) have "length acc \<le> length u" by (auto simp: no_earlier_def)
      moreover have "length acc + length t = length u + length sep + length v" using arg_cong [OF a, of length] by simp
      ultimately show False using False by simp
    qed
    ultimately show ?thesis by simp
  qed
qed

lemma found_at_spec:
  assumes "s = t @ r" "n \<le> length sep" "j + n \<le> length t" "0 < n"
  shows "found_at s sep n j = Some (take n (drop j t) = take n sep)"
proof -
  have m: "memcmp (drop j s) sep n = Some (order_of (take n (drop j t)) (take n sep))"
    using memcmp_spec [of n "drop j s" sep] assms by simp
  have z: "order_of v w = 0 \<longleftrightarrow> v = w" for v w by (auto simp: order_of_def)
  show ?thesis
  proof (cases "n = 1")
    case True
    with assms have "deref (drop j s) = Some (t ! j)" "take 1 (drop j t) = [t ! j]" "deref sep = Some (hd sep)" "take 1 sep = [hd sep]"
      by (auto simp: deref_drop nth_append take_Suc Cons_nth_drop_Suc [symmetric] neq_Nil_conv Suc_le_length_iff)
    with True m show ?thesis by (simp add: found_at_def z)
  next
    case False
    with m show ?thesis by (simp add: found_at_def z)
  qed
qed

lemma add_token_ok:
  assumes "length tokens < slots" "n \<le> length p" "short n"
  shows "\<exists>x. add_token (plenty h) slots tokens p n = Some (Some (tokens @ [x])) \<and> holds x (take n p)"
  using sdsnewlen_ok [OF assms(2,3), of "plenty h"] assms(1) by (auto simp: plenty_results add_token_def)

lemma more_slots_ok:
  assumes "elements < slots" "elements < 2 ^ 30 - 1"
  shows "\<exists>k. more_slots (plenty h) slots elements = Some (Some k) \<and> elements + 1 < k"
  using assms by (auto simp: more_slots_def plenty_def)

lemma splitlen_loop_ok:
  assumes "s = t @ r" "n \<le> length sep" "0 < n" "length t < 2 ^ 30"
    "start \<le> j" "j \<le> length t" "length tokens < slots" "length tokens \<le> j"
  shows "\<exists>xs. splitlen_loop (plenty h) s (length t) sep n j start slots tokens = Some (Some (tokens @ xs)) \<and>
    list_all2 holds xs (split_text (take n sep) (take (j - start) (drop start t)) (drop j t))"
  using assms(5-8)
proof (induction "length t - j" arbitrary: j start slots tokens rule: less_induct)
  case less
  let ?acc = "take (j - start) (drop start t)"
  have len: "length (take n sep) = n" "take n sep \<noteq> []" using assms(2,3) by auto
  have sh: "short k" if "k \<le> length t" for k using that assms(4) by (simp add: short_def)
  have acc: "take (j - start) (drop start s) = ?acc" using less.prems(1,2) assms(1) by simp
  show ?case
  proof (cases "j + (n - 1) < length t")
    case False
    then have "split_text (take n sep) ?acc (drop j t) = [?acc @ drop j t]"
      using assms(3) less.prems(2) by (intro split_text_eqs(3)) (unfold len(1), auto)
    moreover have "?acc @ drop j t = drop start t"
      using less.prems(1) by (metis append_take_drop_id drop_drop le_add_diff_inverse2)
    moreover have "take (length t - start) (drop start s) = drop start t" using less.prems(1,2) assms(1) by simp
    moreover obtain x where "add_token (plenty h) slots tokens (drop start s) (length t - start) = Some (Some (tokens @ [x]))"
      "holds x (take (length t - start) (drop start s))"
      using add_token_ok [OF less.prems(3), of "length t - start" "drop start s" h] sh assms(1) by auto
    ultimately show ?thesis using False by (subst splitlen_loop.simps) (auto intro!: exI [of _ "[x]"])
  next
    case True
    have c: "take n sep \<noteq> [] \<and> length (take n sep) \<le> length (drop j t)" using True assms(3) len by simp
    from more_slots_ok [OF less.prems(3), of h] less.prems(4) True assms(4) obtain k
      where k: "more_slots (plenty h) slots (length tokens) = Some (Some k)" "length tokens + 1 < k" by auto
    have f: "found_at s sep n j = Some (take n (drop j t) = take n sep)"
      using found_at_spec [OF assms(1,2) _ assms(3), of j] True assms(3) by simp
    have loop: "splitlen_loop (plenty h) s (length t) sep n j start slots tokens =
        (if take n (drop j t) = take n sep then do {
           q \<leftarrow> add_token (plenty h) k tokens (drop start s) (j - start);
           case q of None \<Rightarrow> Some None
           | Some tokens \<Rightarrow> splitlen_loop (plenty h) s (length t) sep n (j + n) (j + n) k tokens }
         else splitlen_loop (plenty h) s (length t) sep n (j + 1) start k tokens)"
      using True assms(3) by (subst splitlen_loop.simps) (simp add: k(1) f)
    show ?thesis
    proof (cases "take n (drop j t) = take n sep")
      case m: True
      have js: "j - start \<le> length t" "j - start \<le> length (drop start s)"
        using less.prems(1,2) assms(1) by auto
      have "length tokens < k" using k(2) by simp
      from add_token_ok [OF this js(2) sh [OF js(1)], of h, unfolded acc] obtain x
        where x: "add_token (plenty h) k tokens (drop start s) (j - start) = Some (Some (tokens @ [x]))" "holds x ?acc"
        by blast
      have "\<exists>xs. splitlen_loop (plenty h) s (length t) sep n (j + n) (j + n) k (tokens @ [x]) = Some (Some ((tokens @ [x]) @ xs)) \<and>
          list_all2 holds xs (split_text (take n sep) (take (j + n - (j + n)) (drop (j + n) t)) (drop (j + n) t))"
        using True assms(3) less.prems k(2) by (intro less.hyps) auto
      then obtain xs where "splitlen_loop (plenty h) s (length t) sep n (j + n) (j + n) k (tokens @ [x]) = Some (Some (tokens @ x # xs))"
        "list_all2 holds xs (split_text (take n sep) [] (drop n (drop j t)))" by (auto simp: add.commute)
      moreover have "split_text (take n sep) ?acc (drop j t) = ?acc # split_text (take n sep) [] (drop n (drop j t))"
        using split_text_eqs(1) [OF c] m len by simp
      ultimately show ?thesis using x m loop by (intro exI [of _ "x # xs"]) simp
    next
      case False
      have j: "j < length t" using True by simp
      have "\<exists>xs. splitlen_loop (plenty h) s (length t) sep n (j + 1) start k tokens = Some (Some (tokens @ xs)) \<and>
          list_all2 holds xs (split_text (take n sep) (take (j + 1 - start) (drop start t)) (drop (j + 1) t))"
        using j less.prems k(2) by (intro less.hyps) auto
      moreover have "take (j + 1 - start) (drop start t) = ?acc @ [hd (drop j t)]"
        using j less.prems(1) by (simp add: Suc_diff_le take_Suc_conv_app_nth hd_drop_conv_nth)
      moreover have "split_text (take n sep) ?acc (drop j t) = split_text (take n sep) (?acc @ [hd (drop j t)]) (drop (j + 1) t)"
        using split_text_eqs(2) [OF c] False len by (simp add: drop_Suc tl_drop)
      ultimately show ?thesis using False loop by simp
    qed
  qed
qed

text \<open>The tokens of a whole text: none for the empty one.\<close>

definition tokens_of :: "byte list \<Rightarrow> byte list \<Rightarrow> byte list list" where
  "tokens_of sep t = (if t = [] then [] else split_text sep [] t)"

lemma sdssplitlen_ok:
  assumes "n \<le> length sep" "0 < n" "length t < 2 ^ 30"
  shows "\<exists>xs. sdssplitlen (plenty h) (t @ r) (int (length t)) sep (int n) = Some (Some xs) \<and>
    list_all2 holds xs (tokens_of (take n sep) t)"
  using splitlen_loop_ok [OF refl assms, of 0 0 "[]" 5 h r] assms(2)
  by (cases "t = []") (auto simp: sdssplitlen_def tokens_of_def plenty_def)

end
