(* ===== verification/SdsProps.thy ===== *)
theory SdsProps
  imports SdsEdit
begin

text \<open>
  What the dynamic strings promise to a caller, each with an instance: appending, the integer printers, the
  formats, quoting and splitting, ranges and the comparison.
\<close>

definition sample :: sds where
  "sample = \<lparr>flags = 1, len_field = 2, alloc_field = 4, chars = [0x61, 0x62, 0, 0xAA, 0xAA]\<rparr>"

definition zeros :: "nat \<Rightarrow> byte" where
  "zeros n = 0"

lemma sample_holds: "holds sample [0x61, 0x62]"
  by (simp add: holds_def sds_ok_def sds_open_def contents_def sample_def sds_type_def sdslen_def sdsalloc_def sds_types
    width_def numeral_eq_Suc)

text \<open>C35: appending keeps a well-formed string well-formed and appends exactly the bytes given, whatever
  header the longer string needs; NULL is returned only when an allocation fails.\<close>

theorem sds_append_wellformed:
  assumes "sds_ok s" "n \<le> length u" "short (sdslen s + n)"
  shows "results m (sdscatlen m s u n) (contents s @ take n u)"
  using sdscatlen_ok [of s "contents s" n u m] assms ok_len [OF assms(1)] by (simp add: holds_def)

lemma sds_append_wellformed_witness:
  "results (plenty zeros) (sdscatlen (plenty zeros) sample [0x63, 0x64, 0x65] 3) [0x61, 0x62, 0x63, 0x64, 0x65]"
  using sds_append_wellformed [of sample 3 "[0x63, 0x64, 0x65]" "plenty zeros"] sample_holds holds_len [OF sample_holds]
  by (simp add: holds_def short_def)

text \<open>The integer printers write the decimal text and its terminator within 21 bytes; the least
  \<open>long long\<close> has no defined result, because the code negates it.\<close>

lemma integers_printed:
  assumes "SDS_LLSTR_SIZE \<le> length buf"
  shows "sdsll2str buf i = (if sint i = - (2 ^ 63) then None else Some (length (fmt_int (sint i)),
      fmt_int (sint i) @ 0 # drop (Suc (length (fmt_int (sint i)))) buf)) \<and>
    sdsull2str buf v = Some (length (dec (unat v)), dec (unat v) @ 0 # drop (Suc (length (dec (unat v)))) buf)"
proof -
  have "sint i = - (2 ^ 63) \<Longrightarrow> sdsll2str buf i = None" by (simp add: sdsll2str_def word_sless_alt)
  then show ?thesis
    using sdsll2str_spec [of i buf] sdsull2str_spec [of v buf] number_lengths(1) [of v] number_lengths(2) [of i] assms
    by simp
qed

text \<open>C39: \<open>sdscatfmt\<close> appends what its format renders: the characters of the format, strings up to their
  terminator or their length, and decimal integers.\<close>

theorem catfmt_renders:
  assumes "holds s t" "rendered args f = Some (left, u)" "nul_free f" "length t + length u < 2 ^ 31"
  shows "\<exists>s'. sdscatfmt (plenty j) s (f @ 0 # r) args = Some s' \<and> holds s' (t @ u)"
  using sdscatfmt_ok [OF assms] .

lemma catfmt_renders_witness:
  "\<exists>s'. sdscatfmt (plenty zeros) sample [0x25, 0x69, 0x2F, 0x25, 0x53, 0] [Signed (- 7), Dynamic sample] = Some s' \<and>
    holds s' [0x61, 0x62, 0x2D, 0x37, 0x2F, 0x61, 0x62]"
proof -
  have ok: "sds_ok sample" "contents sample = [0x61, 0x62]" using sample_holds by (simp_all add: holds_def)
  have "rendered [Signed (- 7), Dynamic sample] [0x25, 0x69, 0x2F, 0x25, 0x53] = Some ([], [0x2D, 0x37, 0x2F, 0x61, 0x62])"
    by (simp add: spec_text_def arg_text_def ok fmt_int_def dec.simps digit_byte_def)
  from catfmt_renders [OF sample_holds this, of zeros "[]"] show ?thesis by simp
qed

text \<open>A format that ends in a lone percent sign is read beyond its terminator.\<close>

lemma catfmt_overreads:
  assumes "holds s t" "rendered args f = Some (left, u)" "nul_free f" "length t + length u < 2 ^ 31"
  shows "sdscatfmt (plenty j) s (f @ [0x25, 0]) args = None"
  using sdscatfmt_trailing_percent [OF assms] .

text \<open>C36: the quoted forms of any byte strings, separated by blanks, are split back into the strings.\<close>

theorem repr_split_roundtrip:
  assumes "holds s t" "n \<le> length p" "short (4 * n + length t + 2)" "short (length line)"
    "line = concat (map (\<lambda>t. 0x20 # quoted t) ts) @ [0]"
  shows "(\<exists>s'. sdscatrepr (plenty j) s p n = Some (Some s') \<and> holds s' (t @ quoted (take n p))) \<and>
    (\<exists>v. sdssplitargs (plenty j) line = Some (Some v) \<and> list_all2 points_to v ts)"
proof
  show "\<exists>s'. sdscatrepr (plenty j) s p n = Some (Some s') \<and> holds s' (t @ quoted (take n p))"
    using sdscatrepr_ok [OF assms(1,2)] assms(3) by (simp add: ac_simps)
  have "args_of line = Some (Some ts)" using split_quoted [of "[]" ts "[]"] by (simp add: args_of_def assms(5))
  with splitargs_refines [OF assms(4), of j]
  show "\<exists>v. sdssplitargs (plenty j) line = Some (Some v) \<and> list_all2 points_to v ts"
    by (auto simp: option.rel_sel rel_option_iff split: option.splits)
qed

lemma repr_split_roundtrip_witness:
  "\<exists>v. sdssplitargs (plenty zeros) [0x20, 0x22, 0x61, 0x5C, 0x6E, 0x22, 0x20, 0x22, 0x5C, 0x78, 0x66, 0x66, 0x22, 0] = Some (Some v) \<and>
    list_all2 points_to v [[0x61, 0x0A], [0xFF]]"
  using repr_split_roundtrip [OF sample_holds, of 0 "[]" _ "[[0x61, 0x0A], [0xFF]]" zeros]
  by (simp add: short_def quoted_def repr_of_def isprint_def lower_hex_def)

text \<open>C37: splitting any terminated line stays inside the line and builds exactly the arguments of the
  tokenizer on plain byte lists, or returns NULL where that finds unbalanced quotes.\<close>

theorem splitargs_safe:
  assumes "0 \<in> set line" "short (length line)"
  shows "\<exists>r. args_of line = Some r \<and> sdssplitargs (plenty j) line \<noteq> None \<and>
    rel_option (rel_option (list_all2 points_to)) (sdssplitargs (plenty j) line) (Some r)"
proof -
  from args_of_defined [OF assms(1)] obtain r where "args_of line = Some r" by blast
  with splitargs_refines [OF assms(2), of j] show ?thesis by (auto simp: rel_option_iff split: option.splits)
qed

lemma splitargs_safe_witness: "sdssplitargs (plenty zeros) [0x22, 0x61, 0] = Some None"
proof -
  have "args_of [0x22, 0x61, 0] = Some None"
    by (simp add: args_of_def split_loop.simps token_loop.simps(2) isspace_def hex_escape_def snoc_def)
  with splitargs_safe [of "[0x22, 0x61, 0]" zeros] show ?thesis by (auto simp: short_def rel_option_iff split: option.splits)
qed



text \<open>A range keeps the slice between two indices, negative ones counted from the end.\<close>

lemma range_keeps_slice:
  assumes "holds s t" "length t < 2 ^ 31" "c_int start" "c_int till"
    "from_end (length t) till - from_end (length t) start + 1 < 2 ^ 31"
  shows "\<exists>s'. sdsrange s start till = Some s' \<and> holds s' (slice start till t)"
  using sdsrange_ok [OF assms] .

text \<open>The comparison has the sign of the lexicographic order of the contents.\<close>

lemma compare_lexicographic:
  assumes "holds s t" "holds s' u" "length t < 2 ^ 31" "length u < 2 ^ 31"
  shows "\<exists>k. sdscmp s s' = Some k \<and> (k < 0) = (t < u) \<and> (k = 0) = (t = u)"
proof -
  from sdscmp_ok [OF assms] obtain k where "sdscmp s s' = Some k" "sgn k = order_of t u" by blast
  then show ?thesis by (auto simp: order_of_def sgn_if split: if_splits)
qed

end
