(* ===== verification/SdsTest.thy ===== *)
theory SdsTest
  imports SdsProps
begin

text \<open>
  The test program of the library itself, \<open>sdsTest\<close> of \<open>sds.c\<close>: each of its blocks, up to the next fresh string, as
  the list of its conditions. What is checked is that the model passes the tests the code comes with, whatever
  the fresh memory holds, and where the program does something undefined. The strings are freed in between,
  which no condition depends on.
\<close>

section \<open>The code\<close>

type_synonym test_run = "(string \<times> bool) list option"

text \<open>\<open>sdslen(x) == len && memcmp(x, lit, n) == 0\<close>.\<close>

definition test_text :: "sds_ptr \<Rightarrow> nat \<Rightarrow> byte list \<Rightarrow> nat \<Rightarrow> bool option" where
  "test_text x len lit n =
    through x (\<lambda>x. if sdslen x = len then do { c \<leftarrow> memcmp (chars x) lit n; Some (c = 0) } else Some False)"

text \<open>An operation that changes the string where it is.\<close>

definition inplace :: "(sds \<Rightarrow> sds option) \<Rightarrow> sds_ptr \<Rightarrow> sds_ptr option" where
  "inplace f x = through x (\<lambda>x. map_option Some (f x))"

definition test_basics :: "allocator \<Rightarrow> test_run" where
  "test_basics m = do {
     x \<leftarrow> sdsnew m (Some (literal ''foo''));
     a \<leftarrow> test_text x 3 (bytes ''foo'' @ [0, 0]) 4;
     x \<leftarrow> sdsnewlen m (Some (literal ''foo'')) 2;
     b \<leftarrow> test_text x 2 (bytes ''fo'' @ [0, 0]) 3;
     x \<leftarrow> through x (\<lambda>x. sdscat m x (literal ''bar''));
     c \<leftarrow> test_text x 5 (bytes ''fobar'' @ [0, 0]) 6;
     x \<leftarrow> through x (\<lambda>x. sdscpy m x (literal ''a''));
     d \<leftarrow> test_text x 1 (bytes ''a'' @ [0, 0]) 2;
     x \<leftarrow> through x (\<lambda>x. sdscpy m x (literal ''xyzxxxxxxxxxxyyyyyyyyyykkkkkkkkkk''));
     e \<leftarrow> test_text x 33 (bytes ''xyzxxxxxxxxxxyyyyyyyyyykkkkkkkkkk'' @ [0, 0]) 33;
     Some [(''Create a string and obtain the length'', a), (''Create a string with specified length'', b),
       (''Strings concatenation'', c), (''sdscpy() against an originally longer string'', d),
       (''sdscpy() against an originally shorter string'', e)] }"

definition test_printf :: "allocator \<Rightarrow> test_run" where
  "test_printf m = do {
     x \<leftarrow> sdsempty m;
     x \<leftarrow> through x (\<lambda>x. sdscatprintf m x (literal ''%d'') (fmt_int 123));
     a \<leftarrow> test_text x 3 (bytes ''123'' @ [0, 0]) 4;
     Some [(''sdscatprintf() seems working in the base case'', a)] }"

definition test_signed :: "allocator \<Rightarrow> test_run" where
  "test_signed m = do {
     x \<leftarrow> sdsnew m (Some (literal ''--''));
     x \<leftarrow> inplace (\<lambda>x. sdscatfmt m x (literal ''Hello %s World %I,%I--'')
       [Chars (literal ''Hi!''), LongLong (- (2 ^ 63)), LongLong (2 ^ 63 - 1)]) x;
     a \<leftarrow> test_text x 60 (literal ''--Hello Hi! World -9223372036854775808,9223372036854775807--'') 60;
     Some [(''sdscatfmt() seems working in the base case'', a)] }"

definition test_unsigned :: "allocator \<Rightarrow> test_run" where
  "test_unsigned m = do {
     x \<leftarrow> sdsnew m (Some (literal ''--''));
     x \<leftarrow> inplace (\<lambda>x. sdscatfmt m x (literal ''%u,%U--'') [Unsigned (- 1), UnsignedLongLong (- 1)]) x;
     a \<leftarrow> test_text x 35 (literal ''--4294967295,18446744073709551615--'') 35;
     Some [(''sdscatfmt() seems working with unsigned numbers'', a)] }"

definition test_trim :: "allocator \<Rightarrow> test_run" where
  "test_trim m = do {
     x \<leftarrow> sdsnew m (Some (literal '' x ''));
     x \<leftarrow> inplace (\<lambda>x. sdstrim x (literal '' x'')) x;
     a \<leftarrow> test_text x 0 [] 0;
     x \<leftarrow> sdsnew m (Some (literal '' x ''));
     x \<leftarrow> inplace (\<lambda>x. sdstrim x (literal '' '')) x;
     b \<leftarrow> test_text x 1 (literal ''x'') 1;
     Some [(''sdstrim() works when all chars match'', a), (''sdstrim() works when a single char remains'', b)] }"

text \<open>A copy of \<open>x\<close> cut to a range.\<close>

definition test_range :: "allocator \<Rightarrow> sds_ptr \<Rightarrow> string \<Rightarrow> int \<Rightarrow> int \<Rightarrow> string \<Rightarrow> test_run" where
  "test_range m x descr start till lit = do {
     y \<leftarrow> through x (sdsdup m);
     y \<leftarrow> inplace (\<lambda>y. sdsrange y start till) y;
     a \<leftarrow> test_text y (length lit) (bytes lit @ [0, 0]) (length lit + 1);
     Some [(descr, a)] }"

definition test_ranges :: "allocator \<Rightarrow> test_run" where
  "test_ranges m = do {
     x \<leftarrow> sdsnew m (Some (literal ''xxciaoyyy''));
     x \<leftarrow> inplace (\<lambda>x. sdstrim x (literal ''xy'')) x;
     a \<leftarrow> test_text x 4 (bytes ''ciao'' @ [0, 0]) 5;
     b \<leftarrow> test_range m x ''sdsrange(...,1,1)'' 1 1 ''i'';
     c \<leftarrow> test_range m x ''sdsrange(...,1,-1)'' 1 (- 1) ''iao'';
     d \<leftarrow> test_range m x ''sdsrange(...,-2,-1)'' (- 2) (- 1) ''ao'';
     e \<leftarrow> test_range m x ''sdsrange(...,2,1)'' 2 1 '''';
     f \<leftarrow> test_range m x ''sdsrange(...,1,100)'' 1 100 ''iao'';
     g \<leftarrow> test_range m x ''sdsrange(...,100,100)'' 100 100 '''';
     Some ((''sdstrim() correctly trims characters'', a) # b @ c @ d @ e @ f @ g) }"

definition test_cmp :: "allocator \<Rightarrow> test_run" where
  "test_cmp m = do {
     x \<leftarrow> sdsnew m (Some (literal ''foo''));
     y \<leftarrow> sdsnew m (Some (literal ''foa''));
     a \<leftarrow> through x (\<lambda>x. through y (sdscmp x));
     x \<leftarrow> sdsnew m (Some (literal ''bar''));
     y \<leftarrow> sdsnew m (Some (literal ''bar''));
     b \<leftarrow> through x (\<lambda>x. through y (sdscmp x));
     x \<leftarrow> sdsnew m (Some (literal ''aar''));
     y \<leftarrow> sdsnew m (Some (literal ''bar''));
     c \<leftarrow> through x (\<lambda>x. through y (sdscmp x));
     Some [(''sdscmp(foo,foa)'', 0 < a), (''sdscmp(bar,bar)'', b = 0), (''sdscmp(bar,bar)'', c < 0)] }"

definition test_repr :: "allocator \<Rightarrow> test_run" where
  "test_repr m = do {
     x \<leftarrow> sdsnewlen m (Some ([0x07, 0x0A, 0] @ bytes ''foo'' @ [0x0D, 0])) 7;
     y \<leftarrow> sdsempty m;
     y \<leftarrow> through x (\<lambda>x. through y (\<lambda>y. sdscatrepr m y (chars x) (sdslen x)));
     a \<leftarrow> through y (\<lambda>y. memcmp (chars y)
       ([0x22, 0x5C] @ bytes ''a'' @ [0x5C] @ bytes ''n'' @ [0x5C] @ bytes ''x00foo'' @ [0x5C] @ bytes ''r'' @ [0x22, 0]) 15);
     Some [(''sdscatrepr(...data...)'', a = 0)] }"

text \<open>One pass of the loop on \<open>sdsMakeRoomFor\<close>: the bytes are stored behind the end, then the length is set.\<close>

definition test_room_step :: "allocator \<Rightarrow> sds_ptr \<Rightarrow> (sds_ptr \<times> (string \<times> bool) list) option" where
  "test_room_step m x = do {
     oldlen \<leftarrow> through x (\<lambda>x. Some (sdslen x));
     x \<leftarrow> through x (\<lambda>x. sdsMakeRoomFor m x 10);
     x \<leftarrow> x;
     let a = [(''sdsMakeRoomFor() len'', sdslen x = oldlen)];
     let b = (if sds_type x \<noteq> SDS_TYPE_5 then [(''sdsMakeRoomFor() free'', 10 \<le> sdsavail x)] else []);
     x \<leftarrow> poke oldlen (bytes ''ABCDEFGHIJ'') x;
     x \<leftarrow> sdsIncrLen x 10;
     Some (x, a @ b) }"

fun test_room_loop :: "allocator \<Rightarrow> nat \<Rightarrow> sds_ptr \<Rightarrow> (sds_ptr \<times> (string \<times> bool) list) option" where
  "test_room_loop m 0 x = Some (x, [])"
| "test_room_loop m (Suc n) x = do {
     (x, a) \<leftarrow> test_room_step m x;
     (x, b) \<leftarrow> test_room_loop m n x;
     Some (x, a @ b) }"

definition test_room :: "allocator \<Rightarrow> test_run" where
  "test_room m = do {
     x \<leftarrow> sdsnew m (Some (literal ''0''));
     a \<leftarrow> through x (\<lambda>x. Some (sdslen x = 1 \<and> sdsavail x = 0));
     (x, b) \<leftarrow> test_room_loop m 10 x;
     c \<leftarrow> through x (\<lambda>x. memcmp (chars x)
       (literal (''0'' @ concat (replicate 10 ''ABCDEFGHIJ''))) 101);
     d \<leftarrow> through x (\<lambda>x. Some (sdslen x = 101));
     Some ((''sdsnew() free/len buffers'', a) # b @
       [(''sdsMakeRoomFor() content'', c = 0), (''sdsMakeRoomFor() final length'', d)]) }"

definition sdsTest :: "allocator \<Rightarrow> test_run list" where
  "sdsTest m = [test_basics m, test_printf m, test_signed m, test_unsigned m, test_trim m, test_ranges m, test_cmp m,
     test_repr m, test_room m]"

definition verdict :: "test_run \<Rightarrow> bool option" where
  "verdict r = map_option (list_all snd) r"

section \<open>Steps of a run\<close>

text \<open>The contents and the terminator.\<close>

lemma holds_end: "holds s t \<Longrightarrow> take (Suc (length t)) (chars s) = t @ [0]"
  using holds_chars [of s t] by (simp add: take_Suc_conv_app_nth) (simp add: holds_def sds_ok_def)

lemma memcmp_holds:
  assumes "holds s t" "take n (t @ [0]) = take n lit" "n \<le> Suc (length t)" "n \<le> length lit"
  shows "memcmp (chars s) lit n = Some 0"
proof -
  have "take n (chars s) = take n (t @ [0])"
    using assms(3) holds_end [OF assms(1)] by (metis min.absorb1 take_take)
  then show ?thesis using memcmp_spec [of n "chars s" lit] holds_chars [OF assms(1)] assms by (simp add: order_of_def)
qed

text \<open>A run goes on with a string of known bytes, and with a condition that holds. The side conditions are about the
  bytes of literals, which simplification computes.\<close>

named_theorems runs \<open>the steps of the tests\<close>

lemma run_step:
  assumes "\<exists>s. r = Some (Some s) \<and> holds s t" "\<And>s. holds s t \<Longrightarrow> verdict (f (Some s)) = v"
  shows "verdict (Option.bind r f) = v"
  using assms by auto

lemma test_step [runs]:
  assumes "holds s t" "length t = len" "take n (t @ [0]) = take n lit" "n \<le> Suc (length t)" "n \<le> length lit" "verdict (f True) = v"
  shows "verdict (Option.bind (test_text (Some s) len lit n) f) = v"
  using memcmp_holds [OF assms(1,3-5)] holds_chars [OF assms(1)] assms(2,6) by (simp add: test_text_def)

lemma new_step [runs]:
  assumes "nul_free t" "length t < 1000" "\<And>s. holds s t \<Longrightarrow> verdict (f (Some s)) = v"
  shows "verdict (Option.bind (sdsnew (plenty j) (Some (t @ [0]))) f) = v"
  by (rule run_step [where t = "t" and f = f and v = v, OF _ assms(3)]) (use sdsnew_ok [of t "plenty j" "[]"] assms in \<open>simp add: plenty_results short_small\<close>)

lemma empty_step [runs]:
  assumes "\<And>s. holds s [] \<Longrightarrow> verdict (f (Some s)) = v"
  shows "verdict (Option.bind (sdsempty (plenty j)) f) = v"
  by (rule run_step [where t = "[]" and f = f and v = v, OF _ assms]) (use sdsempty_ok [of "plenty j"] in \<open>simp add: plenty_results\<close>)

lemma newlen_step [runs]:
  assumes "n \<le> length p" "n < 1000" "\<And>s. holds s (take n p) \<Longrightarrow> verdict (f (Some s)) = v"
  shows "verdict (Option.bind (sdsnewlen (plenty j) (Some p) n) f) = v"
  by (rule run_step [where t = "take n p" and f = f and v = v, OF _ assms(3)]) (use sdsnewlen_ok [of n p "plenty j"] assms in \<open>simp add: plenty_results short_small\<close>)

lemma cat_step [runs]:
  assumes "holds s t" "nul_free u" "length t + length u < 1000" "\<And>s. holds s (t @ u) \<Longrightarrow> verdict (f (Some s)) = v"
  shows "verdict (Option.bind (through (Some s) (\<lambda>x. sdscat (plenty j) x (u @ [0]))) f) = v"
  by (rule run_step [where t = "t @ u" and f = f and v = v, OF _ assms(4)]) (use sdscat_ok [of s t u "plenty j" "[]"] assms in \<open>simp add: plenty_results short_small\<close>)

lemma cpy_step [runs]:
  assumes "holds s t" "nul_free u" "length t < 1000" "length u < 1000" "\<And>s. holds s u \<Longrightarrow> verdict (f (Some s)) = v"
  shows "verdict (Option.bind (through (Some s) (\<lambda>x. sdscpy (plenty j) x (u @ [0]))) f) = v"
  by (rule run_step [where t = "u" and f = f and v = v, OF _ assms(5)]) (use sdscpy_ok [of s t u "plenty j" "[]"] assms in \<open>simp add: plenty_results short_small\<close>)

lemma printf_step [runs]:
  assumes "holds s t" "nul_free u" "nul_free w" "length u < 1000" "length t + length w < 1000" "\<And>s. holds s (t @ w) \<Longrightarrow> verdict (f (Some s)) = v"
  shows "verdict (Option.bind (through (Some s) (\<lambda>x. sdscatprintf (plenty j) x (u @ [0]) w)) f) = v"
  by (rule run_step [where t = "t @ w" and f = f and v = v, OF _ assms(6)]) (use sdscatprintf_ok [of s t u w "plenty j" "[]"] assms in \<open>simp add: plenty_results short_small\<close>)

lemma inplace_step:
  assumes "\<exists>s'. g s = Some s' \<and> holds s' t" "\<And>s. holds s t \<Longrightarrow> verdict (f (Some s)) = v"
  shows "verdict (Option.bind (inplace g (Some s)) f) = v"
  using assms by (auto simp: inplace_def)

lemma fmt_step [runs]:
  assumes "holds s t" "nul_free w" "rendered args w = Some ([], u)" "length t + length u < 1000" "\<And>s. holds s (t @ u) \<Longrightarrow> verdict (f (Some s)) = v"
  shows "verdict (Option.bind (inplace (\<lambda>x. sdscatfmt (plenty j) x (w @ [0]) args) (Some s)) f) = v"
  by (rule inplace_step [where t = "t @ u" and f = f and v = v, OF _ assms(5)]) (use sdscatfmt_ok [OF assms(1,3,2), of j "[]"] assms(4) in simp)

lemma trim_step [runs]:
  assumes "holds s t" "nul_free u" "\<And>s. holds s (trimmed u t) \<Longrightarrow> verdict (f (Some s)) = v"
  shows "verdict (Option.bind (inplace (\<lambda>x. sdstrim x (u @ [0])) (Some s)) f) = v"
  by (rule inplace_step [where t = "trimmed u t" and f = f and v = v, OF _ assms(3)]) (rule sdstrim_ok [OF assms(1,2)])

section \<open>The blocks\<close>

lemma unat_ones: "unat (- 1 :: 32 word) = 4294967295" "unat (- 1 :: 64 word) = 18446744073709551615"
  by (simp_all add: unsigned_minus_1_eq_mask mask_eq_exp_minus_1)

lemmas run_defs = literal_def nul_free_def verdict_def trimmed_def fmt_int_def dec.simps digit_byte_def spec_text_def arg_text_def unat_ones

lemma basics_pass: "verdict (test_basics (plenty j)) = Some True"
  unfolding test_basics_def literal_def by (rule runs | assumption | simp add: run_defs)+

lemma printf_passes: "verdict (test_printf (plenty j)) = Some True"
  unfolding test_printf_def literal_def by (rule runs | assumption | simp add: run_defs)+

lemma trim_passes: "verdict (test_trim (plenty j)) = Some True"
  unfolding test_trim_def literal_def by (rule runs | assumption | simp add: run_defs)+

lemma unsigned_passes: "verdict (test_unsigned (plenty j)) = Some True"
  unfolding test_unsigned_def literal_def by (rule runs | assumption | simp add: run_defs)+


lemma cmp_step [runs]:
  assumes "holds s t" "holds s' u" "length t < 1000" "length u < 1000" "\<And>k. sgn k = order_of t u \<Longrightarrow> verdict (f k) = v"
  shows "verdict (Option.bind (through (Some s) (\<lambda>x. through (Some s') (sdscmp x))) f) = v"
  using sdscmp_ok [OF assms(1,2)] assms(3-5) by auto

lemma repr_step [runs]:
  assumes "holds s t" "holds s' u" "length t < 1000" "length u < 1000" "\<And>s. holds s (u @ quoted t) \<Longrightarrow> verdict (f (Some s)) = v"
  shows "verdict (Option.bind (through (Some s) (\<lambda>x. through (Some s') (\<lambda>y. sdscatrepr (plenty j) y (chars x) (sdslen x)))) f) = v"
  by (rule run_step [where t = "u @ quoted t" and f = f and v = v, OF _ assms(5)])
    (use sdscatrepr_ok [of s' u "sdslen s" "chars s" j] holds_chars [OF assms(1)] assms in \<open>simp add: short_def\<close>)

lemma memcmp_step [runs]:
  assumes "holds s t" "take n (t @ [0]) = take n lit" "n \<le> Suc (length t)" "n \<le> length lit" "verdict (f 0) = v"
  shows "verdict (Option.bind (through (Some s) (\<lambda>y. memcmp (chars y) lit n)) f) = v"
  using memcmp_holds [OF assms(1-4)] assms(5) by simp

lemma range_step [runs]:
  assumes "holds s t" "length t < 1000" "c_int start" "c_int till" "from_end (length t) till - from_end (length t) start + 1 < 2 ^ 31"
    and "slice start till t = bytes lit" "verdict (f [(descr, True)]) = v"
  shows "verdict (Option.bind (test_range (plenty j) (Some s) descr start till lit) f) = v"
proof -
  obtain y where y: "sdsdup (plenty j) s = Some (Some y)" "holds y t"
    using sdsdup_ok [OF assms(1), of "plenty j"] assms(2) by (auto simp: plenty_results short_small)
  obtain z where z: "sdsrange y start till = Some z" "holds z (bytes lit)"
    using sdsrange_ok [OF y(2) _ assms(3-5)] assms(2,6) by auto
  have "memcmp (chars z) (bytes lit @ [0, 0]) (length lit + 1) = Some 0" by (rule memcmp_holds [OF z(2)]) simp_all
  then have "test_range (plenty j) (Some s) descr start till lit = Some [(descr, True)]"
    using y z holds_chars [OF z(2)] by (simp add: test_range_def inplace_def test_text_def)
  with assms(7) show ?thesis by simp
qed

lemma cmp_passes: "verdict (test_cmp (plenty j)) = Some True"
  unfolding test_cmp_def literal_def by (rule runs | assumption | simp add: run_defs order_of_def sgn_1_pos sgn_1_neg sgn_0_0)+

lemma repr_passes: "verdict (test_repr (plenty j)) = Some True"
  unfolding test_repr_def literal_def by (rule runs | assumption | simp add: run_defs quoted_def repr_of_def isprint_def lower_hex_def)+

lemma ranges_pass: "verdict (test_ranges (plenty j)) = Some True"
  unfolding test_ranges_def literal_def by (rule runs | assumption | simp add: run_defs c_int_def slice_def from_end_idx Let_def)+

lemma new_literal:
  assumes "nul_free (bytes t)" "length t < 1000"
  obtains s where "sdsnew (plenty j) (Some (literal t)) = Some (Some s)" "holds s (bytes t)"
  using sdsnew_ok [OF assms(1), of "plenty j" "[]"] assms(2) by (auto simp: plenty_results literal_def short_small)

text \<open>The least \<open>long long\<close> as an argument of \<open>%I\<close>: the code negates it, which overflows.\<close>

lemma catfmt_least:
  assumes "holds s t" "rendered args f = Some (LongLong (- (2 ^ 63)) # args', u)" "nul_free f" "length t + length u < 2 ^ 31"
  shows "sdscatfmt (plenty j) s (f @ 0x25 # 0x49 # r) args = None"
proof -
  have s: "sds_ok s" "contents s = t" "sdslen s < 2 ^ 31" using assms(1,4) holds_len by (auto simp: holds_def)
  have "sint (- (2 ^ 63) :: 64 word) = - (2 ^ 63)" by simp
  then have "arg_number m 0x49 (LongLong (- (2 ^ 63))) = None" for m
    by (simp add: arg_number_def sdsll2str_def word_sless_alt)
  then have "fmt_loop (plenty j) (LongLong (- (2 ^ 63)) # args') (0x25 # 0x49 # r) si = None" for si
    by (cases "fmt_room (plenty j) si") simp_all
  with fmt_loop_rendered [OF assms(2,3), of "(s, int32 (int (sdslen s)))" j "0x25" "0x49 # r"] catfmt_start [OF s(1,3)] s(2) assms(4)
  show ?thesis by (auto simp: sdscatfmt_def)
qed

lemma signed_undefined: "test_signed (plenty j) = None"
proof -
  let ?args = "[Chars (literal ''Hi!''), LongLong (- (2 ^ 63)), LongLong (2 ^ 63 - 1)]"
  obtain s where s: "sdsnew (plenty j) (Some (literal ''--'')) = Some (Some s)" "holds s (bytes ''--'')"
    by (rule new_literal [of "''--''" j]) (simp_all add: nul_free_def)
  have "rendered ?args (bytes ''Hello %s World '') = Some (tl ?args, bytes ''Hello Hi! World '')"
    by (simp add: spec_text_def arg_text_def literal_def c_simps)
  with catfmt_least [OF s(2), of ?args "bytes ''Hello %s World ''" _ "bytes ''Hello Hi! World ''" j "bytes '',%I--'' @ [0]"]
  have "sdscatfmt (plenty j) s (literal ''Hello %s World %I,%I--'') ?args = None"
    by (simp add: literal_def nul_free_def)
  with s(1) show ?thesis by (simp add: test_signed_def inplace_def)
qed

section \<open>Room\<close>

lemma room_step_ok:
  assumes "holds s t" "length t < 1000"
  shows "\<exists>s' cs. test_room_step (plenty j) (Some s) = Some (Some s', cs) \<and> list_all snd cs \<and> holds s' (t @ bytes ''ABCDEFGHIJ'')"
proof -
  have l: "sdslen s = length t" "sds_ok s" "contents s = t" using assms(1) holds_len by (auto simp: holds_def)
  obtain s1 where s1: "sdsMakeRoomFor (plenty j) s 10 = Some (Some s1)" "holds s1 t" "length t + 10 \<le> sdsalloc s1"
    using make_room [OF l(2), of 10 "plenty j"] l assms(2) by (auto simp: plenty_def short_def)
  have o: "sds_open s1" "sdslen s1 = length t" "sdsalloc s1 < length (chars s1)" "take (length t) (chars s1) = t"
    using s1(2) holds_chars [OF s1(2)] by (auto simp: holds_def sds_ok_def sds_open_def)
  have ty: "sds_type s1 \<noteq> SDS_TYPE_5" using o(2) s1(3) by (auto simp: sdslen_def sdsalloc_def)
  define cs where "cs = take (length t) (chars s1) @ bytes ''ABCDEFGHIJ'' @ drop (length t + 10) (chars s1)"
  have lc: "length cs = length (chars s1)" using o(3) s1(3) by (simp add: cs_def)
  have p: "poke (length t) (bytes ''ABCDEFGHIJ'') s1 = Some (s1\<lparr>chars := cs\<rparr>)"
    using o(3) s1(3) by (simp add: poke_def cs_def numeral_eq_Suc del: bytes_Cons)
  have o2: "sds_open (s1\<lparr>chars := cs\<rparr>)" "sds_type (s1\<lparr>chars := cs\<rparr>) = sds_type s1" "sdslen (s1\<lparr>chars := cs\<rparr>) = length t"
    "sdsalloc (s1\<lparr>chars := cs\<rparr>) = sdsalloc s1"
  proof -
    show t: "sds_type (s1\<lparr>chars := cs\<rparr>) = sds_type s1" by (simp add: sds_type_def)
    show "sdslen (s1\<lparr>chars := cs\<rparr>) = length t" "sdsalloc (s1\<lparr>chars := cs\<rparr>) = sdsalloc s1"
      unfolding o(2) [symmetric] by (simp_all add: t sdslen_def sdsalloc_def)
    then show "sds_open (s1\<lparr>chars := cs\<rparr>)" using o(1) by (simp add: t sds_open_def lc)
  qed
  have tk: "take (length t + 10) cs = t @ bytes ''ABCDEFGHIJ''" by (simp add: cs_def o(4))
  obtain s2 where s2: "sdsIncrLen (s1\<lparr>chars := cs\<rparr>) 10 = Some (Some s2)" "holds s2 (t @ bytes ''ABCDEFGHIJ'')"
    using sdsIncrLen_open [OF o2(1), of 10] ty o2 s1(3) tk by (auto simp: nat_add_distrib)
  have "10 \<le> sdsavail s1" using open_avail [OF o(1)] o(2) s1(3) by simp
  with s1(1) p s2 l(1) o(2) ty show ?thesis by (simp add: test_room_step_def Let_def del: bytes_Cons)
qed

lemma room_loop_ok:
  "holds s t \<Longrightarrow> length t + 10 * n < 1000 \<Longrightarrow>
    \<exists>s' cs. test_room_loop (plenty j) n (Some s) = Some (Some s', cs) \<and> list_all snd cs \<and>
      holds s' (t @ concat (replicate n (bytes ''ABCDEFGHIJ'')))"
proof (induction n arbitrary: s t)
  case (Suc n)
  obtain s1 cs where s1: "test_room_step (plenty j) (Some s) = Some (Some s1, cs)" "list_all snd cs"
      "holds s1 (t @ bytes ''ABCDEFGHIJ'')"
    using room_step_ok [OF Suc.prems(1), of j] Suc.prems(2) by (auto simp del: bytes_Cons)
  from Suc.IH [OF s1(3)] Suc.prems(2) obtain s2 ds where "test_room_loop (plenty j) n (Some s1) = Some (Some s2, ds)"
      "list_all snd ds" "holds s2 ((t @ bytes ''ABCDEFGHIJ'') @ concat (replicate n (bytes ''ABCDEFGHIJ'')))"
    by (auto simp del: bytes_Cons)
  with s1 show ?case by (simp del: bytes_Cons)
qed simp

lemma small_type: "sdsnewlen m (Some p) n = Some (Some s) \<Longrightarrow> 0 < n \<Longrightarrow> n < 32 \<Longrightarrow> sds_type s = SDS_TYPE_5"
  by (auto simp: sdsnewlen_def Let_def sdsReqType_def sds_types sds_type_def poke_def bind_eq_Some_conv split: if_splits)

lemma room_passes: "verdict (test_room (plenty j)) = Some True"
proof -
  let ?t = "bytes ''0'' @ concat (replicate 10 (bytes ''ABCDEFGHIJ''))"
  obtain s where s: "sdsnew (plenty j) (Some (literal ''0'')) = Some (Some s)" "holds s (bytes ''0'')"
    by (rule new_literal [of "''0''" j]) (simp_all add: nul_free_def)
  have "sdsnewlen (plenty j) (Some (literal ''0'')) 1 = Some (Some s)"
    using s(1) by (simp add: sdsnew_def literal_def c_simps)
  then have "sds_type s = SDS_TYPE_5" by (rule small_type) simp_all
  then have avail: "sdsavail s = 0" by (simp add: sdsavail_def)
  obtain s1 cs where s1: "test_room_loop (plenty j) 10 (Some s) = Some (Some s1, cs)" "list_all snd cs" "holds s1 ?t"
    using room_loop_ok [OF s(2), of 10 j] by (auto simp del: bytes_Cons)
  have lit: "literal (''0'' @ concat (replicate 10 ''ABCDEFGHIJ'')) = ?t @ [0]"
    by (simp add: literal_def numeral_eq_Suc)
  have "memcmp (chars s1) (?t @ [0]) 101 = Some 0"
    by (rule memcmp_holds [OF s1(3)]) (simp_all add: length_concat sum_list_replicate)
  moreover have "sdslen s1 = 101" using holds_len [OF s1(3)] by (simp add: length_concat sum_list_replicate)
  ultimately show ?thesis
    using s avail s1(1,2) holds_len [OF s(2)] unfolding test_room_def lit by (simp add: verdict_def)
qed


section \<open>Properties\<close>


end
